(* ===== verification/Prelude.thy ===== *)
theory Prelude
  imports Main "HOL-Library.Word"
begin

text \<open>
  The vocabulary shared by the development: Go's byte slices and fixed-width integers,
  Go's \<open>error\<close> values, the multi-byte readers and writers of \<open>encoding/binary\<close>, and the
  generic lemmas on lists and words that the components use. Nothing here models a file of
  the repository; it models the parts of Go and of its standard library that the files use.
\<close>

unbundle bit_operations_syntax

section \<open>Types\<close>

type_synonym byte = "8 word"
type_synonym bytes = "byte list"
type_synonym u8 = "8 word"
type_synonym u16 = "16 word"
type_synonym u32 = "32 word"
type_synonym u64 = "64 word"

text \<open>
  An \<open>error\<close> value of a package whose sentinel errors are the type \<open>'e\<close>: the sentinels of
  \<open>io\<close>, an error of the underlying stream or sink (numbered), a package sentinel, one wrapped by
  \<open>fmt.Errorf\<close> with the text of its format string (verbs unexpanded), or an \<open>errors.Join\<close>.
\<close>

datatype 'e error =
    EOF
  | ErrUnexpectedEOF
  | IOErr nat
  | Err 'e
  | Errorf 'e string
  | Join "'e error list"

text \<open>\<open>errors.Is(err, sentinel)\<close> for a package sentinel.\<close>

fun errors_Is :: "'e error \<Rightarrow> 'e \<Rightarrow> bool" where
  "errors_Is (Err e) s = (e = s)"
| "errors_Is (Errorf e _) s = (e = s)"
| "errors_Is (Join es) s = (\<exists>e \<in> set es. errors_Is e s)"
| "errors_Is _ s = False"

text \<open>\<open>errors.Join(a, b)\<close> drops nil errors and is nil when all are.\<close>

definition errors_Join :: "'e error option \<Rightarrow> 'e error option \<Rightarrow> 'e error option" where
  "errors_Join a b = (case (a, b) of
     (None, None) \<Rightarrow> None
   | (Some x, None) \<Rightarrow> Some (Join [x])
   | (None, Some y) \<Rightarrow> Some (Join [y])
   | (Some x, Some y) \<Rightarrow> Some (Join [x, y]))"

text \<open>A Go string literal as its bytes.\<close>

definition str :: "string \<Rightarrow> bytes" where
  "str s = map of_char s"

section \<open>encoding/binary\<close>

text \<open>A numeric conversion between integer types: truncation or zero extension.\<close>

abbreviation to8 :: "'a::len word \<Rightarrow> byte" where "to8 \<equiv> ucast"
abbreviation to16 :: "'a::len word \<Rightarrow> u16" where "to16 \<equiv> ucast"
abbreviation to32 :: "'a::len word \<Rightarrow> u32" where "to32 \<equiv> ucast"
abbreviation to64 :: "'a::len word \<Rightarrow> u64" where "to64 \<equiv> ucast"

definition be16 :: "u16 \<Rightarrow> bytes" where
  "be16 x = [to8 (drop_bit 8 x), to8 x]"

definition be32 :: "u32 \<Rightarrow> bytes" where
  "be32 x = [to8 (drop_bit 24 x), to8 (drop_bit 16 x), to8 (drop_bit 8 x), to8 x]"

definition le16 :: "u16 \<Rightarrow> bytes" where
  "le16 x = [to8 x, to8 (drop_bit 8 x)]"

definition le32 :: "u32 \<Rightarrow> bytes" where
  "le32 x = [to8 x, to8 (drop_bit 8 x), to8 (drop_bit 16 x), to8 (drop_bit 24 x)]"

definition le64 :: "u64 \<Rightarrow> bytes" where
  "le64 x = [to8 x, to8 (drop_bit 8 x), to8 (drop_bit 16 x), to8 (drop_bit 24 x),
             to8 (drop_bit 32 x), to8 (drop_bit 40 x), to8 (drop_bit 48 x), to8 (drop_bit 56 x)]"

text \<open>
  The readers index the slice they are given. The Go code always passes a slice that is long
  enough (each call site of the model shows it), so \<open>!\<close> is never used out of range.
\<close>

definition get_be16 :: "bytes \<Rightarrow> u16" where
  "get_be16 b = push_bit 8 (to16 (b ! 0)) OR to16 (b ! 1)"

definition get_be32 :: "bytes \<Rightarrow> u32" where
  "get_be32 b = push_bit 24 (to32 (b ! 0)) OR push_bit 16 (to32 (b ! 1))
     OR push_bit 8 (to32 (b ! 2)) OR to32 (b ! 3)"

definition get_le16 :: "bytes \<Rightarrow> u16" where
  "get_le16 b = to16 (b ! 0) OR push_bit 8 (to16 (b ! 1))"

definition get_le32 :: "bytes \<Rightarrow> u32" where
  "get_le32 b = to32 (b ! 0) OR push_bit 8 (to32 (b ! 1))
     OR push_bit 16 (to32 (b ! 2)) OR push_bit 24 (to32 (b ! 3))"

definition get_le64 :: "bytes \<Rightarrow> u64" where
  "get_le64 b = to64 (b ! 0) OR push_bit 8 (to64 (b ! 1))
     OR push_bit 16 (to64 (b ! 2)) OR push_bit 24 (to64 (b ! 3))
     OR push_bit 32 (to64 (b ! 4)) OR push_bit 40 (to64 (b ! 5))
     OR push_bit 48 (to64 (b ! 6)) OR push_bit 56 (to64 (b ! 7))"

text \<open>The value of an \<open>int64\<close> arithmetic result: two's complement wrap-around at 64 bits.\<close>

definition i64 :: "int \<Rightarrow> int" where
  "i64 x = signed_take_bit 63 x"

text \<open>A slice expression \<open>b[i:j]\<close>.\<close>

definition slice :: "nat \<Rightarrow> nat \<Rightarrow> 'a list \<Rightarrow> 'a list" where
  "slice i j xs = take (j - i) (drop i xs)"

section \<open>Collections\<close>

named_theorems codec \<open>round trips of the fixed-width codecs\<close>
named_theorems lens \<open>lengths of encoded values\<close>

section \<open>Round trips of the fixed-width codecs\<close>

lemma length_be_le [lens, simp]:
  "length (be16 a) = 2" "length (be32 b) = 4" "length (le16 a) = 2" "length (le32 b) = 4"
  "length (le64 c) = 8"
  by (simp_all add: be16_def be32_def le16_def le32_def le64_def)

text \<open>A bit position as a byte index and an offset: the case split behind the codec proofs.\<close>

lemma bit_pos_cases:
  "n < 16 \<Longrightarrow> n < 8 \<or> (\<exists>r<8. n = 8 + r)"
  "n < 32 \<Longrightarrow> n < 16 \<or> (\<exists>r<8. n = 16 + r) \<or> (\<exists>r<8. n = 24 + r)"
  "n < 64 \<Longrightarrow> n < 8 \<or> (\<exists>r<8. n = 8 + r) \<or> (\<exists>r<8. n = 16 + r) \<or> (\<exists>r<8. n = 24 + r) \<or>
     (\<exists>r<8. n = 32 + r) \<or> (\<exists>r<8. n = 40 + r) \<or> (\<exists>r<8. n = 48 + r) \<or> (\<exists>r<8. n = 56 + r)"
  for n :: nat
  by presburger+

lemma bit_high [simp]:
  "8 \<le> n \<Longrightarrow> \<not> bit (b :: byte) n" "16 \<le> n \<Longrightarrow> \<not> bit (h :: u16) n"
  "32 \<le> n \<Longrightarrow> \<not> bit (w :: u32) n" "64 \<le> n \<Longrightarrow> \<not> bit (q :: u64) n"
  by (auto dest: bit_imp_le_length)

lemma unat_byte_less [simp]: "unat (b :: byte) < 256" "unat b < Suc 255"
  using unsigned_less[of b, where ?'a = nat] by simp_all

lemma get_be16_be16 [codec, simp]: "get_be16 (be16 x @ r) = x"
proof (rule bit_word_eqI)
  fix n assume "n < LENGTH(16)"
  then show "bit (get_be16 (be16 x @ r)) n = bit x n"
    using bit_pos_cases(1)[of n] by (auto simp: get_be16_def be16_def bit_simps)
qed

lemma get_le16_le16 [codec, simp]: "get_le16 (le16 x @ r) = x"
proof (rule bit_word_eqI)
  fix n assume "n < LENGTH(16)"
  then show "bit (get_le16 (le16 x @ r)) n = bit x n"
    using bit_pos_cases(1)[of n] by (auto simp: get_le16_def le16_def bit_simps)
qed

lemma get_be32_be32 [codec, simp]: "get_be32 (be32 x @ r) = x"
proof (rule bit_word_eqI)
  fix n assume "n < LENGTH(32)"
  then show "bit (get_be32 (be32 x @ r)) n = bit x n"
    using bit_pos_cases(1,2)[of n] by (auto simp: get_be32_def be32_def bit_simps)
qed

lemma get_le32_le32 [codec, simp]: "get_le32 (le32 x @ r) = x"
proof (rule bit_word_eqI)
  fix n assume "n < LENGTH(32)"
  then show "bit (get_le32 (le32 x @ r)) n = bit x n"
    using bit_pos_cases(1,2)[of n] by (auto simp: get_le32_def le32_def bit_simps)
qed

lemma get_le64_le64 [codec, simp]: "get_le64 (le64 x @ r) = x"
proof (rule bit_word_eqI)
  fix n assume "n < LENGTH(64)"
  then have "n < 64" by simp
  from bit_pos_cases(3)[OF this] show "bit (get_le64 (le64 x @ r)) n = bit x n"
    by (elim disjE exE conjE; simp add: get_le64_def le64_def bit_simps)
qed

text \<open>The other direction: the byte strings of the right length are all encodings.\<close>

lemma be16_get_be16 [codec]: "be16 (get_be16 [a, b]) = [a, b]"
  by (auto simp: get_be16_def be16_def bit_simps intro!: bit_word_eqI)

lemma length_4_cases: "length xs = 4 \<Longrightarrow> \<exists>a b c d. xs = [a, b, c, d]"
  by (auto simp: numeral_eq_Suc length_Suc_conv)

lemma be32_get_be32 [codec]: "be32 (get_be32 [a, b, c, d]) = [a, b, c, d]"
  by (auto simp: get_be32_def be32_def bit_simps intro!: bit_word_eqI)

section \<open>Bit masks\<close>

lemma or_and_disjoint: "a AND m = 0 \<Longrightarrow> (a OR x) AND m = x AND (m :: 'a::len word)"
  by (simp add: bit.conj_disj_distrib2)

lemma bit_nat_less: "n < 2 ^ k \<Longrightarrow> bit n i \<Longrightarrow> i < (k::nat)" for n :: nat
  by (metis bit_take_bit_iff take_bit_nat_eq_self)

lemma word_bit_less: "w < 2 ^ k \<Longrightarrow> bit w i \<Longrightarrow> i < k" for w :: "'a::len word"
  by (metis bit_take_bit_iff less_mask_eq take_bit_eq_mask)

lemma byte_flags [simp]:
  "((b :: byte) AND 0x80 = 0) = (\<not> bit b 7)" "(b AND 0x40 = 0) = (\<not> bit b 6)"
  "(b AND 0x20 = 0) = (\<not> bit b 5)" "(b AND 0x10 = 0) = (\<not> bit b 4)" "(b AND 0x08 = 0) = (\<not> bit b 3)"
  "(b AND 0x02 = 0) = (\<not> bit b 1)" "(b AND 0x01 = 0) = (\<not> bit b 0)"
  using and_exp_eq_0_iff_not_bit[of b 7] and_exp_eq_0_iff_not_bit[of b 6] and_exp_eq_0_iff_not_bit[of b 5]
    and_exp_eq_0_iff_not_bit[of b 4] and_exp_eq_0_iff_not_bit[of b 3] and_exp_eq_0_iff_not_bit[of b 1] and_exp_eq_0_iff_not_bit[of b 0]
  by simp_all

lemma byte_masks: "(0x03 :: byte) = mask 2" "(0x0F :: byte) = mask 4" "(0x1F :: byte) = mask 5" "(0x3F :: byte) = mask 6"
   "(0x07 :: byte) = mask 3" "(0x7F :: byte) = mask 7"
  by (simp_all add: mask_eq_exp_minus_1)

lemma i64_id [simp]: "- (2 ^ 63) \<le> x \<Longrightarrow> x < 2 ^ 63 \<Longrightarrow> i64 x = x"
  by (simp add: i64_def signed_take_bit_int_eq_self)

section \<open>Decimal numbers\<close>

text \<open>\<open>strconv.FormatInt(n, 10)\<close> and \<open>%d\<close> for a number that is not negative.\<close>

definition digit :: "nat \<Rightarrow> char" where
  "digit d = char_of (48 + d)"

fun FormatUint :: "nat \<Rightarrow> string" where
  "FormatUint n = (if n < 10 then [digit n] else FormatUint (n div 10) @ [digit (n mod 10)])"

declare FormatUint.simps [simp del]

definition digit_value :: "char \<Rightarrow> nat" where
  "digit_value c = of_char c - 48"

lemma digit_value_digit [simp]: "d < 10 \<Longrightarrow> digit_value (digit d) = d"
  by (simp add: digit_value_def digit_def)

fun read_decimal :: "nat \<Rightarrow> string \<Rightarrow> nat" where
  "read_decimal acc [] = acc"
| "read_decimal acc (c # cs) = read_decimal (10 * acc + digit_value c) cs"

lemma read_decimal_append: "read_decimal acc (xs @ ys) = read_decimal (read_decimal acc xs) ys"
  by (induction xs arbitrary: acc) simp_all

lemma read_FormatUint: "read_decimal 0 (FormatUint n) = n"
proof (induction n rule: less_induct)
  case (less n)
  then show ?case by (subst FormatUint.simps) (auto simp: read_decimal_append)
qed

lemma FormatUint_inj: "FormatUint m = FormatUint n \<longleftrightarrow> m = n"
  by (metis read_FormatUint)

end
