(* ===== verification/GoIO.thy ===== *)
theory GoIO
  imports Prelude
begin

text \<open>
  The interfaces of Go's \<open>io\<close> and \<open>bufio\<close> packages that every reader and writer of the
  repository is built on. A source is the bytes it will still deliver and how it ends; an
  output is the bytes it holds, the offset of the next write and a plan that says how each
  coming call ends, so a theorem over all plans covers every failure and every short write an
  \<open>io.Writer\<close> is allowed to have.
\<close>

section \<open>io.Reader\<close>

text \<open>
  \<open>st_end = None\<close>: after the last byte the source reports \<open>io.EOF\<close>; \<open>Some k\<close>: it fails with
  its own error \<open>k\<close>.
\<close>

record stream =
  st_data :: bytes
  st_end :: "nat option"

definition end_error :: "stream \<Rightarrow> 'e error" where
  "end_error s = (case st_end s of None \<Rightarrow> EOF | Some k \<Rightarrow> IOErr k)"

text \<open>
  \<open>io.ReadFull(r, buf)\<close> with \<open>len(buf) = n\<close>: a source that ends after some but not all of the
  bytes gives \<open>io.ErrUnexpectedEOF\<close>, one that ends before the first byte \<open>io.EOF\<close>.
\<close>

definition ReadFull :: "nat \<Rightarrow> stream \<Rightarrow> ('e error + bytes) \<times> stream" where
  "ReadFull n s =
     (if n \<le> length (st_data s)
      then (Inr (take n (st_data s)), s\<lparr>st_data := drop n (st_data s)\<rparr>)
      else (Inl (if st_data s \<noteq> [] \<and> st_end s = None then ErrUnexpectedEOF else end_error s),
            s\<lparr>st_data := []\<rparr>))"

section \<open>bufio.Reader\<close>

definition Peek :: "nat \<Rightarrow> stream \<Rightarrow> 'e error + bytes" where
  "Peek n s = (if n \<le> length (st_data s) then Inr (take n (st_data s)) else Inl (end_error s))"

definition ReadByte :: "stream \<Rightarrow> ('e error + byte) \<times> stream" where
  "ReadByte s = (case st_data s of
     [] \<Rightarrow> (Inl (end_error s), s)
   | b # r \<Rightarrow> (Inr b, s\<lparr>st_data := r\<rparr>))"

definition Discard :: "nat \<Rightarrow> stream \<Rightarrow> 'e error option \<times> stream" where
  "Discard n s =
     ((if n \<le> length (st_data s) then None else Some (end_error s)),
      s\<lparr>st_data := drop n (st_data s)\<rparr>)"

text \<open>
  \<open>ReadLine\<close>, without the returned line, which its one caller drops: it consumes up to and
  including the first newline, or a full buffer of 4096 bytes (a final carriage return stays
  unread), or what is left before the source ends.
\<close>

definition ReadLine :: "stream \<Rightarrow> 'e error option \<times> stream" where
  "ReadLine s =
     (let d = st_data s; line = takeWhile (\<lambda>b. b \<noteq> 10) d in
      if d = [] then (Some (end_error s), s)
      else if length line < 4096 then (None, s\<lparr>st_data := drop (Suc (length line)) d\<rparr>)
      else (None, s\<lparr>st_data := drop (if d ! 4095 = 13 then 4095 else 4096) d\<rparr>))"

section \<open>io.Writer, io.Seeker, io.WriterAt, io.Closer\<close>

text \<open>
  \<open>plan\<close> lists the outcomes of the coming calls: \<open>None\<close> succeeds, \<open>Some (n, k)\<close> takes the first
  \<open>n\<close> bytes and fails with error \<open>k\<close>; calls past the end of the plan succeed. \<open>can_seek\<close> and
  \<open>can_close\<close> say which further interfaces the value implements.
\<close>

record sink =
  content :: bytes
  pos :: nat
  plan :: "(nat \<times> nat) option list"
  can_seek :: bool
  can_close :: bool
  closed :: bool

definition overwrite :: "bytes \<Rightarrow> nat \<Rightarrow> bytes \<Rightarrow> bytes" where
  "overwrite c off p =
     (let c' = c @ replicate (off - length c) 0
      in take off c' @ p @ drop (off + length p) c')"

fun next_outcome :: "(nat \<times> nat) option list \<Rightarrow> (nat \<times> nat) option" where
  "next_outcome [] = None"
| "next_outcome (x # _) = x"

definition Write :: "bytes \<Rightarrow> sink \<Rightarrow> 'e error option \<times> sink" where
  "Write p w = (case next_outcome (plan w) of
     None \<Rightarrow> (None, w\<lparr>content := overwrite (content w) (pos w) p,
                      pos := pos w + length p, plan := tl (plan w)\<rparr>)
   | Some (n, k) \<Rightarrow> (let q = take n p in
       (Some (IOErr k), w\<lparr>content := overwrite (content w) (pos w) q,
                          pos := pos w + length q, plan := tl (plan w)\<rparr>)))"

definition WriteAt :: "bytes \<Rightarrow> nat \<Rightarrow> sink \<Rightarrow> 'e error option \<times> sink" where
  "WriteAt p off w = (case next_outcome (plan w) of
     None \<Rightarrow> (None, w\<lparr>content := overwrite (content w) off p, plan := tl (plan w)\<rparr>)
   | Some (n, k) \<Rightarrow>
       (Some (IOErr k), w\<lparr>content := overwrite (content w) off (take n p), plan := tl (plan w)\<rparr>))"

definition SeekStart :: "nat \<Rightarrow> sink \<Rightarrow> 'e error option \<times> sink" where
  "SeekStart off w = (case next_outcome (plan w) of
     None \<Rightarrow> (None, w\<lparr>pos := off, plan := tl (plan w)\<rparr>)
   | Some (_, k) \<Rightarrow> (Some (IOErr k), w\<lparr>plan := tl (plan w)\<rparr>))"

text \<open>\<open>Seek(0, io.SeekCurrent)\<close> reports the current offset.\<close>

definition SeekCurrent :: "sink \<Rightarrow> ('e error + nat) \<times> sink" where
  "SeekCurrent w = (case next_outcome (plan w) of
     None \<Rightarrow> (Inr (pos w), w\<lparr>plan := tl (plan w)\<rparr>)
   | Some (_, k) \<Rightarrow> (Inl (IOErr k), w\<lparr>plan := tl (plan w)\<rparr>))"

definition Close :: "sink \<Rightarrow> 'e error option \<times> sink" where
  "Close w = (case next_outcome (plan w) of
     None \<Rightarrow> (None, w\<lparr>closed := True, plan := tl (plan w)\<rparr>)
   | Some (_, k) \<Rightarrow> (Some (IOErr k), w\<lparr>closed := True, plan := tl (plan w)\<rparr>))"

text \<open>An output at the end of its content whose coming calls all succeed.\<close>

definition healthy :: "sink \<Rightarrow> bool" where
  "healthy w \<longleftrightarrow> pos w = length (content w) \<and> set (plan w) \<subseteq> {None}"

section \<open>Sequences of calls\<close>

text \<open>
  \<open>reads step s xs s'\<close>: the next \<open>length xs\<close> calls of \<open>step\<close> from \<open>s\<close> all succeed, return exactly
  \<open>xs\<close> and leave the state \<open>s'\<close>.
\<close>

fun reads :: "('s \<Rightarrow> ('e + 'a) \<times> 's) \<Rightarrow> 's \<Rightarrow> 'a list \<Rightarrow> 's \<Rightarrow> bool" where
  "reads step s [] s' = (s' = s)"
| "reads step s (x # xs) s' = (case step s of
     (Inr y, t) \<Rightarrow> y = x \<and> reads step t xs s'
   | (Inl _, _) \<Rightarrow> False)"

section \<open>Lemmas\<close>

named_theorems io_simps \<open>behaviour of the io calls on known data\<close>

lemma ReadFull_append [io_simps]:
  "st_data s = a @ r \<Longrightarrow> length a = n \<Longrightarrow> ReadFull n s = (Inr a, s\<lparr>st_data := r\<rparr>)"
  by (auto simp: ReadFull_def)

lemma ReadFull_0 [io_simps]: "ReadFull 0 s = (Inr [], s)"
  by (simp add: ReadFull_def)

lemma ReadFull_end [io_simps]:
  "st_data s = [] \<Longrightarrow> 0 < n \<Longrightarrow> ReadFull n s = (Inl (end_error s), s)"
  by (simp add: ReadFull_def)

lemma ReadFull_Inr_iff:
  "ReadFull n s = (Inr b, s') \<longleftrightarrow>
     length b = n \<and> st_data s = b @ st_data s' \<and> st_end s' = st_end s \<and> stream.more s' = stream.more s"
  by (cases s; cases s') (auto simp: ReadFull_def append_eq_conv_conj)

lemma ReadFull_total: "\<exists>r s'. ReadFull n s = (r, s')"
  by (cases "ReadFull n s") auto

lemma overwrite_end [io_simps]: "off = length c \<Longrightarrow> overwrite c off p = c @ p"
  by (simp add: overwrite_def)

lemma overwrite_inside [io_simps]:
  "off + length p \<le> length c \<Longrightarrow> overwrite c off p = take off c @ p @ drop (off + length p) c"
  by (simp add: overwrite_def)

lemma length_overwrite_inside [lens]:
  "off + length p \<le> length c \<Longrightarrow> length (overwrite c off p) = length c"
  by (simp add: overwrite_def)

lemma overwrite_middle [io_simps]:
  "length p = length q \<Longrightarrow> overwrite (a @ q @ b) (length a) p = a @ p @ b"
  by (simp add: overwrite_def)

lemma healthy_next [simp]: "healthy w \<Longrightarrow> next_outcome (plan w) = None"
  by (cases "plan w") (auto simp: healthy_def)

lemma healthy_plan_tl: "healthy w \<Longrightarrow> set (tl (plan w)) \<subseteq> {None}"
  by (cases "plan w") (auto simp: healthy_def)

lemma healthy_pos [simp]: "healthy w \<Longrightarrow> pos w = length (content w)"
  by (simp add: healthy_def)

lemma Write_healthy [io_simps]:
  "healthy w \<Longrightarrow> Write p w =
     (None, w\<lparr>content := content w @ p, pos := pos w + length p, plan := tl (plan w)\<rparr>)"
  by (simp add: Write_def overwrite_end)

lemma healthy_after_Write:
  "healthy w \<Longrightarrow>
     healthy (w\<lparr>content := content w @ p, pos := pos w + length p, plan := tl (plan w)\<rparr>)"
  using healthy_plan_tl[of w] by (simp add: healthy_def)

lemma reads_append:
  "reads step s xs t \<Longrightarrow> reads step t ys u \<Longrightarrow> reads step s (xs @ ys) u"
  by (induction xs arbitrary: s) (auto split: prod.splits sum.splits)

section \<open>Framed streams\<close>

text \<open>
  The contract between a container writer and the matching reader: each item has an encoding,
  and a reader positioned at the encoding of an item returns it and moves past exactly its
  bytes. \<open>with_data\<close> positions a reader at given input; \<open>after x s\<close> is the reader's other state
  once \<open>x\<close> has been returned. Everything a client wants to know about a whole file follows.
\<close>

locale framed_stream =
  fixes enc :: "'a \<Rightarrow> bytes"
    and valid :: "'s \<Rightarrow> 'a \<Rightarrow> bool"
    and step :: "'s \<Rightarrow> ('e error + 'b) \<times> 's"
    and out :: "'s \<Rightarrow> 'a \<Rightarrow> 'b"
    and with_data :: "bytes \<Rightarrow> 's \<Rightarrow> 's"
    and after :: "'a \<Rightarrow> 's \<Rightarrow> 's"
  assumes step_enc: "valid s x \<Longrightarrow> step (with_data (enc x @ r) s) = (Inr (out s x), with_data r (after x s))"
    and out_after: "out (after x s) y = out s y"
    and valid_after: "valid (after x s) y = valid s y"
begin

lemma reads_all:
  "list_all (valid s) xs \<Longrightarrow>
     reads step (with_data (concat (map enc xs) @ r) s) (map (out s) xs) (with_data r (fold after xs s))"
proof (induction xs arbitrary: s)
  case Nil
  then show ?case by simp
next
  case (Cons x xs)
  have "step (with_data (enc x @ concat (map enc xs) @ r) s) =
      (Inr (out s x), with_data (concat (map enc xs) @ r) (after x s))"
    using Cons.prems by (intro step_enc) simp
  with Cons.IH[of "after x s"] Cons.prems show ?case by (simp add: out_after valid_after)
qed

lemma out_fold: "out (fold after xs s) y = out s y" "valid (fold after xs s) y = valid s y"
  by (induction xs arbitrary: s) (simp_all add: out_after valid_after)

end

end
