(* ===== verification/Checksum.thy ===== *)
theory Checksum
  imports GoIO
begin

text \<open>
  The CRC-32 of the repository: the table of \<open>mpegts/crc32.go\<close> with its checksum function, and
  the same table as \<open>oggreader\<close> and \<open>oggwriter\<close> build it. A locale states what a table has to
  satisfy; in it the table-driven update is shown to be the bit-serial shift register of the
  standard, and the checksum to detect every change confined to four consecutive bytes.
\<close>

section \<open>The program\<close>

definition crc_poly :: u32 where
  "crc_poly = 0x04C11DB7"

text \<open>The body of the inner loop, \<open>for range 8\<close>.\<close>

definition crc_shift :: "u32 \<Rightarrow> u32" where
  "crc_shift crc =
     (if crc AND 0x80000000 \<noteq> 0 then push_bit 1 crc XOR crc_poly else push_bit 1 crc)"

definition crc32Table :: "u32 list" where
  "crc32Table = map (\<lambda>i. (crc_shift ^^ 8) (push_bit 24 (of_nat i))) [0..<256]"

definition crc_update :: "u32 list \<Rightarrow> u32 \<Rightarrow> byte \<Rightarrow> u32" where
  "crc_update table crc b = push_bit 8 crc XOR table ! unat (to8 (drop_bit 24 crc) XOR b)"

definition crc32MPEG :: "bytes \<Rightarrow> u32" where
  "crc32MPEG data = foldl (crc_update crc32Table) 0xFFFFFFFF data"

text \<open>\<open>generateChecksumTable\<close> of the Ogg packages masks each entry to 32 bits.\<close>

definition generateChecksumTable :: "u32 list" where
  "generateChecksumTable =
     map (\<lambda>i. (crc_shift ^^ 8) (push_bit 24 (of_nat i)) AND 0xffffffff) [0..<256]"

section \<open>The reference: a bit-serial shift register\<close>

text \<open>One message bit enters at the top of the register.\<close>

definition serial_bit :: "u32 \<Rightarrow> bool \<Rightarrow> u32" where
  "serial_bit c m = (if bit c 31 \<noteq> m then push_bit 1 c XOR crc_poly else push_bit 1 c)"

definition byte_bits :: "byte \<Rightarrow> bool list" where
  "byte_bits b = map (bit b) [7, 6, 5, 4, 3, 2, 1, 0]"

definition serial_crc :: "u32 \<Rightarrow> bytes \<Rightarrow> u32" where
  "serial_crc c data = foldl serial_bit c (concat (map byte_bits data))"

section \<open>The shift register is linear and invertible\<close>

lemma and_top_bit: "(c AND 0x80000000 \<noteq> 0) = bit (c :: u32) 31"
proof -
  have "(0x80000000 :: u32) = push_bit 31 1" by simp
  then show ?thesis
    by (metis and_exp_eq_0_iff_not_bit push_bit_of_1)
qed

lemma crc_shift_alt: "crc_shift c = (if bit c 31 then push_bit 1 c XOR crc_poly else push_bit 1 c)"
  by (simp add: crc_shift_def and_top_bit)

lemma push_bit_xor': "push_bit n (a XOR b) = push_bit n a XOR push_bit n (b :: 'a::len word)"
  by (rule bit_word_eqI) (auto simp: bit_simps)

lemma xor_left_cancel: "a XOR (a XOR b) = (b :: 'a::len word)"
  by (rule bit_word_eqI) (auto simp: bit_simps)

lemma crc_shift_xor: "crc_shift (a XOR b) = crc_shift a XOR crc_shift b"
  by (rule bit_word_eqI) (auto simp: crc_shift_alt bit_simps simp del: push_bit_Suc)

lemma crc_shift_funpow_xor: "(crc_shift ^^ n) (a XOR b) = (crc_shift ^^ n) a XOR (crc_shift ^^ n) b"
  by (induction n) (simp_all add: crc_shift_xor)

lemma crc_shift_0 [simp]: "crc_shift 0 = 0"
  by (simp add: crc_shift_def)

lemma crc_shift_funpow_0 [simp]: "(crc_shift ^^ n) 0 = 0"
  by (induction n) simp_all

lemma crc_shift_eq_0: "crc_shift c = 0 \<Longrightarrow> c = 0"
proof (rule bit_word_eqI)
  fix n assume z: "crc_shift c = 0" and n: "n < LENGTH(32)"
  have top: "\<not> bit c 31"
  proof
    assume "bit c 31"
    then have "bit (crc_shift c) 0" by (simp add: crc_shift_alt bit_simps crc_poly_def del: push_bit_Suc)
    with z show False by simp
  qed
  then have "push_bit 1 c = 0" using z by (simp add: crc_shift_alt)
  then have "\<not> bit (push_bit 1 c) (Suc n)" by simp
  then show "bit c n = bit 0 n" using top n
    by (cases "n = 31") (auto simp: bit_simps simp del: push_bit_Suc)
qed

lemma xor_eq_0: "(a XOR b = 0) = (a = (b :: 'a::len word))"
  by (metis xor.right_neutral xor_left_cancel xor_self_eq)

lemma inj_crc_shift: "crc_shift a = crc_shift b \<Longrightarrow> a = b"
  using crc_shift_eq_0[of "a XOR b"] by (simp add: crc_shift_xor xor_eq_0)

lemma inj_crc_shift_funpow: "(crc_shift ^^ n) a = (crc_shift ^^ n) b \<Longrightarrow> a = b"
  by (induction n) (auto dest: inj_crc_shift)

lemma crc_shift_low: "(\<forall>i \<ge> 32 - n. \<not> bit c i) \<Longrightarrow> n \<le> 32 \<Longrightarrow> (crc_shift ^^ n) c = push_bit n c"
proof (induction n)
  case 0
  then show ?case by simp
next
  case (Suc n)
  have "(crc_shift ^^ n) c = push_bit n c" using Suc by simp
  moreover have "\<not> bit (push_bit n c) 31" using Suc.prems by (simp add: bit_simps)
  ultimately have "crc_shift ((crc_shift ^^ n) c) = push_bit 1 (push_bit n c)"
    by (simp add: crc_shift_alt del: push_bit_Suc)
  then show ?case by (simp add: push_bit_push_bit del: push_bit_Suc)
qed

text \<open>
  Shifting message bits in one by one is XORing all of them into the top of the register and
  shifting once per bit, as long as there are at most 32.
\<close>

fun bits_top :: "bool list \<Rightarrow> u32" where
  "bits_top [] = 0"
| "bits_top (m # ms) = (if m then 0x80000000 else 0) XOR drop_bit 1 (bits_top ms)"

definition byte_top :: "byte \<Rightarrow> u32" where
  "byte_top b = push_bit 24 (to32 b)"

lemma top_bit_word: "(0x80000000 :: u32) = push_bit 31 1"
  by simp

lemma serial_bit_shift: "serial_bit c m = crc_shift (c XOR (if m then 0x80000000 else 0))"
  unfolding top_bit_word
  by (rule bit_word_eqI) (auto simp: serial_bit_def crc_shift_alt bit_simps simp del: push_bit_Suc push_bit_of_1)

lemma bit_bits_top: "bit (bits_top ms) i = (i < 32 \<and> 31 - i < length ms \<and> ms ! (31 - i))"
proof (induction ms arbitrary: i)
  case Nil
  then show ?case by simp
next
  case (Cons m ms)
  show ?case
  proof (cases "i < 31")
    case True
    then have "31 - i = Suc (31 - Suc i)" by simp
    then show ?thesis using True unfolding bits_top.simps top_bit_word
      by (simp add: bit_simps Cons.IH del: push_bit_of_1)
  next
    case False
    then show ?thesis unfolding bits_top.simps top_bit_word
      by (cases "i = 31") (auto simp: bit_simps simp del: push_bit_of_1)
  qed
qed

lemma crc_shift_drop_bit: "\<not> bit w 0 \<Longrightarrow> crc_shift (drop_bit 1 w) = w"
proof (rule bit_word_eqI)
  fix n assume w: "\<not> bit w 0" and n: "n < LENGTH(32)"
  show "bit (crc_shift (drop_bit 1 w)) n = bit w n"
    using w n by (cases n) (auto simp: crc_shift_alt bit_simps simp del: push_bit_Suc)
qed

lemma serial_bits: "length ms \<le> 32 \<Longrightarrow> foldl serial_bit c ms = (crc_shift ^^ length ms) (c XOR bits_top ms)"
proof (induction ms arbitrary: c)
  case Nil
  then show ?case by simp
next
  case (Cons m ms)
  let ?t = "if m then 0x80000000 else 0 :: u32"
  have "\<not> bit (bits_top ms) 0" using Cons.prems by (simp add: bit_bits_top)
  then have w: "bits_top ms = crc_shift (drop_bit 1 (bits_top ms))" using crc_shift_drop_bit by metis
  have "foldl serial_bit c (m # ms) = (crc_shift ^^ length ms) (crc_shift (c XOR ?t) XOR bits_top ms)"
    using Cons.IH[of "serial_bit c m"] Cons.prems serial_bit_shift[of c m] by simp
  also have "crc_shift (c XOR ?t) XOR bits_top ms = crc_shift (c XOR bits_top (m # ms))"
    by (subst w) (simp add: crc_shift_xor xor.assoc)
  finally show ?case by (simp add: funpow_swap1)
qed

lemma length_byte_bits [lens, simp]: "length (byte_bits b) = 8"
  by (simp add: byte_bits_def)

lemma nth_byte_bits: "k < 8 \<Longrightarrow> byte_bits b ! k = bit b (7 - k)"
  by (simp add: byte_bits_def less_Suc_eq numeral_eq_Suc) (elim disjE; simp)

lemma bits_top_byte: "bits_top (byte_bits b) = byte_top b"
proof (rule bit_word_eqI)
  fix n assume "n < LENGTH(32)"
  then show "bit (bits_top (byte_bits b)) n = bit (byte_top b) n"
    by (cases "24 \<le> n") (auto simp: bit_bits_top byte_top_def nth_byte_bits bit_simps)
qed

lemma serial_crc_Nil [simp]: "serial_crc c [] = c"
  by (simp add: serial_crc_def)

lemma serial_crc_Cons: "serial_crc c (b # bs) = serial_crc ((crc_shift ^^ 8) (c XOR byte_top b)) bs"
  using serial_bits[of "byte_bits b" c] by (simp add: serial_crc_def bits_top_byte)

lemma serial_crc_append: "serial_crc c (xs @ ys) = serial_crc (serial_crc c xs) ys"
  by (simp add: serial_crc_def)

text \<open>Up to four bytes: the register sees them as one word, so it tells them apart.\<close>

lemma length_bits [lens, simp]: "length (concat (map byte_bits x)) = 8 * length x"
  by (induction x) simp_all

lemma serial_crc_short:
  "length x \<le> 4 \<Longrightarrow>
     serial_crc c x = (crc_shift ^^ (8 * length x)) (c XOR bits_top (concat (map byte_bits x)))"
  unfolding serial_crc_def using serial_bits[of "concat (map byte_bits x)" c] by simp

lemma bits_top_inj:
  assumes "bits_top xs = bits_top ys" "length xs = length ys" "length xs \<le> 32"
  shows "xs = ys"
proof (rule nth_equalityI)
  show "length xs = length ys" by fact
  fix i assume "i < length xs"
  then have "xs ! i = bit (bits_top xs) (31 - i)" "ys ! i = bit (bits_top ys) (31 - i)"
    using assms(2,3) by (auto simp: bit_bits_top less_imp_diff_less)
  then show "xs ! i = ys ! i" using assms(1) by simp
qed

lemma byte_bits_inj: "byte_bits a = byte_bits b \<Longrightarrow> a = b"
proof (rule bit_word_eqI)
  fix n assume eq: "byte_bits a = byte_bits b" and "n < LENGTH(8)"
  then show "bit a n = bit b n"
    using nth_byte_bits[of "7 - n" a] nth_byte_bits[of "7 - n" b] by simp
qed

lemma concat_byte_bits_inj:
  "length x = length y \<Longrightarrow> concat (map byte_bits x) = concat (map byte_bits y) \<Longrightarrow> x = y"
  by (induction x y rule: list_induct2) (auto dest: byte_bits_inj)

lemma serial_crc_short_inj:
  assumes "length x = length y" "length x \<le> 4" "serial_crc c x = serial_crc c y"
  shows "x = y"
proof -
  have "c XOR bits_top (concat (map byte_bits x)) = c XOR bits_top (concat (map byte_bits y))"
    using assms by (auto simp: serial_crc_short dest: inj_crc_shift_funpow)
  then have "bits_top (concat (map byte_bits x)) = bits_top (concat (map byte_bits y))"
    by (metis xor_left_cancel)
  then have "concat (map byte_bits x) = concat (map byte_bits y)"
    using assms by (intro bits_top_inj) simp_all
  with assms(1) show ?thesis by (rule concat_byte_bits_inj)
qed

text \<open>Feeding the register its own value, high byte first, clears it.\<close>

lemma bits_top_be32: "bits_top (concat (map byte_bits (be32 c))) = c"
proof (rule bit_word_eqI)
  fix n assume "n < LENGTH(32)"
  then have n: "n < 32" by simp
  show "bit (bits_top (concat (map byte_bits (be32 c)))) n = bit c n"
    using bit_pos_cases(1,2)[of n] n
    by (auto simp: bit_bits_top be32_def nth_append nth_byte_bits bit_simps)
qed

lemma serial_crc_self: "serial_crc c (be32 c) = 0"
  by (simp add: serial_crc_short bits_top_be32)

section \<open>What a checksum table has to be\<close>

text \<open>
  The clients (the PSI section codec and the Ogg page codec) only rely on this: the table maps
  a byte to the register after eight shifts of that byte placed at the top.
\<close>

locale crc_table =
  fixes table :: "u32 list"
  assumes table_nth: "i < 256 \<Longrightarrow> table ! i = (crc_shift ^^ 8) (push_bit 24 (of_nat i))"
begin

lemma table_byte: "table ! unat b = (crc_shift ^^ 8) (byte_top b)"
proof -
  have "unat b < 256" by simp
  moreover have "(of_nat (unat b) :: u32) = to32 b" by (simp add: unsigned_of_nat)
  ultimately show ?thesis by (simp add: table_nth byte_top_def)
qed

text \<open>One table-driven update is eight steps of the shift register.\<close>

lemma update_eq: "crc_update table c b = (crc_shift ^^ 8) (c XOR byte_top b)"
proof -
  let ?t = "to8 (drop_bit 24 c)"
  have split: "c XOR byte_top b = byte_top (?t XOR b) XOR (c AND 0x00FFFFFF)"
  proof (rule bit_word_eqI)
    fix n assume "n < LENGTH(32)"
    have m: "(0x00FFFFFF :: u32) = mask 24" by (simp add: mask_eq_exp_minus_1)
    show "bit (c XOR byte_top b) n = bit (byte_top (?t XOR b) XOR (c AND 0x00FFFFFF)) n"
      unfolding m byte_top_def using \<open>n < LENGTH(32)\<close> by (cases "24 \<le> n") (auto simp: bit_simps)
  qed
  have low: "(crc_shift ^^ 8) (c AND 0x00FFFFFF) = push_bit 8 c"
  proof -
    have m: "(0x00FFFFFF :: u32) = mask 24" by (simp add: mask_eq_exp_minus_1)
    have "(crc_shift ^^ 8) (c AND mask 24) = push_bit 8 (c AND mask 24)"
      by (rule crc_shift_low) (auto simp: bit_simps)
    also have "\<dots> = push_bit 8 c" by (rule bit_word_eqI) (auto simp: bit_simps)
    finally show ?thesis unfolding m .
  qed
  show ?thesis
    unfolding split crc_shift_funpow_xor low crc_update_def table_byte by (rule xor.commute)
qed

lemma table_driven_is_serial: "foldl (crc_update table) c data = serial_crc c data"
  by (induction data arbitrary: c) (simp_all add: serial_crc_Cons update_eq)

text \<open>Different registers stay different, so a difference is never lost in what follows it.\<close>

lemma crc_keeps_difference: "foldl (crc_update table) c data = foldl (crc_update table) d data \<Longrightarrow> c = d"
proof (induction data arbitrary: c d)
  case (Cons b data)
  then have "(crc_shift ^^ 8) (c XOR byte_top b) = (crc_shift ^^ 8) (d XOR byte_top b)"
    by (simp add: update_eq)
  then have "c XOR byte_top b = d XOR byte_top b" by (rule inj_crc_shift_funpow)
  then show ?case by (metis xor.commute xor_left_cancel)
qed simp

text \<open>A change confined to at most four consecutive bytes always changes the checksum.\<close>

lemma detects_burst:
  assumes "length x = length y" "length x \<le> 4" "x \<noteq> y"
  shows "foldl (crc_update table) c (a @ x @ z) \<noteq> foldl (crc_update table) c (a @ y @ z)"
proof
  assume "foldl (crc_update table) c (a @ x @ z) = foldl (crc_update table) c (a @ y @ z)"
  then have "foldl (crc_update table) (foldl (crc_update table) c a) x
      = foldl (crc_update table) (foldl (crc_update table) c a) y"
    by (auto dest: crc_keeps_difference)
  then have "x = y" using assms(1,2) unfolding table_driven_is_serial by (rule serial_crc_short_inj[rotated 2])
  with assms(3) show False ..
qed

lemma residue: "foldl (crc_update table) c (d @ be32 (foldl (crc_update table) c d)) = 0"
  by (simp only: foldl_append table_driven_is_serial serial_crc_self)

end

interpretation mpegts_crc: crc_table crc32Table
  by unfold_locales (simp add: crc32Table_def)

lemma and_all_ones: "x AND 0xffffffff = (x :: u32)"
proof -
  have m: "(0xffffffff :: u32) = -1" by simp
  show ?thesis unfolding m by (rule and.right_neutral)
qed

interpretation ogg_crc: crc_table generateChecksumTable
  by unfold_locales (simp add: generateChecksumTable_def and_all_ones)

text \<open>
  C32: The table-driven checksum of \<open>mpegts/crc32.go\<close> is the CRC of the standard: the polynomial \<open>0x04C11DB7\<close>
  divided bit by bit, most significant bit first, from the initial value \<open>0xFFFFFFFF\<close>.
\<close>

theorem crc32MPEG_serial: "crc32MPEG data = serial_crc 0xFFFFFFFF data"
  by (simp add: crc32MPEG_def mpegts_crc.table_driven_is_serial)

end
