(* ===== verification/TsPsi.thy ===== *)
theory TsPsi
  imports Checksum
begin

text \<open>
  The program-specific information of a transport stream: the section envelope of
  \<open>mpegts/psi.go\<close> with its assembler, the program association table of \<open>mpegts/pat.go\<close>, the
  program map table of \<open>mpegts/pmt.go\<close>, and the codec numbers of \<open>mpegts/track.go\<close>.
\<close>

section \<open>Errors of the package\<close>

text \<open>The sentinel errors of all files of \<open>mpegts/\<close>, file by file: \<open>psi.go\<close>, \<open>pat.go\<close>, \<open>pmt.go\<close>, \<open>packet.go\<close>, \<open>adaptation.go\<close>, \<open>pes.go\<close>, \<open>reader.go\<close>, \<open>writer.go\<close>.\<close>

datatype mpegts_error =
    errSectionTruncated | errSectionCRC | errSectionMultipart | errSectionTooLong
  | errNotPAT | errNotPMT | errPMTTruncated
  | errShortPacket | errInvalidSyncByte | errInvalidAFC
  | errAdaptationTruncated | errAdaptationTooLong
  | errPESTruncated | errPESStartCode | errPESMarkerBits
  | errNoUsableProgram | errInvalidMaxAUSize
  | errNoTracks | errPIDInUse | errInvalidPID | errUnknownPID | errCodecMismatch
  | errEmptyAccessUnit | errPSITooLarge

type_synonym ts_error = "mpegts_error error"

section \<open>Sections\<close>

record psiSection =
  tableID :: u8
  tableIDExtension :: u16
  sec_version :: u8
  sec_data :: bytes

text \<open>A 12-bit length in the low nibble of one byte and the whole of the next.\<close>

definition length12 :: "byte \<Rightarrow> byte \<Rightarrow> nat" where
  "length12 a b = push_bit 8 (unat (a AND 0x0F)) OR unat b"

definition pid13 :: "byte \<Rightarrow> byte \<Rightarrow> u16" where
  "pid13 a b = push_bit 8 (to16 (a AND 0x1F)) OR to16 b"

definition parseSectionBytes :: "bytes \<Rightarrow> ts_error + psiSection" where
  "parseSectionBytes buf =
     (if length buf < 8 then Inl (Err errSectionTruncated)
      else let len = length12 (buf ! 1) (buf ! 2) in
      if len < 9 \<or> 3 + len > length buf then Inl (Err errSectionTruncated)
      else if buf ! 6 \<noteq> 0 \<or> buf ! 7 \<noteq> 0 then Inl (Err errSectionMultipart)
      else let e = 3 + len; body = slice 0 (e - 4) buf; crcBytes = slice (e - 4) e buf;
               want = push_bit 24 (to32 (crcBytes ! 0)) OR push_bit 16 (to32 (crcBytes ! 1))
                 OR push_bit 8 (to32 (crcBytes ! 2)) OR to32 (crcBytes ! 3) in
      if crc32MPEG body \<noteq> want then Inl (Err errSectionCRC)
      else Inr \<lparr>tableID = buf ! 0,
                tableIDExtension = push_bit 8 (to16 (buf ! 3)) OR to16 (buf ! 4),
                sec_version = drop_bit 1 (buf ! 5) AND 0x1F,
                sec_data = slice 8 (e - 4) buf\<rparr>)"

definition parsePSISection :: "bytes \<Rightarrow> ts_error + psiSection" where
  "parsePSISection payload =
     (if length payload < 1 then Inl (Err errSectionTruncated)
      else let skip = 1 + unat (payload ! 0) in
      if length payload < skip then Inl (Err errSectionTruncated)
      else parseSectionBytes (drop skip payload))"

definition marshal_section :: "psiSection \<Rightarrow> ts_error + bytes" where
  "marshal_section s =
     (let len = 5 + length (sec_data s) + 4 in
      if len > 0x3FD then Inl (Err errSectionTooLong)
      else let
        out = [0x00, tableID s, 0xB0 OR of_nat (drop_bit 8 len), of_nat len,
               to8 (drop_bit 8 (tableIDExtension s)), to8 (tableIDExtension s),
               0xC1 OR push_bit 1 (sec_version s), 0x00, 0x00] @ sec_data s;
        crc = crc32MPEG (drop 1 out) in
      Inr (out @ [to8 (drop_bit 24 crc), to8 (drop_bit 16 crc), to8 (drop_bit 8 crc), to8 crc]))"

section \<open>The section assembler\<close>

record sectionAssembler =
  asm_buf :: bytes
  asm_active :: bool

definition new_assembler :: sectionAssembler where
  "new_assembler = \<lparr>asm_buf = [], asm_active = False\<rparr>"

text \<open>
  The outer \<open>None\<close> is the run-time panic of indexing an empty payload; the inner option is the
  completed section, \<open>None\<close> for Go's nil while it is incomplete.
\<close>

definition feed_check :: "sectionAssembler \<Rightarrow> bytes option \<times> sectionAssembler" where
  "feed_check a =
     (if length (asm_buf a) < 3 then (None, a)
      else let total = 3 + length12 (asm_buf a ! 1) (asm_buf a ! 2) in
      if length (asm_buf a) < total then (None, a)
      else (Some (take total (asm_buf a)), a\<lparr>asm_active := False\<rparr>))"

definition feed :: "bool \<Rightarrow> bytes \<Rightarrow> sectionAssembler \<Rightarrow> (bytes option \<times> sectionAssembler) option" where
  "feed unitStart payload a =
     (if unitStart then
        (case payload of
           [] \<Rightarrow> None
         | p0 # _ \<Rightarrow>
             let a1 = a\<lparr>asm_active := False\<rparr>; skip = 1 + unat p0 in
             if skip > length payload then Some (None, a1)
             else Some (feed_check (a1\<lparr>asm_buf := drop skip payload, asm_active := True\<rparr>)))
      else if \<not> asm_active a then Some (None, a)
      else Some (feed_check (a\<lparr>asm_buf := asm_buf a @ payload\<rparr>)))"

section \<open>Program association table\<close>

definition tableIDPAT :: u8 where "tableIDPAT = 0x00"

record patProgram =
  programNumber :: u16
  pmtPID :: u16

fun parsePAT_entries :: "bytes \<Rightarrow> patProgram list" where
  "parsePAT_entries (a # b # c # d # rest) =
     (let num = push_bit 8 (to16 a) OR to16 b; pid = pid13 c d in
      if num = 0 then parsePAT_entries rest
      else \<lparr>programNumber = num, pmtPID = pid\<rparr> # parsePAT_entries rest)"
| "parsePAT_entries _ = []"

definition parsePAT :: "psiSection \<Rightarrow> ts_error + patProgram list" where
  "parsePAT sec =
     (if tableID sec \<noteq> tableIDPAT then Inl (Err errNotPAT) else Inr (parsePAT_entries (sec_data sec)))"

definition marshal_program :: "patProgram \<Rightarrow> bytes" where
  "marshal_program p =
     [to8 (drop_bit 8 (programNumber p)), to8 (programNumber p),
      0xE0 OR to8 (drop_bit 8 (pmtPID p)), to8 (pmtPID p)]"

definition marshalPAT :: "u16 \<Rightarrow> patProgram list \<Rightarrow> ts_error + bytes" where
  "marshalPAT transportStreamID programs =
     marshal_section \<lparr>tableID = tableIDPAT, tableIDExtension = transportStreamID, sec_version = 0,
       sec_data = concat (map marshal_program programs)\<rparr>"

section \<open>Program map table\<close>

definition tableIDPMT :: u8 where "tableIDPMT = 0x02"

record pmtStream =
  streamType :: u8
  stream_pid :: u16

record pmt =
  pcrPID :: u16
  pmt_streams :: "pmtStream list"

text \<open>The loop over the elementary streams, after the program descriptors.\<close>

function parsePMT_streams :: "bytes \<Rightarrow> ts_error + pmtStream list" where
  "parsePMT_streams buf =
     (if buf = [] then Inr []
      else if length buf < 5 then Inl (Err errPMTTruncated)
      else let esInfoLen = length12 (buf ! 3) (buf ! 4) in
      if length buf < 5 + esInfoLen then Inl (Err errPMTTruncated)
      else case parsePMT_streams (drop (5 + esInfoLen) buf) of
             Inl e \<Rightarrow> Inl e
           | Inr rest \<Rightarrow> Inr (\<lparr>streamType = buf ! 0, stream_pid = pid13 (buf ! 1) (buf ! 2)\<rparr> # rest))"
  by pat_completeness auto
termination
  by (relation "measure length") auto

declare parsePMT_streams.simps [simp del]

definition parsePMT :: "psiSection \<Rightarrow> ts_error + pmt" where
  "parsePMT sec =
     (if tableID sec \<noteq> tableIDPMT then Inl (Err errNotPMT)
      else let buf = sec_data sec in
      if length buf < 4 then Inl (Err errPMTTruncated)
      else let infoLen = length12 (buf ! 2) (buf ! 3) in
      if length buf < 4 + infoLen then Inl (Err errPMTTruncated)
      else case parsePMT_streams (drop (4 + infoLen) buf) of
             Inl e \<Rightarrow> Inl e
           | Inr ss \<Rightarrow> Inr \<lparr>pcrPID = pid13 (buf ! 0) (buf ! 1), pmt_streams = ss\<rparr>)"

definition marshal_stream :: "pmtStream \<Rightarrow> bytes" where
  "marshal_stream s =
     [streamType s, 0xE0 OR to8 (drop_bit 8 (stream_pid s)), to8 (stream_pid s), 0xF0, 0x00]"

definition marshalPMT :: "u16 \<Rightarrow> pmt \<Rightarrow> ts_error + bytes" where
  "marshalPMT prog table =
     marshal_section \<lparr>tableID = tableIDPMT, tableIDExtension = prog, sec_version = 0,
       sec_data = [0xE0 OR to8 (drop_bit 8 (pcrPID table)), to8 (pcrPID table), 0xF0, 0x00]
         @ concat (map marshal_stream (pmt_streams table))\<rparr>"

section \<open>Codecs\<close>

datatype codec = CodecUnknown | CodecH264 | CodecH265

definition codec_String :: "codec \<Rightarrow> string" where
  "codec_String c = (case c of CodecH264 \<Rightarrow> ''H264'' | CodecH265 \<Rightarrow> ''H265'' | _ \<Rightarrow> ''unknown'')"

record track =
  track_PID :: u16
  track_Codec :: codec

definition codecFromStreamType :: "u8 \<Rightarrow> codec" where
  "codecFromStreamType st =
     (if st = 0x1B then CodecH264 else if st = 0x24 then CodecH265 else CodecUnknown)"

definition streamTypeFromCodec :: "codec \<Rightarrow> u8" where
  "streamTypeFromCodec c = (case c of CodecH264 \<Rightarrow> 0x1B | CodecH265 \<Rightarrow> 0x24 | _ \<Rightarrow> 0)"

section \<open>Bit fields survive encoding\<close>

lemma length12_enc:
  assumes "n < 4096" "c AND 0x0F = 0" shows "length12 (c OR of_nat (drop_bit 8 n)) (of_nat n) = n"
proof -
  have m: "(0x0F :: byte) = mask 4" by (simp add: mask_eq_exp_minus_1)
  have b: "bit n i \<Longrightarrow> i < 12" for i using bit_nat_less[of n 12 i] assms by simp
  have "push_bit 8 (unat (of_nat (drop_bit 8 n) AND mask 4 :: byte)) OR unat (of_nat n :: byte) = n"
  proof (rule bit_eqI)
    fix i show "bit (push_bit 8 (unat (of_nat (drop_bit 8 n) AND mask 4 :: byte)) OR unat (of_nat n :: byte)) i = bit n i"
      using b[of i] by (cases "i < 8") (auto simp: bit_simps)
  qed
  then show ?thesis using assms(2) by (simp add: length12_def or_and_disjoint m)
qed

lemma pid13_enc:
  assumes "p < 0x2000" shows "pid13 (0xE0 OR to8 (drop_bit 8 p)) (to8 p) = p"
proof -
  have m: "(0x1F :: byte) = mask 5" by (simp add: mask_eq_exp_minus_1)
  have b: "bit p i \<Longrightarrow> i < 13" for i using word_bit_less[of p 13 i] assms by simp
  have d: "(0xE0 :: byte) AND mask 5 = 0" by (simp flip: m)
  have "push_bit 8 (to16 (to8 (drop_bit 8 p) AND mask 5)) OR to16 (to8 p) = p"
  proof (rule bit_word_eqI)
    fix i show "bit (push_bit 8 (to16 (to8 (drop_bit 8 p) AND mask 5)) OR to16 (to8 p)) i = bit p i"
      using b[of i] by (cases "i < 8") (auto simp: bit_simps)
  qed
  then show ?thesis by (simp add: pid13_def m or_and_disjoint d)
qed

lemma version_enc: "drop_bit 1 (0xC1 OR push_bit 1 v) AND 0x1F = v AND (0x1F :: byte)"
proof -
  have m: "(0x1F :: byte) = mask 5" by (simp add: mask_eq_exp_minus_1)
  have c: "drop_bit 1 (0xC1 :: byte) AND mask 5 = 0" by (simp flip: m)
  have "drop_bit 1 (0xC1 OR push_bit 1 v) AND mask 5 = drop_bit 1 (push_bit 1 v) AND mask 5"
    by (simp only: drop_bit_or or_and_disjoint[OF c])
  also have "\<dots> = v AND mask 5"
    by (rule bit_word_eqI) (auto simp: bit_simps simp del: push_bit_Suc)
  finally show ?thesis by (simp only: m)
qed

section \<open>A marshalled section parses back\<close>

text \<open>The bytes of a section from \<open>table_id\<close> to the checksum, without the pointer field.\<close>

definition section_bytes :: "psiSection \<Rightarrow> bytes" where
  "section_bytes s =
     (let len = 9 + length (sec_data s);
          body = [tableID s, 0xB0 OR of_nat (drop_bit 8 len), of_nat len,
               to8 (drop_bit 8 (tableIDExtension s)), to8 (tableIDExtension s),
               0xC1 OR push_bit 1 (sec_version s), 0x00, 0x00] @ sec_data s
      in body @ be32 (crc32MPEG body))"

lemma marshal_section_eq:
  "marshal_section s = (if length (sec_data s) > 1012 then Inl (Err errSectionTooLong)
     else Inr (0 # section_bytes s))"
  by (simp add: marshal_section_def section_bytes_def Let_def be32_def add.commute)

lemma length_section_bytes: "length (section_bytes s) = 12 + length (sec_data s)"
  by (simp add: section_bytes_def Let_def)

lemma parse_section_bytes:
  assumes "length (sec_data s) \<le> 1012"
  shows "parseSectionBytes (section_bytes s @ pad) = Inr (s\<lparr>sec_version := sec_version s AND 0x1F\<rparr>)"
proof -
  let ?len = "9 + length (sec_data s)"
  define hdr where "hdr = [tableID s, 0xB0 OR of_nat (drop_bit 8 ?len), of_nat ?len,
               to8 (drop_bit 8 (tableIDExtension s)), to8 (tableIDExtension s),
               0xC1 OR push_bit 1 (sec_version s), 0x00, 0x00]"
  define body where "body = hdr @ sec_data s"
  have sb: "section_bytes s @ pad = body @ be32 (crc32MPEG body) @ pad"
    by (simp add: section_bytes_def body_def hdr_def Let_def)
  have lb: "length body = 8 + length (sec_data s)" by (simp add: body_def hdr_def)
  have nths: "(body @ r) ! 0 = tableID s" "(body @ r) ! 1 = 0xB0 OR of_nat (drop_bit 8 ?len)"
    "(body @ r) ! 2 = of_nat ?len" "(body @ r) ! 3 = to8 (drop_bit 8 (tableIDExtension s))"
    "(body @ r) ! 4 = to8 (tableIDExtension s)" "(body @ r) ! 5 = 0xC1 OR push_bit 1 (sec_version s)"
    "(body @ r) ! 6 = 0" "(body @ r) ! 7 = 0" for r
    by (simp_all add: body_def hdr_def)
  have len: "length12 (0xB0 OR of_nat (drop_bit 8 ?len)) (of_nat ?len) = ?len"
    by (rule length12_enc) (use assms in simp_all)
  have ext: "push_bit 8 (to16 (to8 (drop_bit 8 (tableIDExtension s)))) OR to16 (to8 (tableIDExtension s)) = tableIDExtension s"
    using get_be16_be16[of "tableIDExtension s" "[]"] by (simp add: get_be16_def be16_def)
  have want: "push_bit 24 (to32 (be32 c ! 0)) OR push_bit 16 (to32 (be32 c ! 1)) OR push_bit 8 (to32 (be32 c ! 2)) OR to32 (be32 c ! 3) = c" for c
    using get_be32_be32[of c "[]"] by (simp add: get_be32_def)
  have sl: "slice 0 (8 + length (sec_data s)) (body @ be32 (crc32MPEG body) @ pad) = body"
    "slice (8 + length (sec_data s)) (12 + length (sec_data s)) (body @ be32 (crc32MPEG body) @ pad) = be32 (crc32MPEG body)"
    "slice 8 (8 + length (sec_data s)) (body @ be32 (crc32MPEG body) @ pad) = sec_data s"
    by (simp_all add: slice_def lb) (simp_all add: body_def hdr_def)
  have e: "3 + ?len = 12 + length (sec_data s)" "12 + length (sec_data s) - 4 = 8 + length (sec_data s)" by simp_all
  show ?thesis
    unfolding sb parseSectionBytes_def nths len Let_def e sl want ext version_enc
    by (simp add: lb)
qed
section \<open>Accepted sections have a zero remainder\<close>

lemma crc32MPEG_residue: "crc32MPEG (d @ be32 (crc32MPEG d)) = 0"
  unfolding crc32MPEG_def by (rule mpegts_crc.residue)

lemma parse_ok_residue:
  assumes "parseSectionBytes buf = Inr sec" and e: "e = 3 + length12 (buf ! 1) (buf ! 2)"
  shows "8 \<le> length buf" "12 \<le> e" "e \<le> length buf" "crc32MPEG (take e buf) = 0"
    "sec_data sec = slice 8 (e - 4) buf" "tableID sec = buf ! 0"
proof -
  let ?body = "slice 0 (e - 4) buf" and ?crc = "slice (e - 4) e buf"
  have *: "8 \<le> length buf" "12 \<le> e" "e \<le> length buf" "crc32MPEG ?body = get_be32 ?crc"
    "sec_data sec = slice 8 (e - 4) buf" "tableID sec = buf ! 0"
    using assms by (auto simp: parseSectionBytes_def Let_def get_be32_def not_less split: if_splits)
  then show "8 \<le> length buf" "12 \<le> e" "e \<le> length buf"
    "sec_data sec = slice 8 (e - 4) buf" "tableID sec = buf ! 0" by simp_all
  have "length ?crc = 4" using *(2,3) by (simp add: slice_def)
  then obtain a b c d where crc: "?crc = [a, b, c, d]" using length_4_cases by blast
  have "take e buf = ?body @ ?crc"
    using *(2) take_add[of "e - 4" 4 buf] by (simp add: slice_def)
  also have "\<dots> = ?body @ be32 (crc32MPEG ?body)" using *(4) by (simp add: crc be32_get_be32)
  finally show "crc32MPEG (take e buf) = 0" by (simp add: crc32MPEG_residue)
qed

text \<open>
  C16: Corruption is detected. If a section is accepted and up to four consecutive bytes of it are replaced
  by others (a burst of at most 32 bits, the length field left alone), the parser refuses it.
\<close>

theorem parse_rejects_burst:
  assumes ok: "parseSectionBytes (a @ x @ z) = Inr sec"
    and burst: "length x = length y" "length x \<le> 4" "x \<noteq> y"
    and len_field: "(a @ y @ z) ! 1 = (a @ x @ z) ! 1" "(a @ y @ z) ! 2 = (a @ x @ z) ! 2"
    and inside: "length (a @ x) \<le> 3 + length12 ((a @ x @ z) ! 1) ((a @ x @ z) ! 2)"
  shows "\<exists>err. parseSectionBytes (a @ y @ z) = Inl err"
proof (cases "parseSectionBytes (a @ y @ z)")
  case (Inr sec')
  define e where "e = 3 + length12 ((a @ x @ z) ! 1) ((a @ x @ z) ! 2)"
  define z' where "z' = take (e - length (a @ x)) z"
  have "crc32MPEG (take e (a @ x @ z)) = 0" "crc32MPEG (take e (a @ y @ z)) = 0"
    using parse_ok_residue(4)[OF ok e_def] parse_ok_residue(4)[OF Inr, of e] len_field
    by (simp_all add: e_def)
  moreover have "take e (a @ x @ z) = a @ x @ z'" "take e (a @ y @ z) = a @ y @ z'"
    using inside burst(1) by (simp_all add: z'_def e_def)
  ultimately have "crc32MPEG (a @ x @ z') = crc32MPEG (a @ y @ z')" by simp
  then show ?thesis using mpegts_crc.detects_burst[OF burst] unfolding crc32MPEG_def by blast
qed blast

section \<open>Tables\<close>

lemma parsePAT_entries_marshal:
  assumes "list_all (\<lambda>p. programNumber p \<noteq> 0 \<and> pmtPID p < 0x2000) ps"
  shows "parsePAT_entries (concat (map marshal_program ps)) = ps"
  using assms
proof (induction ps)
  case (Cons p ps)
  have "push_bit 8 (to16 (to8 (drop_bit 8 (programNumber p)))) OR to16 (to8 (programNumber p)) = programNumber p"
    using get_be16_be16[of "programNumber p" "[]"] by (simp add: get_be16_def be16_def)
  with Cons show ?case by (simp add: marshal_program_def pid13_enc)
qed simp

lemma length_marshal_program [lens, simp]: "length (concat (map marshal_program ps)) = 4 * length ps"
  by (induction ps) (simp_all add: marshal_program_def)

lemma length_marshal_stream [lens, simp]: "length (concat (map marshal_stream ss)) = 5 * length ss"
  by (induction ss) (simp_all add: marshal_stream_def)

lemma PAT_parses:
  assumes "marshalPAT tsid ps = Inr out"
    and "list_all (\<lambda>p. programNumber p \<noteq> 0 \<and> pmtPID p < 0x2000) ps"
  shows "\<exists>sec. parsePSISection (out @ pad) = Inr sec \<and> tableIDExtension sec = tsid \<and> parsePAT sec = Inr ps"
proof -
  define s where "s = \<lparr>tableID = tableIDPAT, tableIDExtension = tsid, sec_version = 0,
       sec_data = concat (map marshal_program ps)\<rparr>"
  have "length (sec_data s) \<le> 1012" "out = 0 # section_bytes s"
    using assms(1) by (auto simp: marshalPAT_def marshal_section_eq s_def split: if_splits)
  then have "parsePSISection (out @ pad) = Inr s"
    using parse_section_bytes[of s pad] by (simp add: parsePSISection_def s_def)
  then show ?thesis using parsePAT_entries_marshal[OF assms(2)] by (simp add: parsePAT_def s_def)
qed

lemma parsePMT_streams_marshal:
  assumes "list_all (\<lambda>s. stream_pid s < 0x2000) ss"
  shows "parsePMT_streams (concat (map marshal_stream ss)) = Inr ss"
  using assms
proof (induction ss)
  case Nil
  then show ?case by (simp add: parsePMT_streams.simps)
next
  case (Cons s ss)
  have "length12 0xF0 0 = 0" by (simp add: length12_def)
  with Cons show ?case
    by (subst parsePMT_streams.simps) (simp add: marshal_stream_def[of s] pid13_enc)
qed

lemma PMT_parses:
  assumes "marshalPMT prog table = Inr out"
    and "pcrPID table < 0x2000" "list_all (\<lambda>s. stream_pid s < 0x2000) (pmt_streams table)"
  shows "\<exists>sec. parsePSISection (out @ pad) = Inr sec \<and> tableIDExtension sec = prog \<and> parsePMT sec = Inr table"
proof -
  define s where "s = \<lparr>tableID = tableIDPMT, tableIDExtension = prog, sec_version = 0,
       sec_data = [0xE0 OR to8 (drop_bit 8 (pcrPID table)), to8 (pcrPID table), 0xF0, 0x00]
         @ concat (map marshal_stream (pmt_streams table))\<rparr>"
  have "length (sec_data s) \<le> 1012" "out = 0 # section_bytes s"
    using assms(1) by (auto simp: marshalPMT_def marshal_section_eq s_def split: if_splits)
  then have "parsePSISection (out @ pad) = Inr s"
    using parse_section_bytes[of s pad] by (simp add: parsePSISection_def s_def)
  moreover have "length12 0xF0 0 = 0" by (simp add: length12_def)
  ultimately show ?thesis using parsePMT_streams_marshal[OF assms(3)] assms(2)
    by (simp add: parsePMT_def s_def pid13_enc)
qed

text \<open>
  C36: The tables round-trip. A program association table written with \<open>marshalPAT\<close>, and a program map table written with
  \<open>marshalPMT\<close>, put at the start of a packet payload, whatever follows there, parse back: the association table to the same
  transport stream id and programs, the map table to the same program number, PCR PID and streams. PIDs have 13 bits, and
  program number 0, which means the network table, is not used for a program.
\<close>

theorem tables_roundtrip:
  "(marshalPAT tsid ps = Inr out \<and> list_all (\<lambda>p. programNumber p \<noteq> 0 \<and> pmtPID p < 0x2000) ps \<longrightarrow>
     (\<exists>sec. parsePSISection (out @ pad) = Inr sec \<and> tableIDExtension sec = tsid \<and> parsePAT sec = Inr ps)) \<and>
   (marshalPMT prog table = Inr out \<and> pcrPID table < 0x2000 \<and> list_all (\<lambda>s. stream_pid s < 0x2000) (pmt_streams table) \<longrightarrow>
     (\<exists>sec. parsePSISection (out @ pad) = Inr sec \<and> tableIDExtension sec = prog \<and> parsePMT sec = Inr table))"
  using PAT_parses PMT_parses by blast

section \<open>Reassembly\<close>

text \<open>Feeding packet payloads until a section is complete.\<close>

fun feed_all :: "sectionAssembler \<Rightarrow> (bool \<times> bytes) list \<Rightarrow> (bytes option \<times> sectionAssembler) option" where
  "feed_all a [] = Some (None, a)"
| "feed_all a ((u, p) # ps) = (case feed u p a of
     None \<Rightarrow> None
   | Some (Some sec, a') \<Rightarrow> Some (Some sec, a')
   | Some (None, a') \<Rightarrow> feed_all a' ps)"

definition whole_section :: "bytes \<Rightarrow> bool" where
  "whole_section sb \<longleftrightarrow> 3 \<le> length sb \<and> length sb = 3 + length12 (sb ! 1) (sb ! 2)"

lemma length12_le: "length12 a b \<le> 4095"
proof -
  have m: "(0x0F :: byte) = mask 4" by (simp add: mask_eq_exp_minus_1)
  have "take_bit 12 (length12 a b) = length12 a b"
    by (rule bit_eqI) (auto simp: length12_def m bit_simps)
  then show ?thesis using take_bit_nat_less_exp[of 12 "length12 a b"] by simp
qed

lemma feed_check_prefix:
  assumes "whole_section sb" "asm_buf a @ r = sb @ pad"
  shows "feed_check a = (if length (asm_buf a) < length sb then (None, a)
     else (Some sb, a\<lparr>asm_active := False\<rparr>))"
proof (cases "length (asm_buf a) < 3")
  case True
  then show ?thesis using assms(1) by (simp add: feed_check_def whole_section_def)
next
  case False
  have n: "asm_buf a ! i = sb ! i" if "i < 3" for i
  proof -
    have "asm_buf a ! i = (asm_buf a @ r) ! i" using False that by (simp add: nth_append)
    also have "\<dots> = sb ! i" unfolding assms(2) using assms(1) that by (simp add: nth_append whole_section_def)
    finally show ?thesis .
  qed
  have t: "3 + length12 (asm_buf a ! 1) (asm_buf a ! 2) = length sb"
    using assms(1) n[of 1] n[of 2] by (simp add: whole_section_def)
  have "take (length sb) (asm_buf a) = sb" if "\<not> length (asm_buf a) < length sb"
    using arg_cong[OF assms(2), of "take (length sb)"] that by simp
  then show ?thesis unfolding feed_check_def Let_def t using False by simp
qed

lemma feed_continue:
  assumes "whole_section sb" "asm_active a" "length (asm_buf a) < length sb"
    and "asm_buf a @ concat cs = sb @ pad"
  shows "\<exists>a'. feed_all a (map (Pair False) cs) = Some (Some sb, a') \<and> \<not> asm_active a'"
  using assms
proof (induction cs arbitrary: a)
  case Nil
  from arg_cong[OF Nil(4), of length] Nil(3) show ?case by simp
next
  case (Cons c cs)
  let ?a = "a\<lparr>asm_buf := asm_buf a @ c\<rparr>"
  have chk: "feed_check ?a = (if length (asm_buf ?a) < length sb then (None, ?a)
     else (Some sb, ?a\<lparr>asm_active := False\<rparr>))"
    using Cons.prems by (intro feed_check_prefix[where r = "concat cs" and pad = pad]) simp_all
  show ?case
  proof (cases "length (asm_buf ?a) < length sb")
    case True
    then have "\<exists>a'. feed_all ?a (map (Pair False) cs) = Some (Some sb, a') \<and> \<not> asm_active a'"
      using Cons.prems by (intro Cons.IH) simp_all
    then show ?thesis using True chk Cons.prems(2) by (simp add: feed_def)
  next
    case False
    then show ?thesis using chk Cons.prems(2) by (simp add: feed_def)
  qed
qed

lemma feed_reassembles:
  assumes "whole_section sb" "length junk = k" "k < 256" "c0 @ concat cs = sb @ pad"
  shows "\<exists>a'. feed_all a ((True, of_nat k # junk @ c0) # map (Pair False) cs) = Some (Some sb, a')
    \<and> \<not> asm_active a'"
proof -
  let ?a = "a\<lparr>asm_buf := c0, asm_active := True\<rparr>"
  have k: "unat (of_nat k :: byte) = k" using assms(3) by (simp add: unat_of_nat)
  have chk: "feed_check ?a = (if length c0 < length sb then (None, ?a)
     else (Some sb, ?a\<lparr>asm_active := False\<rparr>))"
    using feed_check_prefix[OF assms(1), of ?a "concat cs" pad] assms(4) by simp
  have "feed True (of_nat k # junk @ c0) a = Some (feed_check ?a)"
    using assms(2) by (simp add: feed_def k Let_def)
  then show ?thesis
    using chk feed_continue[OF assms(1), of ?a cs pad] assms(4) by auto
qed

text \<open>The buffer of the assembler is bounded by the 12-bit section length and one packet.\<close>

definition asm_bounded :: "sectionAssembler \<Rightarrow> bool" where
  "asm_bounded a \<longleftrightarrow> length (asm_buf a) \<le> 4281 \<and> (asm_active a \<longrightarrow> length (asm_buf a) < 4098)"

lemma feed_check_bounded: "length (asm_buf a) \<le> 4281 \<Longrightarrow> asm_bounded (snd (feed_check a))"
  using length12_le[of "asm_buf a ! 1" "asm_buf a ! 2"]
  by (auto simp: feed_check_def asm_bounded_def Let_def)

lemma feed_bounded:
  assumes "asm_bounded a" "length p \<le> 184" "feed u p a = Some res"
  shows "asm_bounded (snd res)"
  using assms
  by (auto simp: feed_def Let_def asm_bounded_def[of a] split: if_splits list.splits
      intro: feed_check_bounded) (auto simp: asm_bounded_def)

lemma feed_panics_iff: "feed u p a = None \<longleftrightarrow> u \<and> p = []"
  by (auto simp: feed_def Let_def split: list.splits)

section \<open>Examples\<close>

theorem parse_rejects_burst_witness:
  "\<exists>err. parseSectionBytes ([0, 0xB0, 13, 0, 1, 0xC1, 0, 0] @ [0x81, 0x0] @ [0xF0, 0] @
     be32 (crc32MPEG [0, 0xB0, 13, 0, 1, 0xC1, 0, 0, 0, 1, 0xF0, 0])) = Inl err"
proof (rule parse_rejects_burst[where x = "[0, 1]"])
  let ?s = "\<lparr>tableID = 0, tableIDExtension = 1, sec_version = 0, sec_data = [0, 1, 0xF0, 0]\<rparr>"
  have "parseSectionBytes (section_bytes ?s @ []) = Inr ?s" by (subst parse_section_bytes) simp_all
  then show "parseSectionBytes ([0, 0xB0, 13, 0, 1, 0xC1, 0, 0] @ [0, 1] @ [0xF0, 0] @
      be32 (crc32MPEG [0, 0xB0, 13, 0, 1, 0xC1, 0, 0, 0, 1, 0xF0, 0])) = Inr ?s"
    by (simp add: section_bytes_def)
qed (simp_all add: length12_def)

definition witness_programs :: "patProgram list" where
  "witness_programs = [\<lparr>programNumber = 1, pmtPID = 0x1000\<rparr>, \<lparr>programNumber = 2, pmtPID = 0x1001\<rparr>]"

definition witness_pmt :: pmt where
  "witness_pmt = \<lparr>pcrPID = 0x100, pmt_streams = [\<lparr>streamType = 0x1B, stream_pid = 0x100\<rparr>, \<lparr>streamType = 0x24, stream_pid = 0x101\<rparr>]\<rparr>"

theorem tables_roundtrip_witness:
  "\<exists>out1 out2 sec1 sec2. marshalPAT 7 witness_programs = Inr out1 \<and> parsePSISection (out1 @ [0xFF, 0xFF]) = Inr sec1 \<and>
     parsePAT sec1 = Inr witness_programs \<and> marshalPMT 1 witness_pmt = Inr out2 \<and> parsePSISection (out2 @ [0xFF, 0xFF]) = Inr sec2 \<and>
     parsePMT sec2 = Inr witness_pmt"
proof -
  obtain out1 where 1: "marshalPAT 7 witness_programs = Inr out1"
    by (simp add: marshalPAT_def marshal_section_eq marshal_program_def witness_programs_def)
  obtain out2 where 2: "marshalPMT 1 witness_pmt = Inr out2"
    by (simp add: marshalPMT_def marshal_section_eq marshal_stream_def witness_pmt_def)
  have "list_all (\<lambda>p. programNumber p \<noteq> 0 \<and> pmtPID p < 0x2000) witness_programs" "pcrPID witness_pmt < 0x2000"
    "list_all (\<lambda>s. stream_pid s < 0x2000) (pmt_streams witness_pmt)" by (simp_all add: witness_programs_def witness_pmt_def)
  then show ?thesis using 1 2 tables_roundtrip[of 7 witness_programs out1 "[0xFF, 0xFF]" 1 witness_pmt]
    tables_roundtrip[of 7 witness_programs out2 "[0xFF, 0xFF]" 1 witness_pmt] by blast
qed

end
