(* ===== verification/TsPacket.thy ===== *)
theory TsPacket
  imports TsPsi
begin

text \<open>
  Transport packets: the four-byte header of \<open>mpegts/packet.go\<close>, the adaptation field of
  \<open>mpegts/adaptation.go\<close>, and the payload of a packet as \<open>packetPayload\<close> of
  \<open>mpegts/reader.go\<close> finds it. The two \<open>marshalTo\<close> methods write into a buffer that already
  holds other bytes, so they are modelled as list updates of that buffer.
\<close>

section \<open>Constants\<close>

definition packetSize :: nat where "packetSize = 188"
definition syncByte :: byte where "syncByte = 0x47"
definition pidPAT :: u16 where "pidPAT = 0x0000"

section \<open>Packet header\<close>

record packetHeader =
  transportError :: bool
  payloadUnitStart :: bool
  transportPriority :: bool
  hdr_pid :: u16
  scramblingControl :: u8
  hasAdaptationField :: bool
  hasPayload :: bool
  continuityCounter :: u8

definition parsePacketHeader :: "bytes \<Rightarrow> ts_error + packetHeader" where
  "parsePacketHeader pkt =
     (if length pkt < 4 then Inl (Err errShortPacket)
      else if pkt ! 0 \<noteq> syncByte then Inl (Err errInvalidSyncByte)
      else let afc = drop_bit 4 (pkt ! 3) AND 0x03 in
      if afc = 0 then Inl (Err errInvalidAFC)
      else Inr \<lparr>transportError = (pkt ! 1 AND 0x80 \<noteq> 0),
                payloadUnitStart = (pkt ! 1 AND 0x40 \<noteq> 0),
                transportPriority = (pkt ! 1 AND 0x20 \<noteq> 0),
                hdr_pid = pid13 (pkt ! 1) (pkt ! 2),
                scramblingControl = drop_bit 6 (pkt ! 3),
                hasAdaptationField = (afc AND 0x02 \<noteq> 0),
                hasPayload = (afc AND 0x01 \<noteq> 0),
                continuityCounter = pkt ! 3 AND 0x0F\<rparr>)"

definition header_byte1 :: "packetHeader \<Rightarrow> byte" where
  "header_byte1 h =
     (let b0 = to8 (drop_bit 8 (hdr_pid h)) AND 0x1F;
          b1 = (if transportError h then b0 OR 0x80 else b0);
          b2 = (if payloadUnitStart h then b1 OR 0x40 else b1)
      in if transportPriority h then b2 OR 0x20 else b2)"

definition header_afc :: "packetHeader \<Rightarrow> byte" where
  "header_afc h =
     (let a0 = (if hasAdaptationField h then 0x02 else 0)
      in if hasPayload h then a0 OR 0x01 else a0)"

definition header_marshalTo :: "packetHeader \<Rightarrow> bytes \<Rightarrow> bytes" where
  "header_marshalTo h pkt =
     pkt[0 := syncByte,
         1 := header_byte1 h,
         2 := to8 (hdr_pid h),
         3 := push_bit 6 (scramblingControl h) OR push_bit 4 (header_afc h) OR (continuityCounter h AND 0x0F)]"

section \<open>Adaptation field\<close>

record adaptationField =
  discontinuity :: bool
  randomAccess :: bool
  hasPCR :: bool
  pcr :: u64

definition no_adaptation :: adaptationField where
  "no_adaptation = \<lparr>discontinuity = False, randomAccess = False, hasPCR = False, pcr = 0\<rparr>"

definition pcr_of_bytes :: "bytes \<Rightarrow> u64" where
  "pcr_of_bytes buf =
     (let base = push_bit 25 (to64 (buf ! 2)) OR push_bit 17 (to64 (buf ! 3))
            OR push_bit 9 (to64 (buf ! 4)) OR push_bit 1 (to64 (buf ! 5)) OR drop_bit 7 (to64 (buf ! 6));
          ext = push_bit 8 (to64 (buf ! 6 AND 0x01)) OR to64 (buf ! 7)
      in base * 300 + ext)"

definition parseAdaptationField :: "bytes \<Rightarrow> ts_error + adaptationField \<times> nat" where
  "parseAdaptationField buf =
     (if length buf < 1 then Inl (Err errAdaptationTruncated)
      else let len = unat (buf ! 0) in
      if 1 + len > length buf then Inl (Err errAdaptationTooLong)
      else if len = 0 then Inr (no_adaptation, 1)
      else let flags = buf ! 1;
               af = no_adaptation\<lparr>discontinuity := (flags AND 0x80 \<noteq> 0), randomAccess := (flags AND 0x40 \<noteq> 0)\<rparr> in
      if flags AND 0x10 \<noteq> 0
      then if len < 7 then Inl (Err errAdaptationTruncated)
           else Inr (af\<lparr>hasPCR := True, pcr := pcr_of_bytes buf\<rparr>, 1 + len)
      else Inr (af, 1 + len))"

definition encodedLen :: "adaptationField \<Rightarrow> nat" where
  "encodedLen af = (if hasPCR af then 2 + 6 else 2)"

definition adaptation_flags :: "adaptationField \<Rightarrow> byte" where
  "adaptation_flags af =
     (let f1 = (if discontinuity af then 0x80 else 0);
          f2 = (if randomAccess af then f1 OR 0x40 else f1)
      in if hasPCR af then f2 OR 0x10 else f2)"

text \<open>The stuffing loop, \<open>for i := off; i < total; i++\<close>.\<close>

definition stuff :: "nat \<Rightarrow> nat \<Rightarrow> bytes \<Rightarrow> bytes" where
  "stuff off tot buf = foldl (\<lambda>b i. b[i := 0xFF]) buf [off..<tot]"

definition adaptation_marshalTo :: "adaptationField \<Rightarrow> bytes \<Rightarrow> nat \<Rightarrow> bytes" where
  "adaptation_marshalTo af buf tot =
     (let buf1 = buf[0 := of_nat (tot - 1)] in
      if tot = 1 then buf1
      else let
        base = pcr af div 300; ext = pcr af mod 300;
        buf2 = (if hasPCR af
                then buf1[2 := to8 (drop_bit 25 base), 3 := to8 (drop_bit 17 base),
                          4 := to8 (drop_bit 9 base), 5 := to8 (drop_bit 1 base),
                          6 := to8 (push_bit 7 base) OR 0x7E OR to8 (drop_bit 8 ext),
                          7 := to8 ext]
                else buf1);
        off = (if hasPCR af then 8 else 2);
        buf3 = buf2[1 := adaptation_flags af]
      in stuff off tot buf3)"

section \<open>The payload of a packet\<close>

text \<open>\<open>Inr (None, af)\<close> stands for Go's nil payload.\<close>

definition packetPayload :: "bytes \<Rightarrow> packetHeader \<Rightarrow> ts_error + bytes option \<times> adaptationField" where
  "packetPayload pkt hdr =
     (case (if hasAdaptationField hdr then parseAdaptationField (drop 4 pkt) else Inr (no_adaptation, 0)) of
        Inl e \<Rightarrow> Inl e
      | Inr (af, n) \<Rightarrow>
          let off = 4 + n in
          if \<not> hasPayload hdr \<or> off \<ge> length pkt then Inr (None, af)
          else Inr (Some (drop off pkt), af))"

section \<open>Headers round-trip\<close>

lemma header_byte1_bits:
  "bit (header_byte1 h) 7 = transportError h" "bit (header_byte1 h) 6 = payloadUnitStart h"
  "bit (header_byte1 h) 5 = transportPriority h"
  by (auto simp: header_byte1_def Let_def byte_masks bit_simps)

lemma header_byte1_pid: "header_byte1 h AND 0x1F = to8 (drop_bit 8 (hdr_pid h)) AND 0x1F"
  by (simp add: header_byte1_def Let_def bit.conj_disj_distrib2 and.assoc)

lemma pid13_masked: "pid13 (to8 (drop_bit 8 p) AND 0x1F) (to8 p) = p AND 0x1FFF"
proof -
  have m: "(0x1FFF :: u16) = mask 13" by (simp add: mask_eq_exp_minus_1)
  show ?thesis
  proof (rule bit_word_eqI)
    fix n assume "n < LENGTH(16)"
    then show "bit (pid13 (to8 (drop_bit 8 p) AND 0x1F) (to8 p)) n = bit (p AND 0x1FFF) n"
      unfolding m pid13_def byte_masks by (cases "n < 8") (auto simp: bit_simps)
  qed
qed

lemma pid13_and: "pid13 (a AND 0x1F) b = pid13 a b"
  by (simp add: pid13_def and.assoc)

lemma header_afc_eq: "header_afc h = (if hasAdaptationField h then 2 else 0) + (if hasPayload h then 1 else 0)"
  by (simp add: header_afc_def)

lemma byte3_fields:
  fixes sc c cc :: byte
  assumes "c AND 0x03 = c"
  shows "drop_bit 4 (push_bit 6 sc OR push_bit 4 c OR (cc AND 0x0F)) AND 0x03 = c" (is ?a)
    and "drop_bit 6 (push_bit 6 sc OR push_bit 4 c OR (cc AND 0x0F)) = sc AND 0x03" (is ?b)
    and "(push_bit 6 sc OR push_bit 4 c OR (cc AND 0x0F)) AND 0x0F = cc AND 0x0F" (is ?c)
proof -
  have c: "bit c i \<Longrightarrow> i < 2" for i
    using assms unfolding byte_masks by (metis bit_and_iff bit_mask_iff)
  show ?a
  proof (rule bit_word_eqI)
    fix n assume "n < LENGTH(8)"
    then show "bit (drop_bit 4 (push_bit 6 sc OR push_bit 4 c OR (cc AND 0x0F)) AND 0x03) n = bit c n"
      unfolding byte_masks using c[of n] by (auto simp: bit_simps)
  qed
  show ?b
  proof (rule bit_word_eqI)
    fix n assume "n < LENGTH(8)"
    then show "bit (drop_bit 6 (push_bit 6 sc OR push_bit 4 c OR (cc AND 0x0F))) n = bit (sc AND 0x03) n"
      unfolding byte_masks using c[of "2 + n"] by (auto simp: bit_simps)
  qed
  show ?c
    unfolding byte_masks by (rule bit_word_eqI) (auto simp: bit_simps)
qed

text \<open>A header written into any buffer parses back, with each field cut to its width.\<close>

lemma parse_header_marshalTo:
  assumes "4 \<le> length pkt"
  shows "parsePacketHeader (header_marshalTo h pkt) =
     (if hasAdaptationField h \<or> hasPayload h
      then Inr (h\<lparr>hdr_pid := hdr_pid h AND 0x1FFF, scramblingControl := scramblingControl h AND 0x03,
                  continuityCounter := continuityCounter h AND 0x0F\<rparr>)
      else Inl (Err errInvalidAFC))"
proof -
  have c: "header_afc h AND 0x03 = header_afc h" by (simp add: header_afc_eq)
  have pid: "pid13 (header_byte1 h) (to8 (hdr_pid h)) = hdr_pid h AND 0x1FFF"
    using pid13_and[of "header_byte1 h" "to8 (hdr_pid h)"] header_byte1_pid[of h]
      pid13_masked[of "hdr_pid h"] by simp
  have n: "header_marshalTo h pkt ! 0 = syncByte" "header_marshalTo h pkt ! 1 = header_byte1 h"
    "header_marshalTo h pkt ! 2 = to8 (hdr_pid h)"
    "header_marshalTo h pkt ! 3 = push_bit 6 (scramblingControl h) OR push_bit 4 (header_afc h) OR (continuityCounter h AND 0x0F)"
    "length (header_marshalTo h pkt) = length pkt"
    using assms less_le_trans[of 0 4 "length pkt"] by (simp_all add: header_marshalTo_def nth_list_update_eq)
  show ?thesis
    unfolding parsePacketHeader_def n byte3_fields[OF c] pid Let_def
    using assms by (simp add: header_byte1_bits header_afc_eq)
qed

definition header_bytes :: "packetHeader \<Rightarrow> bytes" where
  "header_bytes h = header_marshalTo h [0, 0, 0, 0]"

lemma length_header_bytes [lens, simp]: "length (header_bytes h) = 4"
  by (simp add: header_bytes_def header_marshalTo_def)

lemma header_marshalTo_eq: "4 \<le> length pkt \<Longrightarrow> header_marshalTo h pkt = header_bytes h @ drop 4 pkt"
  by (cases pkt; cases "tl pkt"; cases "tl (tl pkt)"; cases "tl (tl (tl pkt))")
     (auto simp: header_marshalTo_def header_bytes_def numeral_eq_Suc)

section \<open>Adaptation fields\<close>

lemma stuff_eq:
  "off \<le> tot \<Longrightarrow> tot \<le> length buf \<Longrightarrow> stuff off tot buf = take off buf @ replicate (tot - off) 0xFF @ drop tot buf"
proof (induction tot)
  case 0
  then show ?case by (simp add: stuff_def)
next
  case (Suc t)
  show ?case
  proof (cases "off = Suc t")
    case True
    then show ?thesis by (simp add: stuff_def)
  next
    case False
    with Suc have ih: "stuff off t buf = take off buf @ replicate (t - off) 0xFF @ drop t buf" by simp
    have "stuff off (Suc t) buf = (stuff off t buf)[t := 0xFF]"
      using Suc.prems False by (simp add: stuff_def)
    also have "drop t buf = buf ! t # drop (Suc t) buf" using Suc.prems by (simp add: Cons_nth_drop_Suc)
    with ih have "(stuff off t buf)[t := 0xFF] = take off buf @ replicate (t - off) 0xFF @ 0xFF # drop (Suc t) buf"
      using Suc.prems False by (simp add: list_update_append)
    also have "\<dots> = take off buf @ replicate (Suc t - off) 0xFF @ drop (Suc t) buf"
      using Suc.prems False by (simp add: Suc_diff_le replicate_app_Cons_same)
    finally show ?thesis .
  qed
qed

definition pcr_bytes :: "u64 \<Rightarrow> bytes" where
  "pcr_bytes v = (let base = v div 300; ext = v mod 300 in
     [to8 (drop_bit 25 base), to8 (drop_bit 17 base), to8 (drop_bit 9 base), to8 (drop_bit 1 base),
      to8 (push_bit 7 base) OR 0x7E OR to8 (drop_bit 8 ext), to8 ext])"

definition adaptation_bytes :: "adaptationField \<Rightarrow> nat \<Rightarrow> bytes" where
  "adaptation_bytes af tot =
     (if tot = 1 then [0]
      else [of_nat (tot - 1), adaptation_flags af] @ (if hasPCR af then pcr_bytes (pcr af) else [])
        @ replicate (tot - encodedLen af) 0xFF)"

lemma length_pcr_bytes [lens, simp]: "length (pcr_bytes v) = 6"
  by (simp add: pcr_bytes_def Let_def)

lemma length_adaptation_bytes [lens]:
  "tot = 1 \<or> encodedLen af \<le> tot \<Longrightarrow> length (adaptation_bytes af tot) = tot"
  by (auto simp: adaptation_bytes_def encodedLen_def)

lemma adaptation_marshalTo_eq:
  assumes "tot = 1 \<or> encodedLen af \<le> tot" "tot \<le> length buf"
  shows "adaptation_marshalTo af buf tot = adaptation_bytes af tot @ drop tot buf"
proof (cases "tot = 1")
  case True
  with assms show ?thesis by (cases buf) (simp_all add: adaptation_marshalTo_def adaptation_bytes_def)
next
  case False
  define buf3 where "buf3 = (if hasPCR af
                then buf[0 := of_nat (tot - 1), 2 := to8 (drop_bit 25 (pcr af div 300)), 3 := to8 (drop_bit 17 (pcr af div 300)),
                          4 := to8 (drop_bit 9 (pcr af div 300)), 5 := to8 (drop_bit 1 (pcr af div 300)),
                          6 := to8 (push_bit 7 (pcr af div 300)) OR 0x7E OR to8 (drop_bit 8 (pcr af mod 300)),
                          7 := to8 (pcr af mod 300)]
                else buf[0 := of_nat (tot - 1)])[1 := adaptation_flags af]"
  have eq: "adaptation_marshalTo af buf tot = stuff (encodedLen af) tot buf3"
    using False by (simp add: adaptation_marshalTo_def buf3_def Let_def encodedLen_def)
  have len: "length buf3 = length buf" "encodedLen af \<le> tot" using False assms by (simp_all add: buf3_def)
  have take: "take (encodedLen af) buf3 = [of_nat (tot - 1), adaptation_flags af] @ (if hasPCR af then pcr_bytes (pcr af) else [])"
  proof (cases "hasPCR af")
    case True
    then have "8 \<le> length buf" using assms len(2) by (simp add: encodedLen_def)
    then obtain a b c d e f g h r where "buf = a # b # c # d # e # f # g # h # r"
      by (auto simp: numeral_eq_Suc Suc_le_length_iff)
    with True show ?thesis by (simp add: buf3_def encodedLen_def pcr_bytes_def Let_def numeral_eq_Suc)
  next
    case False
    then have "2 \<le> length buf" using assms len(2) by (simp add: encodedLen_def)
    then obtain a b r where "buf = a # b # r" by (auto simp: numeral_eq_Suc Suc_le_length_iff)
    with False show ?thesis by (simp add: buf3_def encodedLen_def numeral_eq_Suc)
  qed
  have "drop tot buf3 = drop tot buf" using len(2) by (simp add: buf3_def encodedLen_def drop_update_cancel split: if_splits)
  then show ?thesis using stuff_eq[of "encodedLen af" tot buf3] len assms False
    by (simp add: eq take adaptation_bytes_def)
qed

lemma pcr_fields:
  fixes base ext :: u64
  assumes "ext < 2 ^ 9"
  defines "b6 \<equiv> to8 (push_bit 7 base) OR 0x7E OR to8 (drop_bit 8 ext)"
  shows "push_bit 25 (to64 (to8 (drop_bit 25 base))) OR push_bit 17 (to64 (to8 (drop_bit 17 base)))
      OR push_bit 9 (to64 (to8 (drop_bit 9 base))) OR push_bit 1 (to64 (to8 (drop_bit 1 base)))
      OR drop_bit 7 (to64 b6) = take_bit 33 base" (is "?base = _")
    and "push_bit 8 (to64 (b6 AND 0x01)) OR to64 (to8 ext) = ext" (is "?ext = ext")
proof -
  have m: "(0x7E :: byte) = push_bit 1 (mask 6)" "(1 :: byte) = mask 1" by (simp_all add: mask_eq_exp_minus_1)
  have e: "bit ext i \<Longrightarrow> i < 9" for i using assms(1) word_bit_less by blast
  show "?base = take_bit 33 base"
  proof (rule bit_word_eqI)
    fix n :: nat
    consider "n = 0" | "1 \<le> n" "n < 9" | "9 \<le> n" "n < 17" | "17 \<le> n" "n < 25" | "25 \<le> n" "n < 33" | "33 \<le> n"
      by linarith
    then show "bit ?base n = bit (take_bit 33 base) n"
      unfolding b6_def m using e[of "15 + n"]
      by cases (auto simp: bit_simps simp del: push_bit_Suc)
  qed
  show "?ext = ext"
  proof (rule bit_word_eqI)
    fix n :: nat
    consider "n < 8" | "n = 8" | "9 \<le> n" by linarith
    then show "bit ?ext n = bit ext n"
      unfolding b6_def m using e[of n]
      by cases (auto simp: bit_simps simp del: push_bit_Suc)
  qed
qed

text \<open>What arrives of a clock reference: 33 bits of its base.\<close>

definition wire_pcr :: "u64 \<Rightarrow> u64" where
  "wire_pcr v = take_bit 33 (v div 300) * 300 + v mod 300"

lemma pcr_of_pcr_bytes: "pcr_of_bytes ([a, b] @ pcr_bytes v @ r) = wire_pcr v"
proof -
  have "v mod 300 < 2 ^ 9"
  proof -
    have "v mod 300 < 300" by (rule word_mod_less_divisor) simp
    then show ?thesis by (rule less_trans) simp
  qed
  note f = pcr_fields[OF this, of "v div 300"]
  then show ?thesis unfolding pcr_of_bytes_def pcr_bytes_def wire_pcr_def Let_def by simp
qed

lemma adaptation_flags_bits:
  "bit (adaptation_flags af) 7 = discontinuity af" "bit (adaptation_flags af) 6 = randomAccess af"
  "bit (adaptation_flags af) 4 = hasPCR af"
  by (auto simp: adaptation_flags_def Let_def bit_simps)

lemma parse_adaptation_bytes:
  assumes "encodedLen af \<le> tot" "tot \<le> 256"
  shows "parseAdaptationField (adaptation_bytes af tot @ r) = Inr (af\<lparr>pcr := if hasPCR af then wire_pcr (pcr af) else 0\<rparr>, tot)"
proof -
  have 2: "2 \<le> tot" using assms(1) by (simp add: encodedLen_def split: if_splits)
  have len: "unat (of_nat (tot - 1) :: byte) = tot - 1"
    using assms(2) by (simp add: unat_of_nat)
  have l: "length (adaptation_bytes af tot) = tot" using assms(1) by (simp add: length_adaptation_bytes)
  have n: "(adaptation_bytes af tot @ r) ! 0 = of_nat (tot - 1)" "(adaptation_bytes af tot @ r) ! 1 = adaptation_flags af"
    using 2 by (simp_all add: adaptation_bytes_def)
  have p: "pcr_of_bytes (adaptation_bytes af tot @ r) = wire_pcr (pcr af)" if "hasPCR af"
    using pcr_of_pcr_bytes[of "of_nat (tot - 1)" "adaptation_flags af" "pcr af"] 2 that by (simp add: adaptation_bytes_def)
  show ?thesis
    unfolding parseAdaptationField_def n Let_def len
    using 2 l p assms(1) by (auto simp: adaptation_flags_bits no_adaptation_def encodedLen_def)
qed

lemma parse_adaptation_one: "parseAdaptationField (adaptation_bytes af 1 @ r) = Inr (no_adaptation, 1)"
  by (simp add: parseAdaptationField_def adaptation_bytes_def)

section \<open>Payloads\<close>

lemma packetPayload_bounds:
  assumes "packetPayload pkt hdr = Inr (Some p, af)"
  shows "p \<noteq> []" "length p + 4 \<le> length pkt"
  using assms by (auto simp: packetPayload_def Let_def split: sum.splits prod.splits if_splits)

end
