(* ===== verification/TsPes.thy ===== *)
theory TsPes
  imports TsPsi
begin

text \<open>
  Packetised elementary stream headers, \<open>mpegts/pes.go\<close>. Go's \<open>int64\<close> timestamps are
  \<open>int\<close>; the header only keeps their low 33 bits.
\<close>

section \<open>Timestamps\<close>

definition maxTimestamp :: int where "maxTimestamp = 2 ^ 33 - 1"
definition streamIDVideo :: byte where "streamIDVideo = 0xE0"

definition appendTimestamp :: "bytes \<Rightarrow> byte \<Rightarrow> int \<Rightarrow> bytes" where
  "appendTimestamp dst prefix ts = dst @
     [push_bit 4 prefix OR (word_of_int (drop_bit 29 ts) AND 0x0E) OR 0x01,
      word_of_int (drop_bit 22 ts),
      (word_of_int (drop_bit 14 ts) AND 0xFE) OR 0x01,
      word_of_int (drop_bit 7 ts),
      word_of_int (push_bit 1 ts) OR 0x01]"

definition parseTimestamp :: "bytes \<Rightarrow> int" where
  "parseTimestamp buf =
     push_bit 29 (uint (buf ! 0 AND 0x0E)) OR push_bit 22 (uint (buf ! 1))
     OR push_bit 14 (uint (buf ! 2 AND 0xFE)) OR push_bit 7 (uint (buf ! 3)) OR drop_bit 1 (uint (buf ! 4))"

section \<open>Headers\<close>

record pesHeader =
  streamID :: byte
  packetLength :: nat
  headerLength :: nat
  hasPTS :: bool
  hasDTS :: bool
  pes_pts :: int
  pes_dts :: int

definition parsePESHeader :: "bytes \<Rightarrow> ts_error + pesHeader" where
  "parsePESHeader buf =
     (if length buf < 9 then Inl (Err errPESTruncated)
      else if buf ! 0 \<noteq> 0 \<or> buf ! 1 \<noteq> 0 \<or> buf ! 2 \<noteq> 1 then Inl (Err errPESStartCode)
      else if buf ! 6 AND 0xC0 \<noteq> 0x80 then Inl (Err errPESMarkerBits)
      else let
        ptsDTSFlags = drop_bit 6 (buf ! 7);
        hdr = \<lparr>streamID = buf ! 3, packetLength = push_bit 8 (unat (buf ! 4)) OR unat (buf ! 5),
               headerLength = 9 + unat (buf ! 8), hasPTS = False, hasDTS = False, pes_pts = 0, pes_dts = 0\<rparr> in
      if length buf < headerLength hdr then Inl (Err errPESTruncated)
      else if ptsDTSFlags = 0b10 then
        (if unat (buf ! 8) < 5 then Inl (Err errPESTruncated)
         else Inr (hdr\<lparr>hasPTS := True, pes_pts := parseTimestamp (slice 9 14 buf)\<rparr>))
      else if ptsDTSFlags = 0b11 then
        (if unat (buf ! 8) < 10 then Inl (Err errPESTruncated)
         else Inr (hdr\<lparr>hasPTS := True, hasDTS := True, pes_pts := parseTimestamp (slice 9 14 buf),
                        pes_dts := parseTimestamp (slice 14 19 buf)\<rparr>))
      else Inr hdr)"

definition appendPESHeader :: "bytes \<Rightarrow> byte \<Rightarrow> int \<Rightarrow> int \<Rightarrow> bytes" where
  "appendPESHeader dst sid pts dts =
     (let pts = pts AND maxTimestamp; dts = dts AND maxTimestamp;
          dst = dst @ [0x00, 0x00, 0x01, sid, 0x00, 0x00] in
      if pts = dts then appendTimestamp (dst @ [0x84, 0x80, 5]) 0b0010 pts
      else appendTimestamp (appendTimestamp (dst @ [0x84, 0xC0, 10]) 0b0011 pts) 0b0001 dts)"

section \<open>Lemmas\<close>

lemma and_maxTimestamp: "x AND maxTimestamp = take_bit 33 x"
  by (simp add: maxTimestamp_def take_bit_eq_mask mask_eq_exp_minus_1)

lemma ts_masks: "(0x0E :: byte) = push_bit 1 (mask 3)" "(0xFE :: byte) = push_bit 1 (mask 7)"
  by (simp_all add: mask_eq_exp_minus_1)

definition ts_bytes :: "byte \<Rightarrow> int \<Rightarrow> bytes" where
  "ts_bytes p ts = appendTimestamp [] p ts"

lemma appendTimestamp_eq: "appendTimestamp dst p ts = dst @ ts_bytes p ts"
  by (simp add: ts_bytes_def appendTimestamp_def)

lemma length_ts_bytes [lens, simp]: "length (ts_bytes p ts) = 5"
  by (simp add: ts_bytes_def appendTimestamp_def)

lemma parseTimestamp_ts_bytes [codec]: "parseTimestamp (ts_bytes p ts) = take_bit 33 ts"
proof (rule bit_eqI)
  fix n :: nat
  consider "n < 7" | "7 \<le> n" "n < 15" | "15 \<le> n" "n < 22" | "22 \<le> n" "n < 30" | "30 \<le> n" "n < 33" | "33 \<le> n"
    by linarith
  then show "bit (parseTimestamp (ts_bytes p ts)) n = bit (take_bit 33 ts) n"
    unfolding parseTimestamp_def ts_bytes_def appendTimestamp_def ts_masks
    by cases (auto simp: bit_simps simp del: push_bit_Suc)
qed

lemma appendPESHeader_eq:
  "appendPESHeader dst sid pts dts = dst @
     (let p = take_bit 33 pts; d = take_bit 33 dts in
      if p = d then [0, 0, 1, sid, 0, 0, 0x84, 0x80, 5] @ ts_bytes 0b0010 p
      else [0, 0, 1, sid, 0, 0, 0x84, 0xC0, 10] @ ts_bytes 0b0011 p @ ts_bytes 0b0001 d)"
  by (simp add: appendPESHeader_def and_maxTimestamp appendTimestamp_eq Let_def)

text \<open>The header the writer emits parses back to its 33-bit timestamps.\<close>

lemma parse_appendPESHeader:
  "parsePESHeader (appendPESHeader [] sid pts dts @ r) = Inr
     (let p = take_bit 33 pts; d = take_bit 33 dts; eq = (p = d) in
      \<lparr>streamID = sid, packetLength = 0, headerLength = (if eq then 14 else 19),
       hasPTS = True, hasDTS = (\<not> eq), pes_pts = p, pes_dts = (if eq then 0 else d)\<rparr>)"
proof -
  have s: "slice 9 14 ([a0, a1, a2, a3, a4, a5, a6, a7, a8] @ ts_bytes x y @ z) = ts_bytes x y"
    "slice 14 19 ([a0, a1, a2, a3, a4, a5, a6, a7, a8] @ ts_bytes x y @ ts_bytes v w @ z) = ts_bytes v w"
    for a0 a1 a2 a3 a4 a5 a6 a7 a8 x y z v w by (simp_all add: slice_def)
  show ?thesis
    unfolding appendPESHeader_eq Let_def parsePESHeader_def
    by (auto simp: s[simplified] parseTimestamp_ts_bytes)
qed

lemma length_appendPESHeader:
  "length (appendPESHeader [] sid pts dts) = (if take_bit 33 pts = take_bit 33 dts then 14 else 19)"
  by (simp add: appendPESHeader_eq Let_def)

end
