(* ===== verification/TsReader.thy ===== *)
theory TsReader
  imports TsPacket TsPes
begin

text \<open>
  The demultiplexer, \<open>mpegts/reader.go\<close>. The elementary streams, which the code reaches both
  through the map \<open>streams\<close> and through the slice \<open>order\<close>, are one list of records in creation
  order; \<open>streams\<close> maps a PID to a position in it. The packet buffer \<open>r.pkt\<close>, overwritten whole by
  every successful read, is passed as a value. Loops that consume the source are functions with a
  termination proof on the bytes left.
\<close>

section \<open>State\<close>

definition defaultMaxAccessUnitSize :: nat where "defaultMaxAccessUnitSize = push_bit 20 4"
definition timestampWrap :: int where "timestampWrap = 2 ^ 33"

record AccessUnit =
  au_Track :: track
  au_PTS :: int
  au_DTS :: int
  au_RandomAccess :: bool
  au_Data :: bytes

record esStream =
  es_track :: track
  es_buf :: bytes
  es_out :: bytes
  collecting :: bool
  hasCC :: bool
  es_cc :: u8
  es_pts :: int
  es_dts :: int
  es_rai :: bool
  lastTS :: int

record reader =
  r_src :: stream
  maxAUSize :: int
  r_pmtPID :: u16
  r_tracks :: "track list"
  r_streams :: "u16 \<rightharpoonup> nat"
  r_order :: "esStream list"
  flushIdx :: nat
  r_eof :: bool

section \<open>Packets and tables\<close>

definition readPacket :: "reader \<Rightarrow> (ts_error + bytes) \<times> reader" where
  "readPacket r = (case ReadFull packetSize (r_src r) of
     (Inr pkt, s) \<Rightarrow> (Inr pkt, r\<lparr>r_src := s\<rparr>)
   | (Inl e, s) \<Rightarrow> (Inl (if e = ErrUnexpectedEOF then EOF else e), r\<lparr>r_src := s\<rparr>))"

definition readPAT :: "bytes \<Rightarrow> reader \<Rightarrow> bool \<times> reader" where
  "readPAT sectionBytes r = (case parseSectionBytes sectionBytes of
     Inl _ \<Rightarrow> (False, r)
   | Inr sec \<Rightarrow> (case parsePAT sec of
       Inl _ \<Rightarrow> (False, r)
     | Inr [] \<Rightarrow> (False, r)
     | Inr (p # _) \<Rightarrow> (True, r\<lparr>r_pmtPID := pmtPID p\<rparr>)))"

definition new_esStream :: "track \<Rightarrow> esStream" where
  "new_esStream t = \<lparr>es_track = t, es_buf = [], es_out = [], collecting = False, hasCC = False,
     es_cc = 0, es_pts = 0, es_dts = 0, es_rai = False, lastTS = -1\<rparr>"

text \<open>The body of the loop over the streams of the program map.\<close>

definition add_track :: "pmtStream \<Rightarrow> reader \<Rightarrow> reader" where
  "add_track es r =
     (let codec = codecFromStreamType (streamType es) in
      if codec = CodecUnknown then r
      else let t = \<lparr>track_PID = stream_pid es, track_Codec = codec\<rparr> in
        r\<lparr>r_tracks := r_tracks r @ [t],
          r_streams := (r_streams r)(stream_pid es \<mapsto> length (r_order r)),
          r_order := r_order r @ [new_esStream t]\<rparr>)"

definition parsePMTSection :: "psiSection \<Rightarrow> pmt option" where
  "parsePMTSection sec = (case parsePMT sec of Inl _ \<Rightarrow> None | Inr table \<Rightarrow> Some table)"

definition readPMT :: "bytes \<Rightarrow> reader \<Rightarrow> (bool \<times> ts_error option) \<times> reader" where
  "readPMT sectionBytes r = (case parseSectionBytes sectionBytes of
     Inl _ \<Rightarrow> ((False, None), r)
   | Inr sec \<Rightarrow> (case parsePMTSection sec of
       None \<Rightarrow> ((False, None), r)
     | Some table \<Rightarrow>
         let r1 = fold add_track (pmt_streams table) r in
         if r_tracks r1 = [] then ((True, Some (Err errNoUsableProgram)), r1)
         else ((True, None), r1)))"

lemma readPacket_less: "readPacket r = (Inr pkt, r1) \<Longrightarrow> length (st_data (r_src r1)) < length (st_data (r_src r))"
  by (auto simp: readPacket_def ReadFull_def packetSize_def split: prod.splits sum.splits if_splits)

lemma readPAT_src [simp]: "readPAT sec r = (ok, r1) \<Longrightarrow> r_src r1 = r_src r"
  by (auto simp: readPAT_def split: sum.splits list.splits)

lemma add_track_src [simp]: "r_src (add_track es r) = r_src r"
  by (simp add: add_track_def Let_def)

lemma fold_add_track_src [simp]: "r_src (fold add_track ess r) = r_src r"
  by (induction ess arbitrary: r) simp_all

lemma readPMT_src [simp]: "readPMT sec r = (res, r1) \<Longrightarrow> r_src r1 = r_src r"
  by (auto simp: readPMT_def Let_def split: sum.splits option.splits if_splits)

text \<open>
  The loop of \<open>readTables\<close>. The outer \<open>None\<close> is a run-time panic inside the section assembler;
  \<open>Some (None, r)\<close> is a nil error.
\<close>

function readTables_loop ::
  "bool \<Rightarrow> sectionAssembler \<Rightarrow> sectionAssembler \<Rightarrow> reader \<Rightarrow> (ts_error option \<times> reader) option" where
  "readTables_loop havePAT patAsm pmtAsm r = (case readPacket r of
     (Inl e, r1) \<Rightarrow> Some (Some (if e = EOF then Err errNoUsableProgram else e), r1)
   | (Inr pkt, r1) \<Rightarrow> (case parsePacketHeader pkt of
       Inl _ \<Rightarrow> readTables_loop havePAT patAsm pmtAsm r1
     | Inr hdr \<Rightarrow>
         if transportError hdr then readTables_loop havePAT patAsm pmtAsm r1
         else (case packetPayload pkt hdr of
             Inl _ \<Rightarrow> readTables_loop havePAT patAsm pmtAsm r1
           | Inr (None, _) \<Rightarrow> readTables_loop havePAT patAsm pmtAsm r1
           | Inr (Some payload, _) \<Rightarrow>
               if hdr_pid hdr = pidPAT \<and> \<not> havePAT then
                 (case feed (payloadUnitStart hdr) payload patAsm of
                    None \<Rightarrow> None
                  | Some (None, a) \<Rightarrow> readTables_loop havePAT a pmtAsm r1
                  | Some (Some sec, a) \<Rightarrow>
                      (case readPAT sec r1 of (ok, r2) \<Rightarrow> readTables_loop ok a pmtAsm r2))
               else if havePAT \<and> hdr_pid hdr = r_pmtPID r1 then
                 (case feed (payloadUnitStart hdr) payload pmtAsm of
                    None \<Rightarrow> None
                  | Some (None, a) \<Rightarrow> readTables_loop havePAT patAsm a r1
                  | Some (Some sec, a) \<Rightarrow>
                      (case readPMT sec r1 of
                         ((_, Some e), r2) \<Rightarrow> Some (Some e, r2)
                       | ((True, None), r2) \<Rightarrow> Some (None, r2)
                       | ((False, None), r2) \<Rightarrow> readTables_loop havePAT patAsm a r2))
               else readTables_loop havePAT patAsm pmtAsm r1)))"
  by pat_completeness auto
termination
  by (relation "measure (\<lambda>(_, _, _, r). length (st_data (r_src r)))")
     (auto dest!: readPacket_less[OF sym] dest: readPAT_src[OF sym] readPMT_src[OF sym] simp del: readPAT_src readPMT_src)

declare readTables_loop.simps [simp del]

definition readTables :: "reader \<Rightarrow> (ts_error option \<times> reader) option" where
  "readTables r = readTables_loop False new_assembler new_assembler r"

section \<open>Construction\<close>

type_synonym reader_option = "reader \<Rightarrow> ts_error option \<times> reader"

definition WithMaxAccessUnitSize :: "int \<Rightarrow> reader_option" where
  "WithMaxAccessUnitSize n r =
     (if n \<le> 0 then (Some (Err errInvalidMaxAUSize), r) else (None, r\<lparr>maxAUSize := n\<rparr>))"

fun apply_reader_options :: "reader_option list \<Rightarrow> reader \<Rightarrow> ts_error option \<times> reader" where
  "apply_reader_options [] r = (None, r)"
| "apply_reader_options (opt # opts) r = (case opt r of
     (Some e, r1) \<Rightarrow> (Some e, r1)
   | (None, r1) \<Rightarrow> apply_reader_options opts r1)"

definition initial_reader :: "stream \<Rightarrow> reader" where
  "initial_reader src = \<lparr>r_src = src, maxAUSize = int defaultMaxAccessUnitSize, r_pmtPID = 0, r_tracks = [],
     r_streams = Map.empty, r_order = [], flushIdx = 0, r_eof = False\<rparr>"

definition NewReader :: "stream \<Rightarrow> reader_option list \<Rightarrow> (ts_error + reader) option" where
  "NewReader src opts = (case apply_reader_options opts (initial_reader src) of
     (Some e, _) \<Rightarrow> Some (Inl e)
   | (None, r) \<Rightarrow> (case readTables r of
       None \<Rightarrow> None
     | Some (Some e, _) \<Rightarrow> Some (Inl e)
     | Some (None, r1) \<Rightarrow> Some (Inr r1)))"

definition Tracks :: "reader \<Rightarrow> track list" where
  "Tracks r = r_tracks r"

section \<open>Elementary streams\<close>

text \<open>\<open>reference >= 0\<close> in the last branches, so Go's truncating \<open>%\<close> is \<open>mod\<close>.\<close>

definition extendTimestamp :: "int \<Rightarrow> int \<Rightarrow> int" where
  "extendTimestamp reference ts33 =
     (if reference < 0 then ts33
      else let candidate = i64 (reference - reference mod timestampWrap + ts33) in
      if candidate < reference - timestampWrap div 2 then i64 (candidate + timestampWrap)
      else if candidate > i64 (reference + timestampWrap div 2) then i64 (candidate - timestampWrap)
      else candidate)"

definition finish :: "esStream \<Rightarrow> AccessUnit option \<times> esStream" where
  "finish s =
     (if \<not> collecting s \<or> es_buf s = [] then (None, s\<lparr>collecting := False\<rparr>)
      else let s1 = s\<lparr>es_buf := [], es_out := es_buf s, collecting := False\<rparr> in
        (Some \<lparr>au_Track = es_track s1, au_PTS = es_pts s1, au_DTS = es_dts s1,
               au_RandomAccess = es_rai s1, au_Data = es_out s1\<rparr>, s1))"

definition startUnit :: "bool \<Rightarrow> bytes \<Rightarrow> esStream \<Rightarrow> esStream" where
  "startUnit rai payload s = (case parsePESHeader payload of
     Inl _ \<Rightarrow> s\<lparr>collecting := False\<rparr>
   | Inr hdr \<Rightarrow>
       if \<not> hasPTS hdr then s\<lparr>collecting := False\<rparr>
       else let dts33 = (if hasDTS hdr then pes_dts hdr else pes_pts hdr);
                dts = extendTimestamp (lastTS s) dts33 in
         s\<lparr>lastTS := dts, es_pts := extendTimestamp dts (pes_pts hdr), es_dts := dts, es_rai := rai,
           es_buf := drop (headerLength hdr) payload, collecting := True\<rparr>)"

definition handleES :: "int \<Rightarrow> packetHeader \<Rightarrow> bool \<Rightarrow> bytes \<Rightarrow> esStream \<Rightarrow> AccessUnit option \<times> esStream" where
  "handleES max_size hdr rai payload s =
     (if hasCC s \<and> continuityCounter hdr = es_cc s \<and> \<not> payloadUnitStart hdr then (None, s)
      else let
        s1 = (if hasCC s \<and> continuityCounter hdr \<noteq> (es_cc s + 1) AND 0x0F
              then s\<lparr>es_buf := [], collecting := False\<rparr> else s);
        s2 = s1\<lparr>es_cc := continuityCounter hdr, hasCC := True\<rparr> in
      if payloadUnitStart hdr then
        (case finish s2 of (completed, s3) \<Rightarrow> (completed, startUnit rai payload s3))
      else if \<not> collecting s2 then (None, s2)
      else let s3 = s2\<lparr>es_buf := es_buf s2 @ payload\<rparr> in
        if int (length (es_buf s3)) > max_size then (None, s3\<lparr>es_buf := [], collecting := False\<rparr>)
        else (None, s3))"

definition handlePacket :: "bytes \<Rightarrow> reader \<Rightarrow> AccessUnit option \<times> reader" where
  "handlePacket pkt r = (case parsePacketHeader pkt of
     Inl _ \<Rightarrow> (None, r)
   | Inr hdr \<Rightarrow>
       if transportError hdr \<or> scramblingControl hdr \<noteq> 0 then (None, r)
       else (case r_streams r (hdr_pid hdr) of
           None \<Rightarrow> (None, r)
         | Some i \<Rightarrow> (case packetPayload pkt hdr of
             Inl _ \<Rightarrow> (None, r)
           | Inr (None, _) \<Rightarrow> (None, r)
           | Inr (Some payload, af) \<Rightarrow>
               (case handleES (maxAUSize r) hdr (randomAccess af) payload (r_order r ! i) of
                  (au, s) \<Rightarrow> (au, r\<lparr>r_order := (r_order r)[i := s]\<rparr>)))))"

text \<open>The flush loop at the end of the input.\<close>

function flush :: "reader \<Rightarrow> (ts_error + AccessUnit) \<times> reader" where
  "flush r =
     (if flushIdx r < length (r_order r) then
        (case finish (r_order r ! flushIdx r) of
           (au, s) \<Rightarrow>
             let r1 = r\<lparr>r_order := (r_order r)[flushIdx r := s], flushIdx := flushIdx r + 1\<rparr> in
             (case au of Some a \<Rightarrow> (Inr a, r1) | None \<Rightarrow> flush r1))
      else (Inl EOF, r))"
  by pat_completeness auto
termination
  by (relation "measure (\<lambda>r. length (r_order r) - flushIdx r)") auto

declare flush.simps [simp del]

lemma handlePacket_src [simp]: "r_src (snd (handlePacket pkt r)) = r_src r"
  by (auto simp: handlePacket_def split: sum.splits option.splits prod.splits)

function NextAccessUnit :: "reader \<Rightarrow> (ts_error + AccessUnit) \<times> reader" where
  "NextAccessUnit r =
     (if r_eof r then flush r
      else (case readPacket r of
          (Inl e, r1) \<Rightarrow> if e = EOF then NextAccessUnit (r1\<lparr>r_eof := True\<rparr>) else (Inl e, r1)
        | (Inr pkt, r1) \<Rightarrow> (case handlePacket pkt r1 of
              (Some au, r2) \<Rightarrow> (Inr au, r2)
            | (None, r2) \<Rightarrow> NextAccessUnit r2)))"
  by pat_completeness auto
termination
proof (relation "measures [\<lambda>r. length (st_data (r_src r)), \<lambda>r. if r_eof r then 0 else 1]", goal_cases)
  case 1
  then show ?case by simp
next
  case (2 r x r1 e)
  then have "length (st_data (r_src r1)) \<le> length (st_data (r_src r))"
    by (auto simp: readPacket_def ReadFull_def split: prod.splits sum.splits if_splits)
  with 2 show ?case by auto
next
  case (3 r x r1 pkt y r2)
  then have "length (st_data (r_src r1)) < length (st_data (r_src r))" by (auto dest: readPacket_less[OF sym])
  moreover have "r_src r2 = r_src r1" using 3 handlePacket_src[of pkt r1] by (metis snd_conv)
  ultimately show ?case by simp
qed

declare NextAccessUnit.simps [simp del]

section \<open>Timestamps\<close>

lemma extendTimestamp_eq:
  assumes "0 \<le> reference" "reference < 2 ^ 62" "\<bar>ts - reference\<bar> < 2 ^ 32"
  shows "extendTimestamp reference (take_bit 33 ts) = ts"
proof -
  define W q where "W = (2 :: int) ^ 33" and "q = reference div W"
  have W: "W = 8589934592" by (simp add: W_def)
  define r t where "r = reference mod W" and "t = ts mod W"
  have rt: "0 \<le> r" "r < W" "0 \<le> t" "t < W" by (simp_all add: r_def t_def W)
  have ref: "reference = q * W + r" and ts: "ts = (ts div W) * W + t"
    by (simp_all add: q_def r_def t_def)
  define d where "d = ts div W - q"
  have dW: "d * W = ts - reference + r - t" using ref ts by (simp add: d_def algebra_simps)
  then have "d < 2" "-2 < d" using assms(3) rt unfolding W by (simp_all split: abs_split)
  then have d: "d = -1 \<or> d = 0 \<or> d = 1" by linarith
  have i: "i64 (q * W + t) = q * W + t" "i64 (q * W + t + W) = q * W + t + W" "i64 (q * W + t - W) = q * W + t - W"
    "i64 (reference + 2 ^ 32) = reference + 2 ^ 32"
    using assms(1,2) rt ref W by (intro i64_id; simp)+
  have "ts = q * W + t + d * W" using ref dW by simp
  then have "ts = q * W + t + W \<or> ts = q * W + t \<or> ts = q * W + t - W" using d by auto
  moreover have "reference - reference mod W + take_bit 33 ts = q * W + t"
    using ref by (simp add: r_def t_def take_bit_eq_mod W_def)
  ultimately show ?thesis using assms(1,3) i W
    unfolding extendTimestamp_def timestampWrap_def W_def[symmetric] Let_def by (auto simp: abs_if split: if_splits)
qed

section \<open>What a packet says\<close>

text \<open>The parts of a packet that \<open>handlePacket\<close> uses, when it does not drop the packet.\<close>

definition pkt_view :: "bytes \<Rightarrow> (packetHeader \<times> bool \<times> bytes) option" where
  "pkt_view pkt = (case parsePacketHeader pkt of
     Inl _ \<Rightarrow> None
   | Inr hdr \<Rightarrow>
       if transportError hdr \<or> scramblingControl hdr \<noteq> 0 then None
       else (case packetPayload pkt hdr of
           Inr (Some payload, af) \<Rightarrow> Some (hdr, randomAccess af, payload)
         | _ \<Rightarrow> None))"

lemma handlePacket_view:
  "handlePacket pkt r = (case pkt_view pkt of
     None \<Rightarrow> (None, r)
   | Some (hdr, rai, payload) \<Rightarrow> (case r_streams r (hdr_pid hdr) of
       None \<Rightarrow> (None, r)
     | Some i \<Rightarrow> (case handleES (maxAUSize r) hdr rai payload (r_order r ! i) of
         (au, s) \<Rightarrow> (au, r\<lparr>r_order := (r_order r)[i := s]\<rparr>))))"
  by (auto simp: handlePacket_def pkt_view_def split: sum.splits option.splits prod.splits)

text \<open>The packets of one elementary stream.\<close>

definition on_pid :: "u16 \<Rightarrow> bytes \<Rightarrow> bool" where
  "on_pid pid pkt \<longleftrightarrow> (case pkt_view pkt of None \<Rightarrow> False | Some (hdr, _) \<Rightarrow> hdr_pid hdr = pid)"

section \<open>A run of packets, over the reader and over one stream\<close>

fun deliver :: "bytes list \<Rightarrow> reader \<Rightarrow> AccessUnit list \<times> reader" where
  "deliver [] r = ([], r)"
| "deliver (p # ps) r = (case handlePacket p r of
     (au, r1) \<Rightarrow> (case deliver ps r1 of (aus, r2) \<Rightarrow> ((case au of None \<Rightarrow> aus | Some a \<Rightarrow> a # aus), r2)))"

definition es_step :: "int \<Rightarrow> bytes \<Rightarrow> esStream \<Rightarrow> AccessUnit option \<times> esStream" where
  "es_step max_size pkt s = (case pkt_view pkt of
     None \<Rightarrow> (None, s) | Some (hdr, rai, payload) \<Rightarrow> handleES max_size hdr rai payload s)"

fun es_run :: "int \<Rightarrow> bytes list \<Rightarrow> esStream \<Rightarrow> AccessUnit list \<times> esStream" where
  "es_run m [] s = ([], s)"
| "es_run m (p # ps) s = (case es_step m p s of
     (au, s1) \<Rightarrow> (case es_run m ps s1 of (aus, s2) \<Rightarrow> ((case au of None \<Rightarrow> aus | Some a \<Rightarrow> a # aus), s2)))"

lemma es_run_append:
  "es_run m (ps @ qs) s = (case es_run m ps s of (aus, s1) \<Rightarrow>
     (case es_run m qs s1 of (bus, s2) \<Rightarrow> (aus @ bus, s2)))"
  by (induction ps arbitrary: s) (auto split: prod.splits option.splits)

text \<open>The streams a reader keeps are those of its map, each under the PID of its track.\<close>

definition streams_ok :: "reader \<Rightarrow> bool" where
  "streams_ok r \<longleftrightarrow>
     (\<forall>p i. r_streams r p = Some i \<longrightarrow> i < length (r_order r) \<and> track_PID (es_track (r_order r ! i)) = p)"

lemma finish_track: "finish s = (au, s') \<Longrightarrow> es_track s' = es_track s"
  by (auto simp: finish_def Let_def split: if_splits)

lemma finish_au_track: "finish s = (Some a, s') \<Longrightarrow> au_Track a = es_track s"
  by (auto simp: finish_def Let_def split: if_splits)

lemma startUnit_track [simp]: "es_track (startUnit rai p s) = es_track s"
  by (simp add: startUnit_def Let_def split: sum.split)

lemma handleES_track:
  assumes "handleES m hdr rai p s = (au, s')"
  shows "es_track s' = es_track s" "au = Some a \<Longrightarrow> au_Track a = es_track s"
  using assms by (auto simp: handleES_def Let_def dest: finish_au_track finish_track split: if_splits prod.splits)

lemma nth_update_same: "f x = f (xs ! i) \<Longrightarrow> j < length xs \<Longrightarrow> f (xs[i := x] ! j) = f (xs ! j)"
  by (cases "i = j") simp_all

lemma map_update_same: "f x = f (xs ! i) \<Longrightarrow> map f (xs[i := x]) = map f xs"
  by (rule nth_equalityI) (simp_all add: nth_update_same)

lemma handlePacket_streams:
  assumes "streams_ok r" "handlePacket pkt r = (au, r')"
  shows "streams_ok r'" "r_streams r' = r_streams r" "maxAUSize r' = maxAUSize r" "flushIdx r' = flushIdx r"
    "r_eof r' = r_eof r" "r_src r' = r_src r" "length (r_order r') = length (r_order r)"
    "map es_track (r_order r') = map es_track (r_order r)"
proof -
  have 1: "streams_ok (r\<lparr>r_order := (r_order r)[i := s]\<rparr>)" if "es_track s = es_track (r_order r ! i)" for i s
    using assms(1) nth_update_same[of es_track, OF that] by (simp add: streams_ok_def)
  have 2: "map es_track ((r_order r)[i := s]) = map es_track (r_order r)" if "es_track s = es_track (r_order r ! i)" for i s
    using map_update_same[of es_track, OF that] .
  show "streams_ok r'" "r_streams r' = r_streams r" "maxAUSize r' = maxAUSize r" "flushIdx r' = flushIdx r"
    "r_eof r' = r_eof r" "r_src r' = r_src r" "length (r_order r') = length (r_order r)"
    "map es_track (r_order r') = map es_track (r_order r)"
    using assms 1 2 by (auto simp: handlePacket_view dest!: handleES_track(1) split: option.splits prod.splits)
qed

lemma handlePacket_project:
  assumes "streams_ok r" "r_streams r p = Some i" "handlePacket pkt r = (au, r')"
  shows "if on_pid p pkt then es_step (maxAUSize r) pkt (r_order r ! i) = (au, r_order r' ! i)
           \<and> (\<forall>a. au = Some a \<longrightarrow> track_PID (au_Track a) = p)
         else r_order r' ! i = r_order r ! i \<and> (\<forall>a. au = Some a \<longrightarrow> track_PID (au_Track a) \<noteq> p)"
proof (cases "pkt_view pkt")
  case None
  then show ?thesis using assms by (simp add: handlePacket_view on_pid_def)
next
  case (Some v)
  obtain hdr rai pl where v: "pkt_view pkt = Some (hdr, rai, pl)" using Some by (cases v) auto
  have i: "i < length (r_order r)" "track_PID (es_track (r_order r ! i)) = p" using assms(1,2) by (auto simp: streams_ok_def)
  show ?thesis
  proof (cases "hdr_pid hdr = p")
    case True
    obtain au1 s1 where h: "handleES (maxAUSize r) hdr rai pl (r_order r ! i) = (au1, s1)" by fastforce
    then show ?thesis using True assms(2,3) v i handleES_track(2)[OF h]
      by (auto simp: handlePacket_view on_pid_def es_step_def)
  next
    case False
    then show ?thesis using assms v i
      by (auto simp: handlePacket_view on_pid_def streams_ok_def dest: handleES_track(2) split: option.splits prod.splits)
        (metis nth_list_update_neq)+
  qed
qed

lemma deliver_streams:
  assumes "streams_ok r" "deliver ps r = (aus, r')"
  shows "streams_ok r' \<and> r_streams r' = r_streams r \<and> maxAUSize r' = maxAUSize r \<and> flushIdx r' = flushIdx r
    \<and> r_eof r' = r_eof r \<and> r_src r' = r_src r \<and> length (r_order r') = length (r_order r)
    \<and> map es_track (r_order r') = map es_track (r_order r)"
  using assms
proof (induction ps arbitrary: r aus)
  case (Cons p ps)
  obtain au r1 aus1 where h: "handlePacket p r = (au, r1)" "deliver ps r1 = (aus1, r')"
    using Cons.prems(2) by (auto split: prod.splits)
  note st = handlePacket_streams[OF Cons.prems(1) h(1)]
  from Cons.IH[OF st(1) h(2)] show ?case by (simp only: st)
qed simp

text \<open>
  What the reader returns for one PID, and the state it keeps for it, depend on the packets of
  that PID alone, in their order.
\<close>

lemma deliver_project:
  assumes "streams_ok r" "r_streams r p = Some i" "deliver ps r = (aus, r')"
  shows "es_run (maxAUSize r) (filter (on_pid p) ps) (r_order r ! i) =
    (filter (\<lambda>a. track_PID (au_Track a) = p) aus, r_order r' ! i)"
  using assms
proof (induction ps arbitrary: r aus)
  case (Cons pkt ps)
  obtain au r1 aus1 where h: "handlePacket pkt r = (au, r1)" "deliver ps r1 = (aus1, r')"
    and aus: "aus = (case au of None \<Rightarrow> aus1 | Some a \<Rightarrow> a # aus1)"
    using Cons.prems(3) by (auto split: prod.splits)
  note st = handlePacket_streams[OF Cons.prems(1) h(1)]
  have "es_run (maxAUSize r) (filter (on_pid p) ps) (r_order r1 ! i) =
    (filter (\<lambda>a. track_PID (au_Track a) = p) aus1, r_order r' ! i)"
    using Cons.IH[OF st(1) _ h(2)] Cons.prems(2) st(2,3) by simp
  then show ?case using handlePacket_project[OF Cons.prems(1,2) h(1)]
    by (auto simp: aus split: option.splits if_splits)
qed simp

section \<open>Draining a reader\<close>

lemma NextAccessUnit_packet:
  assumes "\<not> r_eof r" "st_data (r_src r) = p @ d" "length p = packetSize"
  shows "NextAccessUnit r = (case handlePacket p (r\<lparr>r_src := (r_src r)\<lparr>st_data := d\<rparr>\<rparr>) of
     (Some au, r2) \<Rightarrow> (Inr au, r2) | (None, r2) \<Rightarrow> NextAccessUnit r2)"
  using assms by (subst NextAccessUnit.simps) (simp add: readPacket_def ReadFull_append[OF assms(2,3)])

lemma handlePacket_src_upd:
  "handlePacket p (r\<lparr>r_src := s\<rparr>) = (case handlePacket p r of (au, r1) \<Rightarrow> (au, r1\<lparr>r_src := s\<rparr>))"
  by (auto simp: handlePacket_view split: option.splits prod.splits)

lemma reads_step_None:
  "NextAccessUnit r = NextAccessUnit r1 \<Longrightarrow> aus \<noteq> [] \<Longrightarrow>
     reads NextAccessUnit r aus r' = reads NextAccessUnit r1 aus r'"
  by (cases aus) simp_all

text \<open>
  A reader over whole packets returns the units the packets complete, and then behaves as it
  does at the end of those packets.
\<close>

lemma reads_deliver:
  assumes "\<not> r_eof r" "st_data (r_src r) = concat ps @ d" "\<forall>p \<in> set ps. length p = packetSize"
    and "deliver ps r = (aus, r')"
  shows "\<exists>r1. reads NextAccessUnit r aus r1 \<and>
     NextAccessUnit r1 = NextAccessUnit (r'\<lparr>r_src := (r_src r)\<lparr>st_data := d\<rparr>\<rparr>)"
  using assms
proof (induction ps arbitrary: r r' aus)
  case Nil
  then have "r' = r" "aus = []" "r\<lparr>r_src := (r_src r)\<lparr>st_data := d\<rparr>\<rparr> = r" by simp_all
  then show ?case by (intro exI[of _ r]) simp
next
  case (Cons p ps)
  let ?s = "(r_src r)\<lparr>st_data := concat ps @ d\<rparr>"
  obtain au r1 aus1 where h: "handlePacket p r = (au, r1)" "deliver ps r1 = (aus1, r')"
    and aus: "aus = (case au of None \<Rightarrow> aus1 | Some a \<Rightarrow> a # aus1)"
    using Cons.prems(4) by (auto split: prod.splits)
  have next1: "NextAccessUnit r = (case au of Some a \<Rightarrow> (Inr a, r1\<lparr>r_src := ?s\<rparr>) | None \<Rightarrow> NextAccessUnit (r1\<lparr>r_src := ?s\<rparr>))"
    using NextAccessUnit_packet[OF Cons.prems(1), of p "concat ps @ d"] Cons.prems(2,3) h(1)
    by (auto simp: handlePacket_src_upd split: option.splits)
  have eof: "\<not> r_eof r1" using Cons.prems(1) h(1)
    by (auto simp: handlePacket_view split: option.splits prod.splits)
  have d1: "deliver ps (r1\<lparr>r_src := ?s\<rparr>) = (aus1, r'\<lparr>r_src := ?s\<rparr>)"
  proof -
    have "deliver ps (q\<lparr>r_src := s\<rparr>) = (case deliver ps q of (a, b) \<Rightarrow> (a, b\<lparr>r_src := s\<rparr>))" for q s
      by (induction ps arbitrary: q) (auto simp: handlePacket_src_upd split: prod.splits option.splits)
    then show ?thesis using h(2) by simp
  qed
  obtain r2 where r2: "reads NextAccessUnit (r1\<lparr>r_src := ?s\<rparr>) aus1 r2"
     "NextAccessUnit r2 = NextAccessUnit (r'\<lparr>r_src := (r_src r)\<lparr>st_data := d\<rparr>\<rparr>)"
    using Cons.IH[OF _ _ _ d1] eof Cons.prems(3) by auto
  show ?case
  proof (cases au)
    case (Some a)
    then show ?thesis using r2 next1 aus by auto
  next
    case None
    then show ?thesis using r2 next1 aus reads_step_None[of r "r1\<lparr>r_src := ?s\<rparr>" aus1]
      by (cases aus1) auto
  qed
qed

text \<open>The units that the streams still hold, which the flush at the end of the input returns.\<close>

definition pending :: "esStream list \<Rightarrow> AccessUnit list" where
  "pending ss = concat (map (\<lambda>s. case fst (finish s) of None \<Rightarrow> [] | Some a \<Rightarrow> [a]) ss)"

lemma reads_flush:
  assumes "r_eof r"
  shows "\<exists>r1. reads NextAccessUnit r (pending (drop (flushIdx r) (r_order r))) r1 \<and> fst (NextAccessUnit r1) = Inl EOF"
  using assms
proof (induction "length (r_order r) - flushIdx r" arbitrary: r rule: less_induct)
  case less
  have nx: "NextAccessUnit q = flush q" if "r_eof q" for q using that by (subst NextAccessUnit.simps) simp
  show ?case
  proof (cases "flushIdx r < length (r_order r)")
    case False
    then show ?thesis using nx[OF less.prems] by (subst (asm) flush.simps) (auto simp: pending_def)
  next
    case True
    obtain au s where f: "finish (r_order r ! flushIdx r) = (au, s)" by fastforce
    define q where "q = r\<lparr>r_order := (r_order r)[flushIdx r := s], flushIdx := flushIdx r + 1\<rparr>"
    define rest where "rest = pending (drop (flushIdx q) (r_order q))"
    have q: "r_eof q" using less.prems by (simp add: q_def)
    have fl: "NextAccessUnit r = (case au of Some a \<Rightarrow> (Inr a, q) | None \<Rightarrow> NextAccessUnit q)"
      unfolding nx[OF less.prems] nx[OF q] using True f by (subst flush.simps) (simp add: Let_def q_def split: option.split)
    have p: "pending (drop (flushIdx r) (r_order r)) = (case au of None \<Rightarrow> [] | Some a \<Rightarrow> [a]) @ rest"
      using True f by (simp add: pending_def Cons_nth_drop_Suc[symmetric] q_def rest_def)
    have dec: "length (r_order q) - flushIdx q < length (r_order r) - flushIdx r"
      using True by (simp add: q_def)
    obtain r1 where r1: "reads NextAccessUnit q rest r1" "fst (NextAccessUnit r1) = Inl EOF"
      using less.hyps[OF dec q] unfolding rest_def by blast
    show ?thesis
    proof (cases au)
      case None
      show ?thesis
      proof (cases rest)
        case Nil
        then show ?thesis unfolding p using None fl r1 by auto
      next
        case (Cons a as)
        then show ?thesis unfolding p using None fl r1 reads_step_None[of r q rest] by auto
      qed
    next
      case (Some a)
      then show ?thesis unfolding p using fl r1 by auto
    qed
  qed
qed

lemma NextAccessUnit_end:
  assumes "st_data (r_src r) = []" "st_end (r_src r) = None" "\<not> r_eof r"
  shows "NextAccessUnit r = NextAccessUnit (r\<lparr>r_eof := True\<rparr>)"
  using assms by (subst NextAccessUnit.simps)
    (simp add: readPacket_def ReadFull_end packetSize_def end_error_def)

lemma reads_whole:
  assumes "\<not> r_eof r" "r_src r = \<lparr>st_data = concat ps, st_end = None\<rparr>" "\<forall>p \<in> set ps. length p = packetSize"
    and "streams_ok r" "flushIdx r = 0" "deliver ps r = (aus, r')"
  shows "\<exists>r2. reads NextAccessUnit r (aus @ pending (r_order r')) r2 \<and> fst (NextAccessUnit r2) = Inl EOF"
proof -
  let ?r = "r'\<lparr>r_src := \<lparr>st_data = [], st_end = None\<rparr>\<rparr>"
  obtain r1 where r1: "reads NextAccessUnit r aus r1" "NextAccessUnit r1 = NextAccessUnit ?r"
    using reads_deliver[OF assms(1) _ assms(3,6), of "[]"] assms(2) by auto
  have "\<not> r_eof r'" "flushIdx r' = 0" using deliver_streams[OF assms(4,6)] assms(1,5) by simp_all
  then have e: "NextAccessUnit r1 = NextAccessUnit (?r\<lparr>r_eof := True\<rparr>)"
    using NextAccessUnit_end[of ?r] r1(2) by simp
  obtain r2 where r2: "reads NextAccessUnit (?r\<lparr>r_eof := True\<rparr>) (pending (r_order r')) r2" "fst (NextAccessUnit r2) = Inl EOF"
    using reads_flush[of "?r\<lparr>r_eof := True\<rparr>"] \<open>flushIdx r' = 0\<close> by auto
  show ?thesis
  proof (cases "pending (r_order r')")
    case Nil
    then show ?thesis using r1(1) e r2 by auto
  next
    case (Cons a as)
    then have "reads NextAccessUnit r1 (pending (r_order r')) r2" using r2(1) e by simp
    then show ?thesis using reads_append[OF r1(1)] r2(2) by blast
  qed
qed

section \<open>Every input\<close>

lemma feed_payload: "packetPayload pkt hdr = Inr (Some p, af) \<Longrightarrow> \<exists>res a'. feed u p a = Some (res, a')"
  using packetPayload_bounds(1)[of pkt hdr p af] feed_panics_iff[of u p a] by auto

text \<open>The section assembler is never fed an empty payload, so reading the tables never panics.\<close>

lemma readTables_loop_total: "\<exists>res. readTables_loop havePAT patAsm pmtAsm r = Some res"
proof (induction "length (st_data (r_src r))" arbitrary: havePAT patAsm pmtAsm r rule: less_induct)
  case less
  show ?case
  proof (cases "readPacket r")
    case (Pair res r1)
    show ?thesis
    proof (cases res)
      case (Inl e)
      then show ?thesis using Pair by (subst readTables_loop.simps) simp
    next
      case (Inr pkt)
      then have lt: "length (st_data (r_src r1)) < length (st_data (r_src r))" using Pair readPacket_less by blast
      have ih: "\<exists>res. readTables_loop hp a b r2 = Some res" if "r_src r2 = r_src r1" for hp a b r2
        using less.hyps[of r2 hp a b] lt that by simp
      have pat: "\<exists>res. (case readPAT sec r1 of (ok, r2) \<Rightarrow> readTables_loop ok a b r2) = Some res" for sec a b
        using ih readPAT_src by (auto split: prod.split)
      have pmt: "\<exists>res. (case readPMT sec r1 of
                         ((_, Some e), r2) \<Rightarrow> Some (Some e, r2)
                       | ((True, None), r2) \<Rightarrow> Some (None, r2)
                       | ((False, None), r2) \<Rightarrow> readTables_loop hp a b r2) = Some res" for sec hp a b
        using ih readPMT_src[of sec r1] by (auto split: prod.split option.split bool.split)
      show ?thesis
      proof (cases "parsePacketHeader pkt")
        case hdr: (Inr hdr)
        show ?thesis
        proof (cases "packetPayload pkt hdr")
          case pl: (Inr v)
          obtain po af where v: "v = (po, af)" by fastforce
          show ?thesis
          proof (cases po)
            case (Some p)
            have pp: "packetPayload pkt hdr = Inr (Some p, af)" using pl v Some by simp
            obtain s1 a1 s2 a2 where f: "feed (payloadUnitStart hdr) p patAsm = Some (s1, a1)"
              "feed (payloadUnitStart hdr) p pmtAsm = Some (s2, a2)"
              using feed_payload[OF pp] by meson
            show ?thesis using Pair Inr hdr pp f ih[OF refl] pat pmt
              by (subst readTables_loop.simps) (simp split: option.split)
          qed (use Pair Inr hdr pl v ih[OF refl] in \<open>subst readTables_loop.simps, simp\<close>)
        qed (use Pair Inr hdr ih[OF refl] in \<open>subst readTables_loop.simps, simp\<close>)
      qed (use Pair Inr ih[OF refl] in \<open>subst readTables_loop.simps, simp\<close>)
    qed
  qed
qed

text \<open>
  \<open>NewReader\<close> returns a reader or an error: the section assembler is never fed an empty payload, on which its first index
  would be out of range.
\<close>

lemma NewReader_total: "\<exists>res. NewReader src opts = Some res"
proof (cases "apply_reader_options opts (initial_reader src)")
  case (Pair e r)
  then show ?thesis using readTables_loop_total[of False new_assembler new_assembler r]
    by (cases e) (auto simp: NewReader_def readTables_def split: option.split)
qed

section \<open>Bounds\<close>

text \<open>
  The buffer of a stream never exceeds the configured maximum, except that what the first packet
  of a unit brings, at most 175 bytes, is not compared with it.
\<close>

definition es_bounded :: "int \<Rightarrow> esStream \<Rightarrow> bool" where
  "es_bounded m s \<longleftrightarrow> int (length (es_buf s)) \<le> max m 175"

lemma finish_bounded: "es_bounded m s \<Longrightarrow> es_bounded m (snd (finish s))"
  by (auto simp: es_bounded_def finish_def Let_def)

lemma startUnit_bounded:
  assumes "es_bounded m s" "length p \<le> 184"
  shows "es_bounded m (startUnit rai p s)"
proof (cases "parsePESHeader p")
  case (Inr hdr)
  then have "9 \<le> headerLength hdr" by (auto simp: parsePESHeader_def Let_def split: if_splits)
  then show ?thesis using assms Inr by (auto simp: startUnit_def Let_def es_bounded_def)
qed (use assms in \<open>simp add: startUnit_def es_bounded_def\<close>)

lemma handleES_bounded:
  assumes "es_bounded m s" "length p \<le> 184" "handleES m hdr rai p s = (au, s')"
  shows "es_bounded m s'" "\<And>a. au = Some a \<Longrightarrow> au_Data a \<noteq> [] \<and> int (length (au_Data a)) \<le> max m 175"
proof -
  define s1 where "s1 = (if hasCC s \<and> continuityCounter hdr \<noteq> (es_cc s + 1) AND 0x0F
              then s\<lparr>es_buf := [], collecting := False\<rparr> else s)\<lparr>es_cc := continuityCounter hdr, hasCC := True\<rparr>"
  have s1: "es_bounded m s1" using assms(1) by (simp add: s1_def es_bounded_def)
  have au: "au_Data a \<noteq> [] \<and> int (length (au_Data a)) \<le> max m 175" if "fst (finish s1) = Some a" for a
    using that s1 by (auto simp: finish_def es_bounded_def Let_def split: if_splits)
  show "es_bounded m s'" "\<And>a. au = Some a \<Longrightarrow> au_Data a \<noteq> [] \<and> int (length (au_Data a)) \<le> max m 175"
    using assms(1,3) s1 au startUnit_bounded[OF finish_bounded[OF s1] assms(2), of rai]
    by (auto simp: handleES_def s1_def[symmetric] Let_def es_bounded_def split: if_splits prod.splits)
qed


lemma parse_payload_size: "packetPayload pkt hdr = Inr (Some p, af) \<Longrightarrow> length pkt = packetSize \<Longrightarrow> length p \<le> 184"
  using packetPayload_bounds(2)[of pkt hdr p af] by (simp add: packetSize_def)

definition reader_bounded :: "reader \<Rightarrow> bool" where
  "reader_bounded r \<longleftrightarrow> (\<forall>s \<in> set (r_order r). es_bounded (maxAUSize r) s) \<and>
     (\<forall>p i. r_streams r p = Some i \<longrightarrow> i < length (r_order r))"

definition unit_bounded :: "int \<Rightarrow> AccessUnit \<Rightarrow> bool" where
  "unit_bounded m a \<longleftrightarrow> au_Data a \<noteq> [] \<and> int (length (au_Data a)) \<le> max m 175"

lemma pkt_view_size: "pkt_view pkt = Some (hdr, rai, p) \<Longrightarrow> length pkt = packetSize \<Longrightarrow> length p \<le> 184"
  by (auto simp: pkt_view_def dest: parse_payload_size split: sum.splits if_splits option.splits)

lemma handlePacket_bounded:
  assumes "reader_bounded r" "length pkt = packetSize" "handlePacket pkt r = (au, r')"
  shows "reader_bounded r'" "maxAUSize r' = maxAUSize r" "\<And>a. au = Some a \<Longrightarrow> unit_bounded (maxAUSize r) a"
proof -
  have "reader_bounded r' \<and> maxAUSize r' = maxAUSize r \<and> (\<forall>a. au = Some a \<longrightarrow> unit_bounded (maxAUSize r) a)"
  proof (cases "pkt_view pkt")
    case None
    then show ?thesis using assms by (simp add: handlePacket_view)
  next
    case (Some v)
    obtain hdr rai p where v: "pkt_view pkt = Some (hdr, rai, p)" using Some by (cases v) auto
    show ?thesis
    proof (cases "r_streams r (hdr_pid hdr)")
      case None
      then show ?thesis using assms v by (simp add: handlePacket_view)
    next
      case (Some i)
      then have i: "i < length (r_order r)" using assms(1) by (auto simp: reader_bounded_def)
      obtain au1 s where h: "handleES (maxAUSize r) hdr rai p (r_order r ! i) = (au1, s)" by fastforce
      have b: "es_bounded (maxAUSize r) (r_order r ! i)" using assms(1) i by (simp add: reader_bounded_def)
      note hb = handleES_bounded[OF b pkt_view_size[OF v assms(2)] h]
      have "au = au1" "r' = r\<lparr>r_order := (r_order r)[i := s]\<rparr>" using assms(3) v Some h by (simp_all add: handlePacket_view)
      then show ?thesis using hb assms(1) set_update_subset_insert[of "r_order r" i s]
        by (auto simp: reader_bounded_def unit_bounded_def)
    qed
  qed
  then show "reader_bounded r'" "maxAUSize r' = maxAUSize r" "\<And>a. au = Some a \<Longrightarrow> unit_bounded (maxAUSize r) a" by blast+
qed

lemma flush_bounded:
  assumes "reader_bounded r" "flush r = (res, r')"
  shows "reader_bounded r' \<and> maxAUSize r' = maxAUSize r \<and> (\<forall>a. res = Inr a \<longrightarrow> unit_bounded (maxAUSize r) a)"
  using assms
proof (induction r rule: flush.induct)
  case (1 r)
  show ?case
  proof (cases "flushIdx r < length (r_order r)")
    case False
    then show ?thesis using "1.prems" by (subst (asm) flush.simps) auto
  next
    case True
    obtain au s where f: "finish (r_order r ! flushIdx r) = (au, s)" by fastforce
    define q where "q = r\<lparr>r_order := (r_order r)[flushIdx r := s], flushIdx := flushIdx r + 1\<rparr>"
    have b: "es_bounded (maxAUSize r) (r_order r ! flushIdx r)" using "1.prems"(1) True by (simp add: reader_bounded_def)
    have q: "reader_bounded q" "maxAUSize q = maxAUSize r"
      using "1.prems"(1) finish_bounded[OF b] f set_update_subset_insert[of "r_order r" "flushIdx r" s]
      by (auto simp: reader_bounded_def q_def)
    have a: "unit_bounded (maxAUSize r) a" if "au = Some a" for a
      using f b that by (auto simp: finish_def unit_bounded_def es_bounded_def Let_def split: if_splits)
    have fl: "flush r = (case au of Some a \<Rightarrow> (Inr a, q) | None \<Rightarrow> flush q)"
      using True f by (subst flush.simps) (simp add: Let_def q_def split: option.split)
    show ?thesis
    proof (cases au)
      case None
      then show ?thesis using "1.IH"[OF True f[symmetric] refl None] q fl "1.prems"(2) unfolding q_def by simp
    next
      case (Some a0)
      then show ?thesis using a q fl "1.prems"(2) by auto
    qed
  qed
qed

lemma NextAccessUnit_bounded:
  assumes "reader_bounded r" "NextAccessUnit r = (res, r')"
  shows "reader_bounded r' \<and> maxAUSize r' = maxAUSize r \<and> (\<forall>a. res = Inr a \<longrightarrow> unit_bounded (maxAUSize r) a)"
  using assms
proof (induction r rule: NextAccessUnit.induct)
  case (1 r)
  have src: "reader_bounded (q\<lparr>r_src := s\<rparr>) = reader_bounded q" "reader_bounded (q\<lparr>r_eof := b\<rparr>) = reader_bounded q" for q s b
    by (simp_all add: reader_bounded_def)
  show ?case
  proof (cases "r_eof r")
    case True
    then have "flush r = (res, r')" using "1.prems"(2) by (subst (asm) NextAccessUnit.simps) simp
    with flush_bounded "1.prems"(1) show ?thesis by blast
  next
    case False
    obtain x r1 where rp: "readPacket r = (x, r1)" by fastforce
    have r1: "reader_bounded r1" "maxAUSize r1 = maxAUSize r"
      using rp "1.prems"(1) by (auto simp: readPacket_def src split: prod.splits sum.splits)
    show ?thesis
    proof (cases x)
      case (Inl e)
      show ?thesis
      proof (cases "e = EOF")
        case True
        then have "NextAccessUnit (r1\<lparr>r_eof := True\<rparr>) = (res, r')"
          using "1.prems"(2) False rp Inl by (subst (asm) NextAccessUnit.simps) simp
        with "1.IH"(1)[OF False rp[symmetric] Inl True] r1 show ?thesis by (simp add: src)
      next
        case nEOF: False
        then show ?thesis using "1.prems"(2) False rp Inl r1 by (subst (asm) NextAccessUnit.simps) auto
      qed
    next
      case (Inr pkt)
      obtain au r2 where h: "handlePacket pkt r1 = (au, r2)" by fastforce
      have "length pkt = packetSize" using rp Inr
        by (auto simp: readPacket_def ReadFull_def split: prod.splits sum.splits if_splits)
      note hb = handlePacket_bounded[OF r1(1) this h]
      show ?thesis
      proof (cases au)
        case None
        then have "NextAccessUnit r2 = (res, r')"
          using "1.prems"(2) False rp Inr h by (subst (asm) NextAccessUnit.simps) simp
        with "1.IH"(2)[OF False rp[symmetric] Inr h[symmetric] None] hb r1 show ?thesis by simp
      next
        case (Some a)
        then show ?thesis using "1.prems"(2) False rp Inr h hb r1 by (subst (asm) NextAccessUnit.simps) auto
      qed
    qed
  qed
qed

end
