(* ===== verification/Annexb.thy ===== *)
theory Annexb
  imports GoIO
begin

text \<open>
  The splitter of Annex-B byte streams, \<open>internal/annexb/reader.go\<close>, which the H.264 and H.265
  readers share. The error for a missing start code is the one the client gave to \<open>New\<close>.
\<close>

section \<open>The program\<close>

record 'e annexb_reader =
  ab_stream :: stream
  invalidPrefix :: "'e error"
  ab_started :: bool

definition annexb_New :: "stream \<Rightarrow> 'e error \<Rightarrow> 'e annexb_reader" where
  "annexb_New s e = \<lparr>ab_stream = s, invalidPrefix = e, ab_started = False\<rparr>"

definition readPrefix :: "'e annexb_reader \<Rightarrow> 'e error option \<times> 'e annexb_reader" where
  "readPrefix r = (case Peek 4 (ab_stream r) of
     Inl e \<Rightarrow> (Some e, r)
   | Inr prefix \<Rightarrow>
       let discard = (\<lambda>size. case Discard size (ab_stream r) of (err, s) \<Rightarrow> (err, r\<lparr>ab_stream := s\<rparr>)) in
       if prefix ! 0 = 0 \<and> prefix ! 1 = 0 \<and> prefix ! 2 = 1 then discard 3
       else if prefix ! 0 = 0 \<and> prefix ! 1 = 0 \<and> prefix ! 2 = 0 \<and> prefix ! 3 = 1 then discard 4
       else (Some (invalidPrefix r), r))"

text \<open>
  The loop of \<open>Next\<close>. \<open>zeros\<close> counts the zero bytes at the end of \<open>data\<close>, so cutting
  \<open>min(zeros, 3)\<close> bytes off never runs past its start.
\<close>

function Next_loop :: "bytes \<Rightarrow> nat \<Rightarrow> stream \<Rightarrow> ('e error + bytes) \<times> stream" where
  "Next_loop data zeros s = (case ReadByte s of
     (Inl err, s1) \<Rightarrow> if err = EOF \<and> length data > 0 then (Inr data, s1) else (Inl err, s1)
   | (Inr readByte, s1) \<Rightarrow>
       if readByte = 1 \<and> zeros \<ge> 2 then
         let data1 = take (length data - min zeros 3) data in
         if length data1 > 0 then (Inr data1, s1) else Next_loop data1 0 s1
       else Next_loop (data @ [readByte]) (if readByte = 0 then zeros + 1 else 0) s1)"
  by pat_completeness auto
termination
  by (relation "measure (\<lambda>(_, _, s). length (st_data s))")
     (auto simp: ReadByte_def split: list.splits)

declare Next_loop.simps [simp del]

definition annexb_Next :: "'e annexb_reader \<Rightarrow> ('e error + bytes) \<times> 'e annexb_reader" where
  "annexb_Next r =
     (let run = (\<lambda>r. case Next_loop [] 0 (ab_stream r) of (res, s) \<Rightarrow> (res, r\<lparr>ab_stream := s\<rparr>)) in
      if ab_started r then run r
      else (case readPrefix r of
          (Some e, r1) \<Rightarrow> (Inl e, r1)
        | (None, r1) \<Rightarrow> run (r1\<lparr>ab_started := True\<rparr>)))"

section \<open>Returned units\<close>

lemma Next_loop_byte:
  "st_data s = b # d \<Longrightarrow> Next_loop data zeros s =
     (if b = 1 \<and> zeros \<ge> 2 then
        let data1 = take (length data - min zeros 3) data in
        if length data1 > 0 then (Inr data1, s\<lparr>st_data := d\<rparr>) else Next_loop data1 0 (s\<lparr>st_data := d\<rparr>)
      else Next_loop (data @ [b]) (if b = 0 then zeros + 1 else 0) (s\<lparr>st_data := d\<rparr>))"
  by (subst Next_loop.simps) (simp add: ReadByte_def)

lemma Next_loop_end:
  "st_data s = [] \<Longrightarrow> st_end s = None \<Longrightarrow> Next_loop data zeros s = (if data = [] then Inl EOF else Inr data, s)"
  by (subst Next_loop.simps) (simp add: ReadByte_def end_error_def)

lemma Next_loop_nonempty: "Next_loop data zeros s = (Inr out, s') \<Longrightarrow> out \<noteq> []"
proof (induction "length (st_data s)" arbitrary: data zeros s rule: less_induct)
  case less
  show ?case
  proof (cases "st_data s")
    case Nil
    then show ?thesis using less.prems by (subst (asm) Next_loop.simps) (auto simp: ReadByte_def split: if_splits)
  next
    case (Cons b d)
    then show ?thesis using less.prems less.hyps[of "s\<lparr>st_data := d\<rparr>"]
      by (auto simp: Next_loop_byte Let_def split: if_splits)
  qed
qed

lemma Next_loop_less: "Next_loop data zeros s = (Inr out, s') \<Longrightarrow> data = [] \<Longrightarrow> length (st_data s') < length (st_data s)"
proof -
  have le: "length (st_data s') \<le> length (st_data s)" if "Next_loop data zeros s = (res, s')" for data zeros s and res :: "'e error + bytes"
    using that
  proof (induction "length (st_data s)" arbitrary: data zeros s rule: less_induct)
    case less
    show ?case
    proof (cases "st_data s")
      case Nil
      then show ?thesis using less.prems by (subst (asm) Next_loop.simps) (auto simp: ReadByte_def split: if_splits)
    next
      case (Cons b d)
      then show ?thesis using less.prems less.hyps[of "s\<lparr>st_data := d\<rparr>"]
        by (fastforce simp: Next_loop_byte Let_def split: if_splits)
    qed
  qed
  assume *: "Next_loop data zeros s = (Inr out, s')" "data = []"
  show ?thesis
  proof (cases "st_data s")
    case Nil
    then show ?thesis using * by (subst (asm) Next_loop.simps) (auto simp: ReadByte_def split: if_splits)
  next
    case (Cons b d)
    then show ?thesis using * le[of _ _ "s\<lparr>st_data := d\<rparr>"]
      by (fastforce simp: Next_loop_byte Let_def split: if_splits)
  qed
qed

lemma readPrefix_le: "readPrefix r = (res, r') \<Longrightarrow> length (st_data (ab_stream r')) \<le> length (st_data (ab_stream r))"
  by (auto simp: readPrefix_def Discard_def Let_def split: sum.splits if_splits)

lemma annexb_Next_less:
  "annexb_Next r = (Inr out, r') \<Longrightarrow> length (st_data (ab_stream r')) < length (st_data (ab_stream r))"
  using Next_loop_less[of "[]" 0] readPrefix_le[of r]
  by (fastforce simp: annexb_Next_def Let_def split: if_splits prod.splits option.splits)

lemma annexb_Next_nonempty: "annexb_Next r = (Inr out, r') \<Longrightarrow> out \<noteq> []"
  by (auto simp: annexb_Next_def Let_def dest: Next_loop_nonempty split: if_splits prod.splits option.splits)

section \<open>Streams of units read back\<close>

definition start_code :: "bool \<Rightarrow> bytes" where
  "start_code long = (if long then [0, 0, 0, 1] else [0, 0, 1])"

text \<open>A byte stream: each unit behind a start code of three or four bytes.\<close>

fun annexb_bytes :: "(bool \<times> bytes) list \<Rightarrow> bytes" where
  "annexb_bytes [] = []"
| "annexb_bytes ((long, nal) # xs) = start_code long @ nal @ annexb_bytes xs"

fun has_start_code :: "bytes \<Rightarrow> bool" where
  "has_start_code (a # b # c # r) \<longleftrightarrow> a = 0 \<and> b = 0 \<and> c = 1 \<or> has_start_code (b # c # r)"
| "has_start_code _ \<longleftrightarrow> False"

definition nal_ok :: "bytes \<Rightarrow> bool" where
  "nal_ok nal \<longleftrightarrow> nal \<noteq> [] \<and> last nal \<noteq> 0 \<and> \<not> has_start_code nal"

text \<open>How many zeros end the bytes read so far.\<close>

fun zeros_after :: "nat \<Rightarrow> bytes \<Rightarrow> nat" where
  "zeros_after z [] = z"
| "zeros_after z (b # bs) = zeros_after (if b = 0 then z + 1 else 0) bs"

lemma zeros_after_last: "bs \<noteq> [] \<Longrightarrow> last bs \<noteq> 0 \<Longrightarrow> zeros_after z bs = 0"
  by (induction bs arbitrary: z) (auto split: if_splits)

lemma has_start_code_prefix: "has_start_code xs \<Longrightarrow> has_start_code (x # xs)"
  by (cases xs rule: has_start_code.cases) auto

lemma Next_loop_unit:
  assumes "\<not> has_start_code (replicate (min zeros 2) 0 @ nal)" "st_data s = nal @ r"
  shows "Next_loop data zeros s = Next_loop (data @ nal) (zeros_after zeros nal) (s\<lparr>st_data := r\<rparr>)"
  using assms
proof (induction nal arbitrary: data zeros s)
  case Nil
  then have "s\<lparr>st_data := r\<rparr> = s" by simp
  then show ?case by simp
next
  case (Cons b bs)
  have "\<not> (b = 1 \<and> zeros \<ge> 2)"
  proof
    assume "b = 1 \<and> zeros \<ge> 2"
    then have "replicate (min zeros 2) 0 @ b # bs = 0 # 0 # 1 # bs" by (simp add: min_absorb2 numeral_eq_Suc)
    with Cons.prems(1) show False by simp
  qed
  moreover have "\<not> has_start_code (replicate (min (if b = 0 then zeros + 1 else 0) 2) 0 @ bs)"
  proof (cases "b = 0")
    case True
    consider "zeros = 0" | "zeros = 1" | "zeros \<ge> 2" by linarith
    then show ?thesis using Cons.prems(1) True
      by cases (auto simp: numeral_eq_Suc min_absorb2 dest: has_start_code_prefix)
  next
    case False
    have "\<not> has_start_code (b # bs)"
      using Cons.prems(1) has_start_code_prefix[of "b # bs" 0] has_start_code_prefix[of "0 # b # bs" 0]
      by (cases "min zeros 2"; cases "min zeros 2 - 1") (auto simp: min_def numeral_eq_Suc split: if_splits)
    then show ?thesis using False has_start_code_prefix by auto
  qed
  ultimately show ?case using Cons.IH[of "if b = 0 then zeros + 1 else 0" "s\<lparr>st_data := bs @ r\<rparr>" "data @ [b]"] Cons.prems(2)
    by (auto simp: Next_loop_byte)
qed

lemma Next_loop_start_code:
  assumes "data \<noteq> []" "st_data s = start_code long @ r"
  shows "Next_loop data 0 s = (Inr data, s\<lparr>st_data := r\<rparr>)"
  using assms by (cases long) (simp_all add: start_code_def Next_loop_byte)

lemma Next_loop_nal:
  assumes "nal_ok nal" "st_data s = nal @ annexb_bytes xs" "st_end s = None"
  shows "(Next_loop [] 0 s :: ('e error + bytes) \<times> stream) = (Inr nal, s\<lparr>st_data := (case xs of [] \<Rightarrow> [] | (_, n) # ys \<Rightarrow> n @ annexb_bytes ys)\<rparr>)"
proof -
  have 1: "(Next_loop [] 0 s :: ('e error + bytes) \<times> stream) = Next_loop nal 0 (s\<lparr>st_data := annexb_bytes xs\<rparr>)"
    using Next_loop_unit[of 0 nal s "annexb_bytes xs" "[]"] assms zeros_after_last[of nal 0] by (simp add: nal_ok_def)
  show ?thesis
  proof (cases xs)
    case Nil
    then show ?thesis using 1 assms by (simp add: Next_loop_end nal_ok_def)
  next
    case (Cons y ys)
    obtain long n where y: "y = (long, n)" by fastforce
    then show ?thesis using 1 Cons assms(1) Next_loop_start_code[where 'a = 'e, of nal "s\<lparr>st_data := annexb_bytes xs\<rparr>" long "n @ annexb_bytes ys"]
      by (simp add: nal_ok_def)
  qed
qed

lemma reads_started:
  assumes "ab_started r" "ab_stream r = \<lparr>st_data = nal @ annexb_bytes xs, st_end = None\<rparr>"
    and "nal_ok nal" "\<forall>x \<in> set xs. nal_ok (snd x)"
  shows "reads annexb_Next r (nal # map snd xs) (r\<lparr>ab_stream := \<lparr>st_data = [], st_end = None\<rparr>\<rparr>)"
  using assms
proof (induction xs arbitrary: r nal)
  case Nil
  then show ?case by (simp add: annexb_Next_def Next_loop_nal[of nal _ "[]"])
next
  case (Cons x xs)
  obtain long n where x: "x = (long, n)" by fastforce
  let ?r = "r\<lparr>ab_stream := \<lparr>st_data = n @ annexb_bytes xs, st_end = None\<rparr>\<rparr>"
  have "annexb_Next r = (Inr nal, ?r)"
    using Cons.prems by (simp add: annexb_Next_def Next_loop_nal[of nal _ "x # xs"] x)
  then show ?case using Cons.IH[of ?r n] Cons.prems by (simp add: x)
qed

lemma readPrefix_start_code:
  assumes "ab_stream r = \<lparr>st_data = start_code long @ d, st_end = None\<rparr>" "d \<noteq> []"
  shows "readPrefix r = (None, r\<lparr>ab_stream := \<lparr>st_data = d, st_end = None\<rparr>\<rparr>)"
  using assms by (cases long; cases d) (simp_all add: readPrefix_def start_code_def Peek_def Discard_def)

lemma annexb_reads_back:
  assumes "xs \<noteq> []" "\<forall>x \<in> set xs. nal_ok (snd x)"
  shows "\<exists>r'. reads annexb_Next (annexb_New \<lparr>st_data = annexb_bytes xs, st_end = None\<rparr> e) (map snd xs) r' \<and>
    annexb_Next r' = (Inl EOF, r')"
proof (cases xs)
  case (Cons x ys)
  obtain long n where x: "x = (long, n)" by fastforce
  have n: "nal_ok n" "n @ annexb_bytes ys \<noteq> []" using assms(2) Cons x by (auto simp: nal_ok_def)
  define r where "r = annexb_New \<lparr>st_data = annexb_bytes xs, st_end = None\<rparr> e"
  define r1 where "r1 = r\<lparr>ab_stream := \<lparr>st_data = n @ annexb_bytes ys, st_end = None\<rparr>, ab_started := True\<rparr>"
  have "readPrefix r = (None, r\<lparr>ab_stream := \<lparr>st_data = n @ annexb_bytes ys, st_end = None\<rparr>\<rparr>)"
    using n(2) by (intro readPrefix_start_code[of _ long]) (simp_all add: r_def annexb_New_def Cons x)
  then have "annexb_Next r = annexb_Next r1" by (simp add: annexb_Next_def r_def r1_def annexb_New_def)
  moreover have "reads annexb_Next r1 (n # map snd ys) (r1\<lparr>ab_stream := \<lparr>st_data = [], st_end = None\<rparr>\<rparr>)"
    using n(1) assms(2) Cons by (intro reads_started) (simp_all add: r1_def)
  ultimately show ?thesis unfolding r_def[symmetric]
    by (intro exI[of _ "r1\<lparr>ab_stream := \<lparr>st_data = [], st_end = None\<rparr>\<rparr>"])
       (simp add: Cons x annexb_Next_def Next_loop_end r1_def)
qed (use assms in simp)

section \<open>Clients that drop some units\<close>

text \<open>
  The H.264 and the H.265 reader call \<open>Next\<close>, read the header of the unit and go round again when
  it is one to leave out. What such a client returns is what it would return for the units it
  keeps.
\<close>

locale filtering_client =
  fixes source :: "'s \<Rightarrow> ('e + 'a) \<times> 's"
    and header :: "'a \<Rightarrow> 'b"
    and skipped :: "'b \<Rightarrow> bool"
    and client :: "'s \<Rightarrow> ('e + 'b) \<times> 's"
  assumes client_eq: "client s = (case source s of
     (Inl e, t) \<Rightarrow> (Inl e, t)
   | (Inr a, t) \<Rightarrow> if skipped (header a) then client t else (Inr (header a), t))"
begin

lemma client_reads:
  "reads source s xs t \<Longrightarrow>
     \<exists>t'. reads client s (filter (\<lambda>b. \<not> skipped b) (map header xs)) t' \<and> client t' = client t"
proof (induction xs arbitrary: s)
  case Nil
  then show ?case by auto
next
  case (Cons x xs)
  then obtain s1 where s1: "source s = (Inr x, s1)" "reads source s1 xs t"
    by (auto split: prod.splits sum.splits)
  obtain t' where t': "reads client s1 (filter (\<lambda>b. \<not> skipped b) (map header xs)) t'" "client t' = client t"
    using Cons.IH[OF s1(2)] by blast
  have c: "client s = (if skipped (header x) then client s1 else (Inr (header x), s1))"
    by (subst client_eq) (simp add: s1(1))
  show ?case
  proof (cases "skipped (header x)")
    case True
    then show ?thesis using c t' by (cases "filter (\<lambda>b. \<not> skipped b) (map header xs)") auto
  next
    case False
    then show ?thesis using c t' by auto
  qed
qed

lemma client_end: "source t = (Inl e, t) \<Longrightarrow> client t = (Inl e, t)"
  by (subst client_eq) simp

end

end
