(* ===== verification/TsNal.thy ===== *)
theory TsNal
  imports Annexb
begin

text \<open>
  The access-unit inspection of \<open>mpegts/h26x.go\<close>: iteration over the NAL units of one complete
  Annex-B access unit, and what the writer asks about it.
\<close>

section \<open>The program\<close>

definition nalStartCode3 :: bytes where "nalStartCode3 = [0x00, 0x00, 0x01]"
definition audH264 :: bytes where "audH264 = [0x00, 0x00, 0x00, 0x01, 0x09, 0xF0]"
definition audH265 :: bytes where "audH265 = [0x00, 0x00, 0x00, 0x01, 0x46, 0x01, 0x50]"

text \<open>\<open>bytes.Index(s, sep)\<close>; \<open>None\<close> is Go's -1.\<close>

fun bytes_Index :: "bytes \<Rightarrow> bytes \<Rightarrow> nat option" where
  "bytes_Index [] sep = (if sep = [] then Some 0 else None)"
| "bytes_Index (b # bs) sep =
     (if take (length sep) (b # bs) = sep then Some 0 else map_option Suc (bytes_Index bs sep))"

lemma bytes_Index_bound: "bytes_Index s sep = Some i \<Longrightarrow> i + length sep \<le> length s"
proof (induction s arbitrary: i)
  case (Cons b s)
  show ?case
  proof (cases "take (length sep) (b # s) = sep")
    case True
    then have "length sep \<le> length (b # s)" by (metis length_take min.cobounded1)
    with True Cons.prems show ?thesis by simp
  next
    case False
    then show ?thesis using Cons by auto
  qed
qed (simp split: if_splits)

text \<open>
  \<open>forEachNAL\<close> with its callback as a state transformer: \<open>fn nal s\<close> gives the next state and
  whether to go on. \<open>idx\<close> is the offset of the current start code.
\<close>

function forEachNAL_from :: "bytes \<Rightarrow> nat \<Rightarrow> (bytes \<Rightarrow> 's \<Rightarrow> 's \<times> bool) \<Rightarrow> 's \<Rightarrow> 's" where
  "forEachNAL_from annexB idx fn s =
     (let start = idx + 3 in
      case bytes_Index (drop start annexB) nalStartCode3 of
        None \<Rightarrow> if start < length annexB then fst (fn (drop start annexB) s) else s
      | Some rel \<Rightarrow>
          let stop0 = start + rel;
              stop = (if stop0 > start \<and> annexB ! (stop0 - 1) = 0x00 then stop0 - 1 else stop0);
              (s', go) = (if stop > start then fn (slice start stop annexB) s else (s, True))
          in if go then forEachNAL_from annexB (start + rel) fn s' else s')"
  by pat_completeness auto
termination
proof (relation "measure (\<lambda>(annexB, idx, _). length annexB - idx)", goal_cases)
  case 1
  then show ?case by simp
next
  case (2 annexB idx fn s start rel)
  then have "rel + 3 \<le> length (drop start annexB)"
    using bytes_Index_bound[of "drop start annexB" nalStartCode3 rel] by (simp add: nalStartCode3_def)
  with 2 show ?case by simp
qed

declare forEachNAL_from.simps [simp del]

definition forEachNAL :: "bytes \<Rightarrow> (bytes \<Rightarrow> 's \<Rightarrow> 's \<times> bool) \<Rightarrow> 's \<Rightarrow> 's" where
  "forEachNAL annexB fn s = (case bytes_Index annexB nalStartCode3 of
     None \<Rightarrow> s | Some idx \<Rightarrow> forEachNAL_from annexB idx fn s)"

definition h264NALType :: "bytes \<Rightarrow> u8" where "h264NALType nal = nal ! 0 AND 0x1F"
definition h265NALType :: "bytes \<Rightarrow> u8" where "h265NALType nal = drop_bit 1 (nal ! 0) AND 0x3F"

definition firstNALType :: "bytes \<Rightarrow> (bytes \<Rightarrow> u8) \<Rightarrow> u8" where
  "firstNALType au typeOf = forEachNAL au (\<lambda>nal _. (typeOf nal, False)) 0xFF"

definition h264StartsWithAUD :: "bytes \<Rightarrow> bool" where
  "h264StartsWithAUD au \<longleftrightarrow> firstNALType au h264NALType = 9"

definition h265StartsWithAUD :: "bytes \<Rightarrow> bool" where
  "h265StartsWithAUD au \<longleftrightarrow> firstNALType au h265NALType = 35"

definition h264IsRandomAccess :: "bytes \<Rightarrow> bool" where
  "h264IsRandomAccess au =
     forEachNAL au (\<lambda>nal found. if h264NALType nal = 5 then (True, False) else (found, True)) False"

definition h265IsRandomAccess :: "bytes \<Rightarrow> bool" where
  "h265IsRandomAccess au =
     forEachNAL au (\<lambda>nal found.
       if h265NALType nal \<ge> 16 \<and> h265NALType nal \<le> 23 then (True, False) else (found, True)) False"

section \<open>The units an access unit is split into\<close>

function nal_split :: "bytes \<Rightarrow> bytes list" where
  "nal_split d = (case bytes_Index d nalStartCode3 of
     None \<Rightarrow> if d = [] then [] else [d]
   | Some rel \<Rightarrow>
       let stop = (if rel > 0 \<and> d ! (rel - 1) = 0 then rel - 1 else rel) in
       (if stop > 0 then [take stop d] else []) @ nal_split (drop (rel + 3) d))"
  by pat_completeness auto
termination
  by (relation "measure length") (auto dest: bytes_Index_bound simp: nalStartCode3_def)

declare nal_split.simps [simp del]

definition nal_units :: "bytes \<Rightarrow> bytes list" where
  "nal_units au = (case bytes_Index au nalStartCode3 of None \<Rightarrow> [] | Some idx \<Rightarrow> nal_split (drop (idx + 3) au))"

text \<open>Running a callback over the units until it says stop.\<close>

fun until_stop :: "(bytes \<Rightarrow> 's \<Rightarrow> 's \<times> bool) \<Rightarrow> bytes list \<Rightarrow> 's \<Rightarrow> 's" where
  "until_stop fn [] s = s"
| "until_stop fn (x # xs) s = (case fn x s of (s', go) \<Rightarrow> if go then until_stop fn xs s' else s')"

lemma forEachNAL_from_split:
  "forEachNAL_from au idx fn s = until_stop fn (nal_split (drop (idx + 3) au)) s"
proof (induction "length au - idx" arbitrary: idx s rule: less_induct)
  case less
  let ?d = "drop (idx + 3) au"
  show ?case
  proof (cases "bytes_Index ?d nalStartCode3")
    case None
    then show ?thesis by (subst forEachNAL_from.simps, subst nal_split.simps) (auto simp: Let_def split: prod.split)
  next
    case (Some rel)
    have b: "rel + 3 \<le> length ?d" using bytes_Index_bound[OF Some] by (simp add: nalStartCode3_def)
    define stop where "stop = (if rel > 0 \<and> ?d ! (rel - 1) = 0 then rel - 1 else rel)"
    have nth: "?d ! (rel - 1) = au ! (idx + 3 + rel - 1)" if "rel > 0" using that b by simp
    have e: "(if 0 < rel \<and> au ! (idx + 3 + rel - 1) = 0 then idx + 3 + rel - 1 else idx + 3 + rel) = idx + 3 + stop"
      using nth by (auto simp: stop_def)
    have sl: "slice (idx + 3) (idx + 3 + stop) au = take stop ?d" by (simp add: slice_def)
    have "length au - (idx + 3 + rel) < length au - idx" using b by simp
    note ih = less.hyps[OF this]
    have dr: "drop (idx + 3 + rel + 3) au = drop (rel + 3) ?d" by (simp add: add.commute add.left_commute)
    have fe: "forEachNAL_from au idx fn s =
       (case (if stop > 0 then fn (take stop ?d) s else (s, True)) of (s', go) \<Rightarrow>
          if go then until_stop fn (nal_split (drop (rel + 3) ?d)) s' else s')"
      by (subst forEachNAL_from.simps) (simp only: Let_def Some option.case e sl ih dr less_add_same_cancel1)
    have "nal_split ?d = (if stop > 0 then [take stop ?d] else []) @ nal_split (drop (rel + 3) ?d)"
      by (subst nal_split.simps) (simp only: Some option.case Let_def stop_def)
    then show ?thesis unfolding fe by (auto simp del: drop_drop split: prod.split)
  qed
qed

lemma forEachNAL_units: "forEachNAL au fn s = until_stop fn (nal_units au) s"
  by (simp add: forEachNAL_def nal_units_def forEachNAL_from_split split: option.split)

lemma until_stop_search:
  "until_stop (\<lambda>x found. if p x then (True, False) else (found, True)) xs b \<longleftrightarrow> b \<or> (\<exists>x \<in> set xs. p x)"
  by (induction xs arbitrary: b) auto

text \<open>
  C40: An access unit counts as a random access point exactly when one of its NAL units says so: for H.264 an IDR
  slice, type 5, for H.265 an IRAP picture, types 16 to 23.
\<close>

theorem random_access_iff:
  "(h264IsRandomAccess au \<longleftrightarrow> (\<exists>nal \<in> set (nal_units au). h264NALType nal = 5)) \<and>
   (h265IsRandomAccess au \<longleftrightarrow> (\<exists>nal \<in> set (nal_units au). 16 \<le> h265NALType nal \<and> h265NALType nal \<le> 23))"
  by (simp add: h264IsRandomAccess_def h265IsRandomAccess_def forEachNAL_units until_stop_search)

lemma firstNALType_units:
  "firstNALType au typeOf = (case nal_units au of [] \<Rightarrow> 0xFF | nal # _ \<Rightarrow> typeOf nal)"
  by (simp add: firstNALType_def forEachNAL_units split: list.split)

lemma nal_split_nonempty: "nal \<in> set (nal_split d) \<Longrightarrow> nal \<noteq> []"
proof (induction d rule: nal_split.induct)
  case (1 d)
  then show ?case
    by (subst (asm) (2) nal_split.simps) (auto simp: Let_def split: option.splits if_splits)
qed

section \<open>Agreement with the Annex-B reader\<close>

lemma bytes_Index_none: "\<not> has_start_code d \<Longrightarrow> bytes_Index d nalStartCode3 = None"
proof (induction d rule: has_start_code.induct)
  case (1 a b c r)
  then show ?case by (simp add: nalStartCode3_def)
qed (simp_all add: nalStartCode3_def)

lemma bytes_Index_unit:
  assumes "\<not> has_start_code nal" "nal \<noteq> []" "last nal \<noteq> 0"
  shows "bytes_Index (nal @ start_code long @ r) nalStartCode3 = Some (length nal + (if long then 1 else 0))"
  using assms
proof (induction nal)
  case (Cons b bs)
  have not_here: "take 3 (b # bs @ start_code long @ r) \<noteq> [0, 0, 1]"
  proof (cases bs rule: has_start_code.cases)
    case (1 c d e bs')
    then show ?thesis using Cons.prems by auto
  qed (use Cons.prems in \<open>auto simp: start_code_def numeral_eq_Suc split: if_splits\<close>)
  show ?case
  proof (cases bs)
    case Nil
    then show ?thesis using Cons.prems(3) by (simp add: nalStartCode3_def start_code_def)
  next
    case bs: (Cons c cs)
    have "\<not> has_start_code bs" using Cons.prems(1) has_start_code_prefix by blast
    then have "bytes_Index (bs @ start_code long @ r) nalStartCode3 = Some (length bs + (if long then 1 else 0))"
      using Cons.IH Cons.prems(3) bs by (simp only: last_ConsR list.distinct not_False_eq_True simp_thms)
    moreover have "take (length nalStartCode3) (b # bs @ start_code long @ r) \<noteq> nalStartCode3"
      using not_here unfolding nalStartCode3_def by (simp only: list.size One_nat_def add_Suc_right add_0_right numeral_3_eq_3 not_False_eq_True)
    ultimately show ?thesis by simp
  qed
qed simp

lemma nal_split_unit:
  assumes "nal_ok nal"
  shows "nal_split nal = [nal]" "nal_split (nal @ start_code long @ r) = nal # nal_split r"
proof -
  show "nal_split nal = [nal]" using assms bytes_Index_none[of nal]
    by (subst nal_split.simps) (simp add: nal_ok_def)
  let ?d = "nal @ start_code long @ r" and ?k = "if long then 1 else 0 :: nat"
  have ix: "bytes_Index ?d nalStartCode3 = Some (length nal + ?k)"
    using assms bytes_Index_unit by (simp add: nal_ok_def)
  have stop: "(if length nal + ?k > 0 \<and> ?d ! (length nal + ?k - 1) = 0 then length nal + ?k - 1 else length nal + ?k) = length nal"
    using assms by (auto simp: nal_ok_def nth_append start_code_def last_conv_nth)
  have dr: "drop (length nal + ?k + 3) ?d = r" by (simp add: start_code_def)
  show "nal_split ?d = nal # nal_split r"
    using assms by (subst nal_split.simps) (simp only: ix option.case Let_def stop dr, simp add: nal_ok_def)
qed

lemma nal_split_bytes:
  "nal_ok nal \<Longrightarrow> \<forall>x \<in> set xs. nal_ok (snd x) \<Longrightarrow> nal_split (nal @ annexb_bytes xs) = nal # map snd xs"
proof (induction xs arbitrary: nal)
  case Nil
  then show ?case by (simp add: nal_split_unit)
next
  case (Cons x xs)
  then show ?case by (cases x) (simp add: nal_split_unit)
qed

lemma nal_units_annexb:
  assumes "\<forall>x \<in> set xs. nal_ok (snd x)"
  shows "nal_units (annexb_bytes xs) = map snd xs"
proof (cases xs)
  case Nil
  then show ?thesis by (simp add: nal_units_def nalStartCode3_def)
next
  case (Cons x ys)
  obtain long n where x: "x = (long, n)" by fastforce
  have "bytes_Index (annexb_bytes xs) nalStartCode3 = Some (if long then 1 else 0)"
    by (simp add: Cons x start_code_def nalStartCode3_def)
  then show ?thesis using nal_split_bytes[of n ys] assms by (simp add: nal_units_def Cons x start_code_def)
qed

text \<open>
  C31: The two NAL splitters of the repository agree. On every stream of non-empty NAL units behind start
  codes of three or four bytes, the in-memory \<open>forEachNAL\<close> of the muxer passes to its callback, in
  order, exactly the units that the streaming reader of \<open>internal/annexb\<close> returns, and these are
  the units the stream was made of.
\<close>

theorem splitters_agree:
  assumes "xs \<noteq> []" "\<forall>x \<in> set xs. nal_ok (snd x)"
  shows "forEachNAL (annexb_bytes xs) (\<lambda>nal seen. (seen @ [nal], True)) [] = map snd xs \<and>
    (\<exists>r'. reads annexb_Next (annexb_New \<lparr>st_data = annexb_bytes xs, st_end = None\<rparr> e) (map snd xs) r' \<and> fst (annexb_Next r') = Inl EOF)"
proof -
  have "until_stop (\<lambda>nal seen. (seen @ [nal], True)) ys zs = zs @ ys" for ys zs :: "bytes list"
    by (induction ys arbitrary: zs) simp_all
  then have "forEachNAL (annexb_bytes xs) (\<lambda>nal seen. (seen @ [nal], True)) [] = map snd xs"
    by (simp add: forEachNAL_units nal_units_annexb[OF assms(2)])
  moreover obtain r' where "reads annexb_Next (annexb_New \<lparr>st_data = annexb_bytes xs, st_end = None\<rparr> e) (map snd xs) r'"
    "annexb_Next r' = (Inl EOF, r')" using annexb_reads_back[OF assms, of e] by blast
  ultimately show ?thesis by auto
qed

theorem splitters_agree_witness:
  "forEachNAL [0, 0, 1, 9, 0xF0, 0, 0, 0, 1, 0x65, 0, 3] (\<lambda>nal seen. (seen @ [nal], True)) [] = [[9, 0xF0], [0x65, 0, 3]] \<and>
   (\<exists>r'. reads annexb_Next (annexb_New \<lparr>st_data = [0, 0, 1, 9, 0xF0, 0, 0, 0, 1, 0x65, 0, 3], st_end = None\<rparr> ErrUnexpectedEOF)
      [[9, 0xF0], [0x65, 0, 3]] (r' :: nat annexb_reader) \<and> fst (annexb_Next r') = Inl EOF)"
proof -
  let ?xs = "[(False, [9, 0xF0]), (True, [0x65, 0, 3])] :: (bool \<times> bytes) list"
  have "\<forall>x \<in> set ?xs. nal_ok (snd x)" by (simp add: nal_ok_def)
  from splitters_agree[OF _ this, of "ErrUnexpectedEOF :: nat error"] show ?thesis
    by (simp add: start_code_def)
qed

end
