(* ===== verification/TsWriter.thy ===== *)
theory TsWriter
  imports TsPacket TsPes TsNal
begin

text \<open>
  The multiplexer, \<open>mpegts/writer.go\<close>. The writer owns one packet buffer, \<open>w_pkt\<close>, which is
  filled in place and keeps the bytes of the previous packet until they are overwritten; the
  model keeps it so too. The loop of \<open>writePES\<close> is a partial function whose result \<open>None\<close> would
  be a loop that never ends.
\<close>

section \<open>State and options\<close>

definition writerPMTPID :: u16 where "writerPMTPID = 0x1000"
definition psiIntervalTicks :: int where "psiIntervalTicks = 9000"
definition pcrDelayTicks :: int where "pcrDelayTicks = 63000"
definition minElementaryPID :: u16 where "minElementaryPID = 0x0020"
definition maxElementaryPID :: u16 where "maxElementaryPID = 0x1FFE"

record ts_writer =
  w_dst :: sink
  w_pkt :: bytes
  w_tracks :: "track list"
  byPID :: "u16 \<rightharpoonup> track"
  w_cc :: "u16 \<rightharpoonup> u8"
  w_pcrPID :: u16
  psiWritten :: bool
  lastPSIDTS :: int
  patRaw :: bytes
  pmtRaw :: bytes

type_synonym writer_option = "ts_writer \<Rightarrow> ts_error option \<times> ts_writer"

definition withTrack :: "codec \<Rightarrow> u16 \<Rightarrow> writer_option" where
  "withTrack codec pid w =
     (if pid < minElementaryPID \<or> pid > maxElementaryPID \<or> pid = writerPMTPID
      then (Some (Err errInvalidPID), w)
      else if byPID w pid \<noteq> None then (Some (Err errPIDInUse), w)
      else let t = \<lparr>track_PID = pid, track_Codec = codec\<rparr> in
        (None, w\<lparr>w_tracks := w_tracks w @ [t], byPID := (byPID w)(pid \<mapsto> t)\<rparr>))"

definition WithH264Track :: "u16 \<Rightarrow> writer_option" where
  "WithH264Track pid = withTrack CodecH264 pid"

definition WithH265Track :: "u16 \<Rightarrow> writer_option" where
  "WithH265Track pid = withTrack CodecH265 pid"

fun apply_writer_options :: "writer_option list \<Rightarrow> ts_writer \<Rightarrow> ts_error option \<times> ts_writer" where
  "apply_writer_options [] w = (None, w)"
| "apply_writer_options (opt # opts) w = (case opt w of
     (Some e, w1) \<Rightarrow> (Some e, w1)
   | (None, w1) \<Rightarrow> apply_writer_options opts w1)"

definition initial_writer :: "sink \<Rightarrow> ts_writer" where
  "initial_writer dst = \<lparr>w_dst = dst, w_pkt = replicate packetSize 0, w_tracks = [], byPID = Map.empty,
     w_cc = Map.empty, w_pcrPID = 0, psiWritten = False, lastPSIDTS = 0, patRaw = [], pmtRaw = []\<rparr>"

definition track_stream :: "track \<Rightarrow> pmtStream" where
  "track_stream t = \<lparr>streamType = streamTypeFromCodec (track_Codec t), stream_pid = track_PID t\<rparr>"

definition NewTsWriter :: "sink \<Rightarrow> writer_option list \<Rightarrow> ts_error + ts_writer" where
  "NewTsWriter dst opts = (case apply_writer_options opts (initial_writer dst) of
     (Some e, _) \<Rightarrow> Inl e
   | (None, w) \<Rightarrow>
       (case w_tracks w of
          [] \<Rightarrow> Inl (Err errNoTracks)
        | t # _ \<Rightarrow>
            let w1 = w\<lparr>w_pcrPID := track_PID t\<rparr> in
            (case marshalPAT 1 [\<lparr>programNumber = 1, pmtPID = writerPMTPID\<rparr>] of
               Inl e \<Rightarrow> Inl e
             | Inr pat \<Rightarrow>
                 (case marshalPMT 1 \<lparr>pcrPID = w_pcrPID w1, pmt_streams = map track_stream (w_tracks w1)\<rparr> of
                    Inl e \<Rightarrow> Inl e
                  | Inr pm \<Rightarrow>
                      if length pat > packetSize - 4 \<or> length pm > packetSize - 4
                      then Inl (Err errPSITooLarge)
                      else Inr (w1\<lparr>patRaw := pat, pmtRaw := pm\<rparr>)))))"

section \<open>Packets\<close>

definition nextCC :: "u16 \<Rightarrow> ts_writer \<Rightarrow> u8 \<times> ts_writer" where
  "nextCC pid w =
     (let counter = (case w_cc w pid of None \<Rightarrow> 0 | Some c \<Rightarrow> c)
      in (counter, w\<lparr>w_cc := (w_cc w)(pid \<mapsto> (counter + 1) AND 0x0F)\<rparr>))"

text \<open>The zero value of a header with the fields that the composite literals set.\<close>

definition new_header :: "u16 \<Rightarrow> bool \<Rightarrow> u8 \<Rightarrow> packetHeader" where
  "new_header pid start counter =
     \<lparr>transportError = False, payloadUnitStart = start, transportPriority = False, hdr_pid = pid,
      scramblingControl = 0, hasAdaptationField = False, hasPayload = True, continuityCounter = counter\<rparr>"

definition copy_at :: "bytes \<Rightarrow> nat \<Rightarrow> bytes \<Rightarrow> bytes" where
  "copy_at pkt off src =
     (let n = min (length pkt - off) (length src) in take off pkt @ take n src @ drop (off + n) pkt)"

definition writeSection :: "u16 \<Rightarrow> bytes \<Rightarrow> ts_writer \<Rightarrow> ts_error option \<times> ts_writer" where
  "writeSection pid sec w =
     (case nextCC pid w of (counter, w1) \<Rightarrow>
        let pkt1 = header_marshalTo (new_header pid True counter) (w_pkt w1);
            n = min (packetSize - 4) (length sec);
            pkt2 = copy_at pkt1 4 sec;
            pkt3 = stuff (4 + n) packetSize pkt2
        in (case Write pkt3 (w_dst w1) of (err, d) \<Rightarrow> (err, w1\<lparr>w_pkt := pkt3, w_dst := d\<rparr>)))"

definition maybeWritePSI :: "int \<Rightarrow> ts_writer \<Rightarrow> ts_error option \<times> ts_writer" where
  "maybeWritePSI dts w =
     (if psiWritten w \<and> dts \<ge> lastPSIDTS w \<and> i64 (dts - lastPSIDTS w) < psiIntervalTicks then (None, w)
      else (case writeSection pidPAT (patRaw w) w of
          (Some e, w1) \<Rightarrow> (Some e, w1)
        | (None, w1) \<Rightarrow> (case writeSection writerPMTPID (pmtRaw w1) w1 of
            (Some e, w2) \<Rightarrow> (Some e, w2)
          | (None, w2) \<Rightarrow> (None, w2\<lparr>psiWritten := True, lastPSIDTS := dts\<rparr>))))"

text \<open>
  The inner loop of \<open>writePES\<close>: copy from the segments into the packet until it is full or the
  segments are used up. The state is the packet, its write offset, and the position in the
  segments with the bytes remaining. An offset past the end of a segment, which the loop never
  reaches, would be a slice panic; the model stops there.
\<close>

function fill_packet ::
  "bytes list \<Rightarrow> bytes \<Rightarrow> nat \<Rightarrow> nat \<Rightarrow> nat \<Rightarrow> nat \<Rightarrow> bytes \<times> nat \<times> nat \<times> nat" where
  "fill_packet segs pkt off segIdx segOff remaining =
     (if off < packetSize \<and> segIdx < length segs then
        let src = drop segOff (segs ! segIdx);
            n = min (packetSize - off) (length src);
            pkt1 = copy_at pkt off src;
            segOff1 = segOff + n in
        if segOff > length (segs ! segIdx) then (pkt, segIdx, segOff, remaining)
        else if segOff1 = length (segs ! segIdx)
        then fill_packet segs pkt1 (off + n) (segIdx + 1) 0 (remaining - n)
        else fill_packet segs pkt1 (off + n) segIdx segOff1 (remaining - n)
      else (pkt, segIdx, segOff, remaining))"
  by pat_completeness auto
termination
  by (relation "measures [\<lambda>(segs, _, _, segIdx, _). length segs - segIdx, \<lambda>(_, _, off, _). packetSize - off]") auto

declare fill_packet.simps [simp del]

text \<open>The body of the outer loop: one packet. It returns the error and the new loop state.\<close>

definition pes_adaptation :: "bool \<Rightarrow> bool \<Rightarrow> u64 \<Rightarrow> bool \<Rightarrow> adaptationField" where
  "pes_adaptation rai withPCR pcr_value first =
     \<lparr>discontinuity = False, randomAccess = (rai \<and> first), hasPCR = (withPCR \<and> first), pcr = pcr_value\<rparr>"

definition pes_afTotal :: "adaptationField \<Rightarrow> nat \<Rightarrow> nat" where
  "pes_afTotal af remaining =
     (let minAF = (if randomAccess af \<or> hasPCR af then encodedLen af else 0) in
      if remaining < packetSize - 4 - minAF then packetSize - 4 - remaining else minAF)"

definition write_packet ::
  "u16 \<Rightarrow> adaptationField \<Rightarrow> bytes list \<Rightarrow> nat \<Rightarrow> nat \<Rightarrow> nat \<Rightarrow> bool \<Rightarrow> ts_writer
     \<Rightarrow> ts_error option \<times> nat \<times> nat \<times> nat \<times> ts_writer" where
  "write_packet pid af segs segIdx segOff remaining first w =
     (case nextCC pid w of (counter, w1) \<Rightarrow>
        let afTotal = pes_afTotal af remaining;
            hdr = (new_header pid first counter)\<lparr>hasAdaptationField := afTotal > 0\<rparr>;
            pkt1 = header_marshalTo hdr (w_pkt w1);
            pkt2 = (if afTotal > 0 then take 4 pkt1 @ adaptation_marshalTo af (drop 4 pkt1) afTotal else pkt1)
        in (case fill_packet segs pkt2 (4 + afTotal) segIdx segOff remaining of
             (pkt3, segIdx', segOff', remaining') \<Rightarrow>
               (case Write pkt3 (w_dst w1) of
                  (err, d) \<Rightarrow> (err, segIdx', segOff', remaining', w1\<lparr>w_pkt := pkt3, w_dst := d\<rparr>))))"

partial_function (option) writePES_loop ::
  "u16 \<Rightarrow> bool \<Rightarrow> bool \<Rightarrow> u64 \<Rightarrow> bytes list \<Rightarrow> nat \<Rightarrow> nat \<Rightarrow> nat \<Rightarrow> bool \<Rightarrow> ts_writer
     \<Rightarrow> (ts_error option \<times> ts_writer) option" where
  "writePES_loop pid rai withPCR pcr_value segs segIdx segOff remaining first w =
     (if first \<or> remaining > 0 then
        (case write_packet pid (pes_adaptation rai withPCR pcr_value first) segs segIdx segOff remaining first w of
           (err, segIdx', segOff', remaining', w') \<Rightarrow>
             if err \<noteq> None then Some (err, w')
             else writePES_loop pid rai withPCR pcr_value segs segIdx' segOff' remaining' False w')
      else Some (None, w))"

definition writePES :: "u16 \<Rightarrow> bool \<Rightarrow> bool \<Rightarrow> u64 \<Rightarrow> bytes list \<Rightarrow> ts_writer \<Rightarrow> (ts_error option \<times> ts_writer) option" where
  "writePES pid rai withPCR pcr_value segs w =
     writePES_loop pid rai withPCR pcr_value segs 0 0 (sum_list (map length segs)) True w"

section \<open>Access units\<close>

definition writeAccessUnit ::
  "u16 \<Rightarrow> codec \<Rightarrow> int \<Rightarrow> int \<Rightarrow> bytes option \<Rightarrow> bytes \<Rightarrow> bool \<Rightarrow> ts_writer \<Rightarrow> (ts_error option \<times> ts_writer) option" where
  "writeAccessUnit pid codec pts dts aud accessUnit random w = (case byPID w pid of
     None \<Rightarrow> Some (Some (Err errUnknownPID), w)
   | Some t \<Rightarrow>
       if track_Codec t \<noteq> codec then Some (Some (Err errCodecMismatch), w)
       else if accessUnit = [] then Some (Some (Err errEmptyAccessUnit), w)
       else (case maybeWritePSI dts w of
           (Some e, w1) \<Rightarrow> Some (Some e, w1)
         | (None, w1) \<Rightarrow>
             let segs = [appendPESHeader [] streamIDVideo pts dts]
                   @ (case aud of None \<Rightarrow> [] | Some a \<Rightarrow> [a]) @ [accessUnit];
                 withPCR = (pid = w_pcrPID w1);
                 pcrValue = (if withPCR then word_of_int (max (i64 (dts - pcrDelayTicks)) 0) * 300 else 0)
             in writePES pid random withPCR pcrValue segs w1))"

definition WriteH264 :: "u16 \<Rightarrow> int \<Rightarrow> int \<Rightarrow> bytes \<Rightarrow> ts_writer \<Rightarrow> (ts_error option \<times> ts_writer) option" where
  "WriteH264 pid pts dts accessUnit w =
     (let aud = (if accessUnit \<noteq> [] \<and> \<not> h264StartsWithAUD accessUnit then Some audH264 else None)
      in writeAccessUnit pid CodecH264 pts dts aud accessUnit (h264IsRandomAccess accessUnit) w)"

definition WriteH265 :: "u16 \<Rightarrow> int \<Rightarrow> int \<Rightarrow> bytes \<Rightarrow> ts_writer \<Rightarrow> (ts_error option \<times> ts_writer) option" where
  "WriteH265 pid pts dts accessUnit w =
     (let aud = (if accessUnit \<noteq> [] \<and> \<not> h265StartsWithAUD accessUnit then Some audH265 else None)
      in writeAccessUnit pid CodecH265 pts dts aud accessUnit (h265IsRandomAccess accessUnit) w)"

definition ts_Close :: "ts_writer \<Rightarrow> ts_error option \<times> ts_writer" where
  "ts_Close w = (if can_close (w_dst w)
     then (case Close (w_dst w) of (err, d) \<Rightarrow> (err, w\<lparr>w_dst := d\<rparr>)) else (None, w))"

section \<open>The inner loop copies the next bytes of the segments\<close>

text \<open>What is left of the segments at a position, and the positions the loop can be in.\<close>

definition seg_rest :: "bytes list \<Rightarrow> nat \<Rightarrow> nat \<Rightarrow> bytes" where
  "seg_rest segs i off = (if i < length segs then drop off (segs ! i) @ concat (drop (Suc i) segs) else [])"

definition seg_pos :: "bytes list \<Rightarrow> nat \<Rightarrow> nat \<Rightarrow> bool" where
  "seg_pos segs i off \<longleftrightarrow> i \<le> length segs \<and> (if i < length segs then off \<le> length (segs ! i) else off = 0)"

lemma seg_rest_0: "seg_rest segs 0 0 = concat segs"
  by (cases segs) (simp_all add: seg_rest_def)

lemma seg_rest_next: "i < length segs \<Longrightarrow> seg_rest segs i (length (segs ! i)) = seg_rest segs (Suc i) 0"
  by (cases "Suc i < length segs") (simp_all add: seg_rest_def Cons_nth_drop_Suc[symmetric])

lemma seg_pos_next: "i < length segs \<Longrightarrow> seg_pos segs (Suc i) 0"
  by (simp add: seg_pos_def)

lemma length_copy_at [lens, simp]: "off \<le> length pkt \<Longrightarrow> length (copy_at pkt off src) = length pkt"
  by (simp add: copy_at_def Let_def)

definition put_at :: "bytes \<Rightarrow> nat \<Rightarrow> bytes \<Rightarrow> bytes" where
  "put_at pkt off r = take off pkt @ take (packetSize - off) r @ drop (off + length r) pkt"

lemma put_at_copy_at:
  assumes "length pkt = packetSize" "off + length a \<le> packetSize"
  shows "put_at (copy_at pkt off a) (off + length a) r = put_at pkt off (a @ r)"
  using assms by (simp add: put_at_def copy_at_def Let_def ac_simps)

lemma fill_packet_stop:
  "\<not> (off < packetSize \<and> i < length segs) \<Longrightarrow> fill_packet segs pkt off i o1 rm = (pkt, i, o1, rm)"
  by (subst fill_packet.simps) auto

lemma fill_packet_spec:
  assumes "length pkt = packetSize" "off \<le> packetSize" "seg_pos segs i o1"
    and "rm = length (seg_rest segs i o1)"
  shows "\<exists>i' o2. fill_packet segs pkt off i o1 rm =
      (put_at pkt off (seg_rest segs i o1), i', o2, rm - (packetSize - off)) \<and> seg_pos segs i' o2 \<and>
      seg_rest segs i' o2 = drop (packetSize - off) (seg_rest segs i o1)"
  using assms
proof (induction segs pkt off i o1 rm rule: fill_packet.induct)
  case (1 segs pkt off i o1 rm)
  show ?case
  proof (cases "off < packetSize \<and> i < length segs")
    case False
    then have "off = packetSize \<or> i = length segs \<and> o1 = 0"
      using "1.prems" by (auto simp: seg_pos_def split: if_splits)
    then show ?thesis using False "1.prems" fill_packet_stop[OF False, of pkt o1 rm]
      by (auto simp: put_at_def seg_rest_def)
  next
    case True
    define src where "src = drop o1 (segs ! i)"
    define n where "n = min (packetSize - off) (length src)"
    have o1: "o1 \<le> length (segs ! i)" using "1.prems"(3) True by (simp add: seg_pos_def)
    have R: "seg_rest segs i o1 = src @ concat (drop (Suc i) segs)" using True by (simp add: seg_rest_def src_def)
    have len1: "length (copy_at pkt off src) = packetSize" using "1.prems" by simp
    have step: "fill_packet segs pkt off i o1 rm =
        (if o1 + n = length (segs ! i) then fill_packet segs (copy_at pkt off src) (off + n) (i + 1) 0 (rm - n)
         else fill_packet segs (copy_at pkt off src) (off + n) i (o1 + n) (rm - n))"
      using True o1 by (subst fill_packet.simps) (simp add: Let_def src_def n_def)
    show ?thesis
    proof (cases "o1 + n = length (segs ! i)")
      case fin: True
      then have n: "n = length src" using o1 by (simp add: src_def)
      have R': "seg_rest segs i o1 = src @ seg_rest segs (i + 1) 0"
        using seg_rest_next[of i segs] True o1 by (simp add: R seg_rest_def src_def split: if_splits)
      have "\<exists>i' o2. fill_packet segs (copy_at pkt off src) (off + n) (i + 1) 0 (rm - n) =
          (put_at (copy_at pkt off src) (off + n) (seg_rest segs (i + 1) 0), i', o2, rm - n - (packetSize - (off + n))) \<and>
          seg_pos segs i' o2 \<and> seg_rest segs i' o2 = drop (packetSize - (off + n)) (seg_rest segs (i + 1) 0)"
        using True fin len1 "1.prems" o1 seg_pos_next[of i segs] R' n
        by (intro "1.IH"(1)) (auto simp: src_def n_def)
      moreover have "put_at (copy_at pkt off src) (off + n) (seg_rest segs (i + 1) 0) = put_at pkt off (seg_rest segs i o1)"
        unfolding R' n using "1.prems" n by (intro put_at_copy_at) (auto simp: n_def)
      moreover have "n + (packetSize - (off + n)) = packetSize - off" using True n n_def by simp
      ultimately show ?thesis using step fin n by (simp add: R')
    next
      case notfin: False
      then have n: "n = packetSize - off" "n < length src" using o1 by (auto simp: n_def src_def min_def split: if_splits)
      have "fill_packet segs pkt off i o1 rm = (copy_at pkt off src, i, o1 + n, rm - n)"
        using step notfin n True by (simp add: fill_packet_stop)
      moreover have "copy_at pkt off src = put_at pkt off (seg_rest segs i o1)"
        using n "1.prems" True by (simp add: copy_at_def put_at_def R Let_def)
      moreover have "seg_pos segs i (o1 + n)" "seg_rest segs i (o1 + n) = drop n (seg_rest segs i o1)"
        using True n o1 by (simp_all add: seg_pos_def seg_rest_def src_def add.commute)
      ultimately show ?thesis using n by auto
    qed
  qed
qed

section \<open>One packet\<close>

lemma pes_afTotal_props:
  fixes af rm defines "t \<equiv> pes_afTotal af rm"
  shows "t \<le> 184" "t = 0 \<or> t = 1 \<or> encodedLen af \<le> t" "t \<le> 1 \<Longrightarrow> \<not> randomAccess af \<and> \<not> hasPCR af"
    "184 - t \<le> rm" "0 < rm \<Longrightarrow> 0 < 184 - t"
    "184 - t = min rm (184 - (if randomAccess af \<or> hasPCR af then encodedLen af else 0))"
  unfolding t_def pes_afTotal_def Let_def
  by (auto simp: encodedLen_def packetSize_def split: if_splits)

definition pes_chunk :: "adaptationField \<Rightarrow> bytes \<Rightarrow> nat" where
  "pes_chunk af r = 184 - pes_afTotal af (length r)"

definition pes_packet :: "u16 \<Rightarrow> adaptationField \<Rightarrow> u8 \<Rightarrow> bool \<Rightarrow> bytes \<Rightarrow> bytes" where
  "pes_packet pid af counter first r =
     (let t = pes_afTotal af (length r) in
      header_bytes ((new_header pid first counter)\<lparr>hasAdaptationField := t > 0\<rparr>)
        @ (if t > 0 then adaptation_bytes af t else []) @ take (pes_chunk af r) r)"

lemma length_pes_packet [lens]: "length (pes_packet pid af counter first r) = packetSize"
  using pes_afTotal_props[where af = af and rm = "length r"]
  by (auto simp: pes_packet_def Let_def pes_chunk_def packetSize_def length_adaptation_bytes)

abbreviation ts_Write :: "bytes \<Rightarrow> sink \<Rightarrow> ts_error option \<times> sink" where
  "ts_Write \<equiv> Write"

definition cc_of :: "ts_writer \<Rightarrow> u16 \<Rightarrow> u8" where
  "cc_of w pid = (case w_cc w pid of None \<Rightarrow> 0 | Some c \<Rightarrow> c)"

text \<open>
  The packet that goes out is a function of the header fields and the next bytes of the
  segments: nothing of the previous content of the packet buffer is left in it.
\<close>

lemma write_packet_spec:
  fixes pid :: u16 and af :: adaptationField and first :: bool
  assumes "length (w_pkt w) = packetSize" "seg_pos segs i o1" "rm = length (seg_rest segs i o1)"
  defines "r \<equiv> seg_rest segs i o1"
  defines "pkt \<equiv> pes_packet pid af (cc_of w pid) first r"
  shows "\<exists>i' o2. write_packet pid af segs i o1 rm first w =
      (fst (ts_Write pkt (w_dst w)), i', o2, length (seg_rest segs i' o2),
       w\<lparr>w_cc := (w_cc w)(pid \<mapsto> (cc_of w pid + 1) AND 0x0F), w_pkt := pkt, w_dst := snd (ts_Write pkt (w_dst w))\<rparr>) \<and>
      seg_pos segs i' o2 \<and> seg_rest segs i' o2 = drop (pes_chunk af r) r"
proof -
  define t where "t = pes_afTotal af rm"
  define hdr where "hdr = (new_header pid first (cc_of w pid))\<lparr>hasAdaptationField := t > 0\<rparr>"
  define pkt2 where "pkt2 = (if t > 0 then header_bytes hdr @ adaptation_marshalTo af (drop 4 (w_pkt w)) t
    else header_bytes hdr @ drop 4 (w_pkt w))"
  note props = pes_afTotal_props[where af = af and rm = rm, folded t_def]
  have ps: "packetSize = 188" by (simp add: packetSize_def)
  have pkt2: "pkt2 = header_bytes hdr @ (if t > 0 then adaptation_bytes af t else []) @ drop (4 + t) (w_pkt w)"
    using props(1,2) assms(1) unfolding pkt2_def
    by (auto simp: adaptation_marshalTo_eq ps add.commute)
  have la: "t > 0 \<Longrightarrow> length (adaptation_bytes af t) = t" using props(2) by (intro length_adaptation_bytes) auto
  have len2: "length pkt2 = packetSize" using la assms(1) props(1) by (auto simp: pkt2 ps)
  obtain i' o2 where fp: "fill_packet segs pkt2 (4 + t) i o1 rm =
      (put_at pkt2 (4 + t) r, i', o2, rm - (packetSize - (4 + t)))" "seg_pos segs i' o2"
      "seg_rest segs i' o2 = drop (packetSize - (4 + t)) r"
    using fill_packet_spec[OF len2 _ assms(2,3), of "4 + t"] props(1) unfolding r_def ps by auto
  have ch: "packetSize - (4 + t) = pes_chunk af r" "pes_chunk af r \<le> length r"
    using props(4) assms(3) by (simp_all add: pes_chunk_def t_def ps r_def)
  have out: "put_at pkt2 (4 + t) r = pkt"
    using la ch len2 assms(3) props(1)
    by (auto simp: put_at_def pkt_def pes_packet_def Let_def ps pkt2 hdr_def t_def r_def)
  have "write_packet pid af segs i o1 rm first w = (case fill_packet segs pkt2 (4 + t) i o1 rm of
             (pkt3, segIdx', segOff', remaining') \<Rightarrow>
               (case Write pkt3 (w_dst w) of
                  (err, d) \<Rightarrow> (err, segIdx', segOff', remaining',
                   w\<lparr>w_cc := (w_cc w)(pid \<mapsto> (cc_of w pid + 1) AND 0x0F), w_pkt := pkt3, w_dst := d\<rparr>)))"
    using assms(1) by (simp add: write_packet_def nextCC_def Let_def header_marshalTo_eq ps pkt2_def hdr_def t_def cc_of_def)
  then show ?thesis using fp out ch assms(3) by (auto simp: r_def split: prod.split)
qed

section \<open>The outer loop ends and writes the packets of the unit\<close>

function pes_packets :: "u16 \<Rightarrow> bool \<Rightarrow> bool \<Rightarrow> u64 \<Rightarrow> u8 \<Rightarrow> bool \<Rightarrow> bytes \<Rightarrow> bytes list" where
  "pes_packets pid rai withPCR v counter first r =
     (if first \<or> r \<noteq> [] then
        let af = pes_adaptation rai withPCR v first in
        pes_packet pid af counter first r
          # pes_packets pid rai withPCR v ((counter + 1) AND 0x0F) False (drop (pes_chunk af r) r)
      else [])"
  by pat_completeness auto
termination
proof (relation "measures [\<lambda>(_, _, _, _, _, _, r). length r, \<lambda>(_, _, _, _, _, first, _). if first then 1 else 0]", goal_cases)
  case 1
  then show ?case by simp
next
  case (2 pid rai withPCR v counter first r af)
  then show ?case using pes_afTotal_props(5)[where af = af and rm = "length r"]
    by (cases r) (auto simp: pes_chunk_def)
qed

declare pes_packets.simps [simp del]

lemma pes_packets_nonempty: "pes_packets pid rai withPCR v counter True r \<noteq> []"
  by (subst pes_packets.simps) (simp add: Let_def)

lemma pes_packets_size: "p \<in> set (pes_packets pid rai withPCR v counter first r) \<Longrightarrow> length p = packetSize"
proof (induction pid rai withPCR v counter first r rule: pes_packets.induct)
  case (1 pid rai withPCR v counter first r)
  then show ?case
    by (subst (asm) (2) pes_packets.simps) (auto simp: Let_def length_pes_packet split: if_splits)
qed

text \<open>A sequence of \<open>Write\<close> calls that stops at the first error.\<close>

fun write_all :: "bytes list \<Rightarrow> sink \<Rightarrow> ts_error option \<times> sink" where
  "write_all [] d = (None, d)"
| "write_all (p # ps) d = (case Write p d of (Some e, d1) \<Rightarrow> (Some e, d1) | (None, d1) \<Rightarrow> write_all ps d1)"

definition cc_step :: "u8 \<Rightarrow> u8" where
  "cc_step c = (c + 1) AND 0x0F"

definition same_config :: "ts_writer \<Rightarrow> ts_writer \<Rightarrow> bool" where
  "same_config w w' \<longleftrightarrow>
     w_tracks w' = w_tracks w \<and> byPID w' = byPID w \<and> w_pcrPID w' = w_pcrPID w \<and>
     patRaw w' = patRaw w \<and> pmtRaw w' = pmtRaw w"

lemma same_config_trans: "same_config a b \<Longrightarrow> same_config b c \<Longrightarrow> same_config a c"
  by (simp add: same_config_def)

lemma writePES_loop_spec:
  assumes "ps = pes_packets pid rai withPCR v counter first r"
    and "counter = cc_of w pid" "r = seg_rest segs i o1" "length (w_pkt w) = packetSize" "seg_pos segs i o1"
  shows "\<exists>w'. writePES_loop pid rai withPCR v segs i o1 (length r) first w =
      Some (fst (write_all ps (w_dst w)), w') \<and>
      w_dst w' = snd (write_all ps (w_dst w)) \<and> length (w_pkt w') = packetSize \<and> same_config w w' \<and>
      psiWritten w' = psiWritten w \<and> lastPSIDTS w' = lastPSIDTS w \<and>
      (fst (write_all ps (w_dst w)) = None \<longrightarrow>
         (\<forall>q. cc_of w' q = (if q = pid then (cc_step ^^ length ps) counter else cc_of w q)))"
  using assms
proof (induction pid rai withPCR v counter first r arbitrary: w i o1 ps rule: pes_packets.induct)
  case (1 pid rai withPCR v counter first r)
  show ?case
  proof (cases "first \<or> r \<noteq> []")
    case False
    then have "ps = []" using "1.prems"(1) by (simp add: pes_packets.simps)
    then show ?thesis using False "1.prems"(2-)
      by (subst writePES_loop.simps) (auto simp: same_config_def)
  next
    case True
    define af where "af = pes_adaptation rai withPCR v first"
    define pkt where "pkt = pes_packet pid af counter first r"
    define err where "err = fst (ts_Write pkt (w_dst w))"
    define w1 where "w1 = w\<lparr>w_cc := (w_cc w)(pid \<mapsto> (counter + 1) AND 0x0F), w_pkt := pkt,
      w_dst := snd (ts_Write pkt (w_dst w))\<rparr>"
    define r1 where "r1 = drop (pes_chunk af r) r"
    define ps1 where "ps1 = pes_packets pid rai withPCR v (cc_step counter) False r1"
    obtain i' o2 where wp: "write_packet pid af segs i o1 (length r) first w = (err, i', o2, length r1, w1)"
      "seg_pos segs i' o2" "r1 = seg_rest segs i' o2"
      using write_packet_spec[OF "1.prems"(4,5) arg_cong[OF "1.prems"(3), of length], of pid af first]
      unfolding pkt_def w1_def err_def r1_def "1.prems"(2,3) by metis
    have cc1: "cc_of w1 q = (if q = pid then cc_step counter else cc_of w q)" for q
      by (simp add: cc_of_def w1_def cc_step_def)
    have len1: "length (w_pkt w1) = packetSize" by (simp add: w1_def pkt_def length_pes_packet)
    have ps: "ps = pkt # ps1"
      using True "1.prems"(1) by (subst (asm) pes_packets.simps)
        (simp add: Let_def af_def[symmetric] pkt_def ps1_def cc_step_def r1_def)
    have loop: "writePES_loop pid rai withPCR v segs i o1 (length r) first w =
        (if err \<noteq> None then Some (err, w1)
         else writePES_loop pid rai withPCR v segs i' o2 (length r1) False w1)"
      using True wp(1) by (subst writePES_loop.simps) (simp add: af_def)
    have conf: "same_config w w1" "psiWritten w1 = psiWritten w" "lastPSIDTS w1 = lastPSIDTS w"
      by (simp_all add: same_config_def w1_def)
    show ?thesis
    proof (cases err)
      case (Some e)
      then show ?thesis using loop ps conf len1
        by (auto simp: w1_def err_def split: prod.splits)
    next
      case None
      have wa: "write_all ps (w_dst w) = write_all ps1 (w_dst w1)"
        using None by (cases "ts_Write pkt (w_dst w)") (simp add: ps err_def w1_def)
      have "(counter + 1) AND 0x0F = cc_of w1 pid" using cc1 by (simp add: cc_step_def)
      from "1.IH"[OF True af_def _ this _ len1 wp(2)] wp(3)
      obtain w' where w': "writePES_loop pid rai withPCR v segs i' o2 (length r1) False w1 =
          Some (fst (write_all ps1 (w_dst w1)), w')"
        "w_dst w' = snd (write_all ps1 (w_dst w1))" "length (w_pkt w') = packetSize" "same_config w1 w'"
        "psiWritten w' = psiWritten w1" "lastPSIDTS w' = lastPSIDTS w1"
        "fst (write_all ps1 (w_dst w1)) = None \<longrightarrow>
          (\<forall>q. cc_of w' q = (if q = pid then (cc_step ^^ length ps1) (cc_step counter) else cc_of w1 q))"
        unfolding ps1_def r1_def cc_step_def by metis
      have lp: "length ps = Suc (length ps1)" by (simp add: ps)
      show ?thesis unfolding wa lp
        using w' loop None conf same_config_trans[OF conf(1) w'(4)]
        by (intro exI[of _ w']) (simp add: cc1 funpow_swap1)
    qed
  qed
qed

lemma writePES_spec:
  fixes pid :: u16 and rai withPCR :: bool and v :: u64 and segs :: "bytes list"
  assumes "length (w_pkt w) = packetSize"
  defines "ps \<equiv> pes_packets pid rai withPCR v (cc_of w pid) True (concat segs)"
  shows "\<exists>w'. writePES pid rai withPCR v segs w = Some (fst (write_all ps (w_dst w)), w') \<and>
      w_dst w' = snd (write_all ps (w_dst w)) \<and> length (w_pkt w') = packetSize \<and> same_config w w' \<and>
      psiWritten w' = psiWritten w \<and> lastPSIDTS w' = lastPSIDTS w \<and>
      (fst (write_all ps (w_dst w)) = None \<longrightarrow>
         (\<forall>q. cc_of w' q = (if q = pid then (cc_step ^^ length ps) (cc_of w pid) else cc_of w q)))"
proof -
  have "seg_pos segs 0 0" by (simp add: seg_pos_def)
  from writePES_loop_spec[OF refl refl seg_rest_0[symmetric] assms(1) this, of pid rai withPCR v True]
  show ?thesis by (simp only: writePES_def ps_def length_concat)
qed

section \<open>Tables in packets\<close>

definition psi_packet :: "u16 \<Rightarrow> u8 \<Rightarrow> bytes \<Rightarrow> bytes" where
  "psi_packet pid counter sec =
     header_bytes (new_header pid True counter) @ sec @ replicate (184 - length sec) 0xFF"

lemma length_psi_packet [lens]: "length sec \<le> 184 \<Longrightarrow> length (psi_packet pid counter sec) = packetSize"
  by (simp add: psi_packet_def packetSize_def)

lemma writeSection_spec:
  assumes "length (w_pkt w) = packetSize" "length sec \<le> 184"
  shows "writeSection pid sec w =
    (fst (ts_Write (psi_packet pid (cc_of w pid) sec) (w_dst w)),
     w\<lparr>w_cc := (w_cc w)(pid \<mapsto> cc_step (cc_of w pid)), w_pkt := psi_packet pid (cc_of w pid) sec,
       w_dst := snd (ts_Write (psi_packet pid (cc_of w pid) sec) (w_dst w))\<rparr>)"
proof -
  have p: "stuff (4 + min (packetSize - 4) (length sec)) packetSize (copy_at (header_marshalTo h (w_pkt w)) 4 sec) =
      header_bytes h @ sec @ replicate (184 - length sec) 0xFF" for h
    using assms by (subst stuff_eq)
      (simp_all add: packetSize_def min_absorb2 header_marshalTo_eq copy_at_def Let_def)
  show ?thesis
    unfolding writeSection_def nextCC_def Let_def prod.case
    by (simp add: p cc_of_def[symmetric] cc_step_def psi_packet_def split: prod.splits)
qed

section \<open>A writer whose output accepts every write\<close>

lemma healthy_appended:
  "healthy w \<Longrightarrow> length p = n \<Longrightarrow>
     healthy (w\<lparr>content := content w @ p, pos := length (content w) + n, plan := tl (plan w)\<rparr>)"
  using healthy_after_Write[of w p] by simp

lemma write_all_healthy:
  assumes "healthy d"
  shows "\<exists>d'. write_all ps d = (None, d') \<and> healthy d' \<and> content d' = content d @ concat ps"
  using assms
proof (induction ps arbitrary: d)
  case (Cons p ps)
  let ?d = "d\<lparr>content := content d @ p, pos := pos d + length p, plan := tl (plan d)\<rparr>"
  have "healthy ?d" using Cons.prems by (rule healthy_after_Write)
  from Cons.IH[OF this] show ?case using Cons.prems by (simp add: Write_healthy)
qed simp

text \<open>The writer's invariant, kept by every successful call.\<close>

definition writer_ok :: "ts_writer \<Rightarrow> bool" where
  "writer_ok w \<longleftrightarrow> length (w_pkt w) = packetSize \<and> healthy (w_dst w) \<and>
     length (patRaw w) \<le> 184 \<and> length (pmtRaw w) \<le> 184 \<and> (\<forall>q. cc_of w q AND 0x0F = cc_of w q)"

lemma cc_step_masked [simp]: "cc_step c AND 0x0F = cc_step c"
  by (simp add: cc_step_def and.assoc)

lemma cc_step_funpow_masked: "c AND 0x0F = c \<Longrightarrow> (cc_step ^^ n) c AND 0x0F = (cc_step ^^ n) c"
  by (cases n) simp_all

lemma writeSection_ok:
  assumes "writer_ok w" "length sec \<le> 184"
  shows "\<exists>w'. writeSection pid sec w = (None, w') \<and> writer_ok w' \<and> same_config w w' \<and>
     content (w_dst w') = content (w_dst w) @ psi_packet pid (cc_of w pid) sec \<and>
     cc_of w' = (cc_of w)(pid := cc_step (cc_of w pid)) \<and>
     psiWritten w' = psiWritten w \<and> lastPSIDTS w' = lastPSIDTS w"
proof -
  have "cc_of (w\<lparr>w_cc := (w_cc w)(pid \<mapsto> c), w_pkt := p, w_dst := d\<rparr>) = (cc_of w)(pid := c)" for c p d
    by (auto simp: cc_of_def)
  then show ?thesis using assms
    by (auto simp: writeSection_spec writer_ok_def same_config_def Write_healthy length_psi_packet
        intro!: healthy_appended)
qed

definition psi_due :: "int \<Rightarrow> ts_writer \<Rightarrow> bool" where
  "psi_due dts w \<longleftrightarrow> \<not> (psiWritten w \<and> dts \<ge> lastPSIDTS w \<and> i64 (dts - lastPSIDTS w) < psiIntervalTicks)"

definition psi_packets :: "ts_writer \<Rightarrow> bytes list" where
  "psi_packets w = [psi_packet pidPAT (cc_of w pidPAT) (patRaw w),
     psi_packet writerPMTPID (cc_of w writerPMTPID) (pmtRaw w)]"

lemma maybeWritePSI_ok:
  assumes "writer_ok w"
  shows "\<exists>w'. maybeWritePSI dts w = (None, w') \<and> writer_ok w' \<and> same_config w w' \<and>
     content (w_dst w') = content (w_dst w) @ concat (if psi_due dts w then psi_packets w else []) \<and>
     (\<forall>q. q \<noteq> pidPAT \<longrightarrow> q \<noteq> writerPMTPID \<longrightarrow> cc_of w' q = cc_of w q) \<and> psiWritten w' \<and>
     (\<forall>q. q = pidPAT \<or> q = writerPMTPID \<longrightarrow> cc_of w' q = (if psi_due dts w then cc_step (cc_of w q) else cc_of w q))"
proof (cases "psi_due dts w")
  case False
  with assms show ?thesis by (auto simp: maybeWritePSI_def psi_due_def same_config_def)
next
  case True
  obtain w1 where w1: "writeSection pidPAT (patRaw w) w = (None, w1)" "writer_ok w1" "same_config w w1"
      "content (w_dst w1) = content (w_dst w) @ psi_packet pidPAT (cc_of w pidPAT) (patRaw w)"
      "cc_of w1 = (cc_of w)(pidPAT := cc_step (cc_of w pidPAT))"
    using writeSection_ok[OF assms, of "patRaw w" pidPAT] assms by (auto simp: writer_ok_def)
  obtain w2 where w2: "writeSection writerPMTPID (pmtRaw w1) w1 = (None, w2)" "writer_ok w2" "same_config w1 w2"
      "content (w_dst w2) = content (w_dst w1) @ psi_packet writerPMTPID (cc_of w1 writerPMTPID) (pmtRaw w1)"
      "cc_of w2 = (cc_of w1)(writerPMTPID := cc_step (cc_of w1 writerPMTPID))"
    using writeSection_ok[OF w1(2), of "pmtRaw w1" writerPMTPID] w1(2) by (auto simp: writer_ok_def)
  let ?w = "w2\<lparr>psiWritten := True, lastPSIDTS := dts\<rparr>"
  have "maybeWritePSI dts w = (None, ?w)" using True w1(1) w2(1)
    by (auto simp: maybeWritePSI_def psi_due_def)
  moreover have "writer_ok ?w" using w2(2) by (simp add: writer_ok_def cc_of_def)
  moreover have "same_config w ?w" using same_config_trans[OF w1(3) w2(3)] by (simp add: same_config_def)
  moreover have "cc_of ?w = cc_of w2" by (auto simp: cc_of_def)
  moreover have "cc_of w1 writerPMTPID = cc_of w writerPMTPID" "pmtRaw w1 = pmtRaw w"
    using w1(3,5) by (simp_all add: same_config_def pidPAT_def writerPMTPID_def)
  ultimately show ?thesis using True w1 w2 by (auto simp: psi_packets_def)
qed

section \<open>One access unit\<close>

definition pcr_value :: "ts_writer \<Rightarrow> u16 \<Rightarrow> int \<Rightarrow> u64" where
  "pcr_value w pid dts =
     (if pid = w_pcrPID w then word_of_int (max (i64 (dts - pcrDelayTicks)) 0) * 300 else 0)"

definition unit_packets :: "ts_writer \<Rightarrow> u16 \<Rightarrow> int \<Rightarrow> int \<Rightarrow> bytes \<Rightarrow> bool \<Rightarrow> bytes list" where
  "unit_packets w pid pts dts data random =
     pes_packets pid random (pid = w_pcrPID w) (pcr_value w pid dts) (cc_of w pid) True
       (appendPESHeader [] streamIDVideo pts dts @ data)"

lemma writeAccessUnit_ok:
  fixes aud :: "bytes option" and au :: bytes
  assumes "writer_ok w" "byPID w pid = Some t" "track_Codec t = codec" "au \<noteq> []"
    and "pid \<noteq> pidPAT" "pid \<noteq> writerPMTPID"
  defines "data \<equiv> (case aud of None \<Rightarrow> [] | Some a \<Rightarrow> a) @ au"
  shows "\<exists>w'. writeAccessUnit pid codec pts dts aud au random w = Some (None, w') \<and> writer_ok w' \<and>
     same_config w w' \<and> psiWritten w' \<and>
     content (w_dst w') = content (w_dst w) @ concat (if psi_due dts w then psi_packets w else [])
       @ concat (unit_packets w pid pts dts data random) \<and>
     (\<forall>q. q \<noteq> pidPAT \<longrightarrow> q \<noteq> writerPMTPID \<longrightarrow> cc_of w' q =
        (if q = pid then (cc_step ^^ length (unit_packets w pid pts dts data random)) (cc_of w pid) else cc_of w q)) \<and>
     (\<forall>q. q = pidPAT \<or> q = writerPMTPID \<longrightarrow> cc_of w' q = (if psi_due dts w then cc_step (cc_of w q) else cc_of w q))"
proof -
  obtain w1 where w1: "maybeWritePSI dts w = (None, w1)" "writer_ok w1" "same_config w w1"
     "content (w_dst w1) = content (w_dst w) @ concat (if psi_due dts w then psi_packets w else [])"
     "\<forall>q. q \<noteq> pidPAT \<longrightarrow> q \<noteq> writerPMTPID \<longrightarrow> cc_of w1 q = cc_of w q" "psiWritten w1"
     "\<forall>q. q = pidPAT \<or> q = writerPMTPID \<longrightarrow> cc_of w1 q = (if psi_due dts w then cc_step (cc_of w q) else cc_of w q)"
    using maybeWritePSI_ok[OF assms(1)] by blast
  define segs where "segs = [appendPESHeader [] streamIDVideo pts dts]
                   @ (case aud of None \<Rightarrow> [] | Some a \<Rightarrow> [a]) @ [au]"
  have cs: "concat segs = appendPESHeader [] streamIDVideo pts dts @ data"
    by (simp add: segs_def data_def split: option.split)
  have pc: "w_pcrPID w1 = w_pcrPID w" "byPID w1 = byPID w" using w1(3) by (simp_all add: same_config_def)
  define ps where "ps = unit_packets w pid pts dts data random"
  have ps1: "ps = pes_packets pid random (pid = w_pcrPID w1) (pcr_value w1 pid dts) (cc_of w1 pid) True (concat segs)"
    using w1(5) assms(5,6) by (simp add: ps_def unit_packets_def cs pc pcr_value_def)
  obtain d where d: "write_all ps (w_dst w1) = (None, d)" "healthy d" "content d = content (w_dst w1) @ concat ps"
    using write_all_healthy[of "w_dst w1" ps] w1(2) by (auto simp: writer_ok_def)
  obtain w' where w': "writePES pid random (pid = w_pcrPID w1) (pcr_value w1 pid dts) segs w1 = Some (None, w')"
      "w_dst w' = d" "length (w_pkt w') = packetSize" "same_config w1 w'" "psiWritten w' = psiWritten w1"
      "\<forall>q. cc_of w' q = (if q = pid then (cc_step ^^ length ps) (cc_of w1 pid) else cc_of w1 q)"
    using writePES_spec[of w1 pid random "pid = w_pcrPID w1" "pcr_value w1 pid dts" segs] w1(2) d
    unfolding ps1[symmetric] by (auto simp: writer_ok_def)
  have run: "writeAccessUnit pid codec pts dts aud au random w = Some (None, w')"
    using assms(2-4) w1(1) w'(1)
    by (simp add: writeAccessUnit_def Let_def segs_def pcr_value_def)
  have "writer_ok w'"
    using w1(2) w'(2-4,6) d(2)
    by (auto simp: writer_ok_def same_config_def cc_step_funpow_masked)
  then show ?thesis
    using run w' w1 d same_config_trans[OF w1(3) w'(4)] assms(5,6)
    by (auto simp: ps_def[symmetric])
qed

text \<open>Calls of the two write methods, as values.\<close>

datatype au_call = H264Call u16 int int bytes | H265Call u16 int int bytes

fun run_call :: "au_call \<Rightarrow> ts_writer \<Rightarrow> (ts_error option \<times> ts_writer) option" where
  "run_call (H264Call pid pts dts au) w = WriteH264 pid pts dts au w"
| "run_call (H265Call pid pts dts au) w = WriteH265 pid pts dts au w"

fun run_calls :: "au_call list \<Rightarrow> ts_writer \<Rightarrow> (ts_error option \<times> ts_writer) option" where
  "run_calls [] w = Some (None, w)"
| "run_calls (c # cs) w = (case run_call c w of
     None \<Rightarrow> None
   | Some (Some e, w1) \<Rightarrow> Some (Some e, w1)
   | Some (None, w1) \<Rightarrow> run_calls cs w1)"

fun call_pid :: "au_call \<Rightarrow> u16" where
  "call_pid (H264Call pid _ _ _) = pid" | "call_pid (H265Call pid _ _ _) = pid"
fun call_codec :: "au_call \<Rightarrow> codec" where
  "call_codec (H264Call _ _ _ _) = CodecH264" | "call_codec (H265Call _ _ _ _) = CodecH265"
fun call_pts :: "au_call \<Rightarrow> int" where
  "call_pts (H264Call _ pts _ _) = pts" | "call_pts (H265Call _ pts _ _) = pts"
fun call_dts :: "au_call \<Rightarrow> int" where
  "call_dts (H264Call _ _ dts _) = dts" | "call_dts (H265Call _ _ dts _) = dts"
fun call_au :: "au_call \<Rightarrow> bytes" where
  "call_au (H264Call _ _ _ au) = au" | "call_au (H265Call _ _ _ au) = au"
fun call_random :: "au_call \<Rightarrow> bool" where
  "call_random (H264Call _ _ _ au) = h264IsRandomAccess au" | "call_random (H265Call _ _ _ au) = h265IsRandomAccess au"

text \<open>The elementary stream bytes of a call: the access unit, after a delimiter when it has none.\<close>

fun call_data :: "au_call \<Rightarrow> bytes" where
  "call_data (H264Call _ _ _ au) = (if h264StartsWithAUD au then [] else audH264) @ au"
| "call_data (H265Call _ _ _ au) = (if h265StartsWithAUD au then [] else audH265) @ au"

definition call_ok :: "ts_writer \<Rightarrow> au_call \<Rightarrow> bool" where
  "call_ok w c \<longleftrightarrow> byPID w (call_pid c) = Some \<lparr>track_PID = call_pid c, track_Codec = call_codec c\<rparr> \<and>
     call_au c \<noteq> [] \<and> call_pid c \<noteq> pidPAT \<and> call_pid c \<noteq> writerPMTPID"

definition call_packets :: "ts_writer \<Rightarrow> au_call \<Rightarrow> bytes list" where
  "call_packets w c = unit_packets w (call_pid c) (call_pts c) (call_dts c) (call_data c) (call_random c)"

lemma run_call_ok:
  assumes "writer_ok w" "call_ok w c"
  shows "\<exists>w'. run_call c w = Some (None, w') \<and> writer_ok w' \<and> same_config w w' \<and> psiWritten w' \<and>
     content (w_dst w') = content (w_dst w)
       @ concat ((if psi_due (call_dts c) w then psi_packets w else []) @ call_packets w c) \<and>
     (\<forall>q. q \<noteq> pidPAT \<longrightarrow> q \<noteq> writerPMTPID \<longrightarrow> cc_of w' q =
        (if q = call_pid c then (cc_step ^^ length (call_packets w c)) (cc_of w (call_pid c)) else cc_of w q)) \<and>
     (\<forall>q. q = pidPAT \<or> q = writerPMTPID \<longrightarrow> cc_of w' q = (if psi_due (call_dts c) w then cc_step (cc_of w q) else cc_of w q))"
proof (cases c)
  case (H264Call pid pts dts au)
  then have "au \<noteq> []" using assms(2) by (simp add: call_ok_def)
  then show ?thesis
    using writeAccessUnit_ok[OF assms(1), where pid = pid and codec = CodecH264 and au = au and pts = pts and dts = dts
        and aud = "if h264StartsWithAUD au then None else Some audH264" and random = "h264IsRandomAccess au"]
      assms(2) H264Call
    by (cases "h264StartsWithAUD au") (auto simp: call_ok_def WriteH264_def call_packets_def)
next
  case (H265Call pid pts dts au)
  then have "au \<noteq> []" using assms(2) by (simp add: call_ok_def)
  then show ?thesis
    using writeAccessUnit_ok[OF assms(1), where pid = pid and codec = CodecH265 and au = au and pts = pts and dts = dts
        and aud = "if h265StartsWithAUD au then None else Some audH265" and random = "h265IsRandomAccess au"]
      assms(2) H265Call
    by (cases "h265StartsWithAUD au") (auto simp: call_ok_def WriteH265_def call_packets_def)
qed

end
