(* ===== verification/TsRoundTrip.thy ===== *)
theory TsRoundTrip
  imports TsReader TsWriter
begin

text \<open>
  The multiplexer of \<open>mpegts/writer.go\<close> and the demultiplexer of \<open>mpegts/reader.go\<close> against each
  other: every sequence of access units that the writer accepts is read back, track by track.
\<close>

section \<open>What the packets of the writer say\<close>

text \<open>The clock reference that a packet carries.\<close>

definition pkt_pcr :: "bytes \<Rightarrow> u64 option" where
  "pkt_pcr pkt = (case parsePacketHeader pkt of
     Inl _ \<Rightarrow> None
   | Inr hdr \<Rightarrow> (case packetPayload pkt hdr of
         Inl _ \<Rightarrow> None | Inr (_, af) \<Rightarrow> if hasPCR af then Some (pcr af) else None))"

lemma parse_adaptation_written:
  assumes "t = 1 \<or> encodedLen af \<le> t" "t \<le> 256" "t = 1 \<Longrightarrow> \<not> randomAccess af \<and> \<not> hasPCR af"
  shows "\<exists>af'. parseAdaptationField (adaptation_bytes af t @ r) = Inr (af', t) \<and> randomAccess af' = randomAccess af \<and>
    hasPCR af' = hasPCR af \<and> (hasPCR af \<longrightarrow> pcr af' = wire_pcr (pcr af))"
proof (cases "t = 1")
  case True
  then show ?thesis using assms(3) parse_adaptation_one[of af r] by (simp add: no_adaptation_def)
next
  case False
  then show ?thesis using assms(1,2) parse_adaptation_bytes[of af t r] by auto
qed

lemma parse_header_bytes:
  assumes "hdr_pid h < 0x2000" "continuityCounter h AND 0x0F = continuityCounter h" "scramblingControl h = 0" "hasPayload h"
  shows "parsePacketHeader (header_bytes h @ r) = Inr h"
proof -
  have m: "(0x1FFF :: u16) = mask 13" by (simp add: mask_eq_exp_minus_1)
  have "hdr_pid h AND 0x1FFF = hdr_pid h"
    unfolding m using word_bit_less[of "hdr_pid h" 13] assms(1) by (intro bit_word_eqI) (auto simp: bit_simps)
  moreover have "header_marshalTo h (replicate 4 0 @ r) = header_bytes h @ r" by (simp add: header_marshalTo_eq)
  ultimately show ?thesis using parse_header_marshalTo[of "replicate 4 0 @ r" h] assms by simp
qed

lemma view_pes_packet:
  assumes "pid < 0x2000" "counter AND 0x0F = counter" "r \<noteq> []"
  shows "\<exists>hdr. pkt_view (pes_packet pid af counter first r) = Some (hdr, randomAccess af, take (pes_chunk af r) r) \<and>
    hdr_pid hdr = pid \<and> payloadUnitStart hdr = first \<and> continuityCounter hdr = counter"
    "pkt_pcr (pes_packet pid af counter first r) = (if hasPCR af then Some (wire_pcr (pcr af)) else None)"
proof -
  define t where "t = pes_afTotal af (length r)"
  define hdr where "hdr = (new_header pid first counter)\<lparr>hasAdaptationField := t > 0\<rparr>"
  define body where "body = (if t > 0 then adaptation_bytes af t else []) @ take (pes_chunk af r) r"
  note props = pes_afTotal_props[where af = af and rm = "length r", folded t_def]
  have pk: "pes_packet pid af counter first r = header_bytes hdr @ body"
    by (simp add: pes_packet_def Let_def t_def hdr_def body_def)
  have ph: "parsePacketHeader (header_bytes hdr @ body) = Inr hdr"
    using assms by (intro parse_header_bytes) (simp_all add: hdr_def new_header_def)
  have la: "t > 0 \<Longrightarrow> length (adaptation_bytes af t) = t" using props(2) by (intro length_adaptation_bytes) auto
  have ch: "0 < length (take (pes_chunk af r) r)" using props(5) assms(3) by (simp add: pes_chunk_def t_def)
  have "\<exists>af'. packetPayload (header_bytes hdr @ body) hdr = Inr (Some (take (pes_chunk af r) r), af') \<and>
      randomAccess af' = randomAccess af \<and> hasPCR af' = hasPCR af \<and> (hasPCR af \<longrightarrow> pcr af' = wire_pcr (pcr af))"
  proof (cases "t > 0")
    case True
    obtain af' where "parseAdaptationField (adaptation_bytes af t @ take (pes_chunk af r) r) = Inr (af', t)"
      "randomAccess af' = randomAccess af" "hasPCR af' = hasPCR af" "hasPCR af \<longrightarrow> pcr af' = wire_pcr (pcr af)"
      using parse_adaptation_written[of t af "take (pes_chunk af r) r"] props True by auto
    then show ?thesis using True la ch by (simp add: packetPayload_def body_def hdr_def new_header_def Let_def)
  next
    case False
    then show ?thesis using props(3) ch by (simp add: packetPayload_def body_def hdr_def new_header_def Let_def no_adaptation_def)
  qed
  then obtain af' where af': "packetPayload (header_bytes hdr @ body) hdr = Inr (Some (take (pes_chunk af r) r), af')"
    "randomAccess af' = randomAccess af" "hasPCR af' = hasPCR af" "hasPCR af \<longrightarrow> pcr af' = wire_pcr (pcr af)" by blast
  show "\<exists>hdr. pkt_view (pes_packet pid af counter first r) = Some (hdr, randomAccess af, take (pes_chunk af r) r) \<and>
    hdr_pid hdr = pid \<and> payloadUnitStart hdr = first \<and> continuityCounter hdr = counter"
    unfolding pk pkt_view_def ph using af' by (auto simp: hdr_def new_header_def)
  show "pkt_pcr (pes_packet pid af counter first r) = (if hasPCR af then Some (wire_pcr (pcr af)) else None)"
    unfolding pk pkt_pcr_def ph using af' by simp
qed

lemma on_pid_psi_packet:
  assumes "counter AND 0x0F = counter" "q < 0x2000" "p \<noteq> q"
  shows "\<not> on_pid p (psi_packet q counter sec)"
proof -
  have "parsePacketHeader (psi_packet q counter sec) = Inr (new_header q True counter)"
    unfolding psi_packet_def using assms by (intro parse_header_bytes) (simp_all add: new_header_def)
  then show ?thesis using assms(3)
    by (auto simp: on_pid_def pkt_view_def new_header_def split: option.splits sum.splits prod.splits if_splits)
qed

section \<open>One stream reads its units back\<close>

lemma cc_step_neq: "cc_step c \<noteq> c"
proof
  assume "cc_step c = c"
  then have "bit ((c + 1) AND 0x0F) 0 = bit c 0" by (simp add: cc_step_def)
  then show False by (simp only: byte_masks bit_and_iff bit_mask_iff) (simp add: bit_0)
qed

lemma es_run_continue:
  assumes "pid < 0x2000" "collecting s" "hasCC s" "counter = cc_step (es_cc s)" "int (length (es_buf s @ r)) \<le> m"
  shows "\<exists>s'. es_run m (pes_packets pid rai wp v counter False r) s = ([], s') \<and>
    s' = s\<lparr>es_buf := es_buf s @ r, es_cc := es_cc s'\<rparr> \<and>
    cc_step (es_cc s') = (cc_step ^^ length (pes_packets pid rai wp v counter False r)) counter"
  using assms
proof (induction pid rai wp v counter "False" r arbitrary: s rule: pes_packets.induct)
  case (1 pid rai wp v counter r)
  show ?case
  proof (cases "r = []")
    case True
    then show ?thesis using "1.prems" by (simp add: pes_packets.simps)
  next
    case False
    define af where "af = pes_adaptation rai wp v False"
    define n where "n = pes_chunk af r"
    have ps: "pes_packets pid rai wp v counter False r =
        pes_packet pid af counter False r # pes_packets pid rai wp v (cc_step counter) False (drop n r)"
      using False by (subst pes_packets.simps) (simp add: Let_def af_def n_def cc_step_def)
    obtain hdr where v: "pkt_view (pes_packet pid af counter False r) = Some (hdr, randomAccess af, take n r)"
      "hdr_pid hdr = pid" "\<not> payloadUnitStart hdr" "continuityCounter hdr = counter"
      using view_pes_packet(1)[of pid counter r af False] "1.prems"(1,4) False by (auto simp: n_def)
    define s1 where "s1 = s\<lparr>es_buf := es_buf s @ take n r, es_cc := counter\<rparr>"
    have st: "es_step m (pes_packet pid af counter False r) s = (None, s1)"
      using "1.prems" v cc_step_neq[of "es_cc s"]
      by (auto simp: es_step_def handleES_def Let_def s1_def cc_step_def)
    have "int (length (es_buf s1 @ drop n r)) \<le> m" using "1.prems"(5) by (simp add: s1_def)
    then obtain s' where s': "es_run m (pes_packets pid rai wp v (cc_step counter) False (drop n r)) s1 = ([], s')"
      "s' = s1\<lparr>es_buf := es_buf s1 @ drop n r, es_cc := es_cc s'\<rparr>"
      "cc_step (es_cc s') = (cc_step ^^ length (pes_packets pid rai wp v (cc_step counter) False (drop n r))) (cc_step counter)"
      using "1.hyps"[of af s1] "1.prems" False unfolding af_def[symmetric] n_def[symmetric] cc_step_def[of counter, symmetric]
      by (auto simp: af_def s1_def)
    show ?thesis unfolding ps using st s'
      by (auto simp: s1_def funpow_swap1)
  qed
qed

text \<open>The timestamps that a stream gives to a unit.\<close>

definition unit_of :: "track \<Rightarrow> int \<Rightarrow> int \<Rightarrow> bool \<Rightarrow> bytes \<Rightarrow> AccessUnit" where
  "unit_of t pts dts rai data =
     \<lparr>au_Track = t, au_PTS = pts, au_DTS = dts, au_RandomAccess = rai, au_Data = data\<rparr>"

lemma es_run_unit:
  fixes pts dts :: int and v :: u64 and wp rai :: bool
  assumes "pid < 0x2000" "counter AND 0x0F = counter" "hasCC s \<Longrightarrow> cc_step (es_cc s) = counter"
    and "data \<noteq> []" "int (length data) \<le> m"
  defines "ps \<equiv> pes_packets pid rai wp v counter True (appendPESHeader [] streamIDVideo pts dts @ data)"
    and "d \<equiv> extendTimestamp (lastTS s) (take_bit 33 dts)"
  shows "\<exists>s'. es_run m ps s = (pending [s], s') \<and> es_track s' = es_track s \<and> hasCC s' \<and> lastTS s' = d \<and>
    cc_step (es_cc s') = (cc_step ^^ length ps) counter \<and>
    pending [s'] = [unit_of (es_track s) (extendTimestamp d (take_bit 33 pts)) d rai data]"
proof -
  define h where "h = appendPESHeader [] streamIDVideo pts dts"
  define af where "af = pes_adaptation rai wp v True"
  define n where "n = pes_chunk af (h @ data)"
  have lh: "length h \<le> 19" by (simp add: h_def length_appendPESHeader)
  have n: "length h < n" "n \<le> length (h @ data)"
    using pes_afTotal_props(6)[where af = af and rm = "length (h @ data)"] lh assms(4)
    by (auto simp: n_def pes_chunk_def encodedLen_def min_def length_greater_0_conv[symmetric] simp del: length_greater_0_conv)
  have tk: "take n (h @ data) = h @ take (n - length h) data" "drop n (h @ data) = drop (n - length h) data"
    using n by simp_all
  have ps: "ps = pes_packet pid af counter True (h @ data) # pes_packets pid rai wp v (cc_step counter) False (drop n (h @ data))"
    unfolding ps_def by (subst pes_packets.simps) (simp add: Let_def af_def n_def cc_step_def h_def)
  obtain hdr where v: "pkt_view (pes_packet pid af counter True (h @ data)) = Some (hdr, rai, h @ take (n - length h) data)"
      "hdr_pid hdr = pid" "payloadUnitStart hdr" "continuityCounter hdr = counter"
    using view_pes_packet(1)[of pid counter "h @ data" af True] assms(1,2,4) tk(1)
    by (auto simp: n_def af_def pes_adaptation_def)
  define s0 where "s0 = snd (finish (s\<lparr>es_cc := counter, hasCC := True\<rparr>))"
  have f: "fst (finish (s\<lparr>es_cc := counter, hasCC := True\<rparr>)) = fst (finish s)" by (simp add: finish_def Let_def)
  have s0: "es_track s0 = es_track s" "lastTS s0 = lastTS s" "es_cc s0 = counter" "hasCC s0"
    by (simp_all add: s0_def finish_def Let_def)
  define s1 where "s1 = startUnit rai (h @ take (n - length h) data) s0"
  have s1: "s1 = s0\<lparr>lastTS := d, es_pts := extendTimestamp d (take_bit 33 pts), es_dts := d, es_rai := rai,
      es_buf := take (n - length h) data, collecting := True\<rparr>"
    using s0 unfolding s1_def startUnit_def h_def parse_appendPESHeader Let_def d_def
    by (auto simp: length_appendPESHeader)
  have st: "es_step m (pes_packet pid af counter True (h @ data)) s = (fst (finish s), s1)"
    using v assms(3) f by (auto simp: es_step_def handleES_def Let_def cc_step_def s1_def s0_def split: prod.split)
  obtain s' where s': "es_run m (pes_packets pid rai wp v (cc_step counter) False (drop n (h @ data))) s1 = ([], s')"
      "s' = s1\<lparr>es_buf := es_buf s1 @ drop n (h @ data), es_cc := es_cc s'\<rparr>"
      "cc_step (es_cc s') = (cc_step ^^ length (pes_packets pid rai wp v (cc_step counter) False (drop n (h @ data)))) (cc_step counter)"
    using es_run_continue[of pid s1 "cc_step counter" "drop n (h @ data)" m rai wp v] assms(1,5) n s0
    by (auto simp: s1 tk)
  have "es_buf s1 @ drop n (h @ data) = data" using n(1) by (simp add: s1)
  then have e: "s' = s1\<lparr>es_buf := data, es_cc := es_cc s'\<rparr>" using s'(2) by simp
  have "pending [s'] = [unit_of (es_track s) (extendTimestamp d (take_bit 33 pts)) d rai data]"
    using assms(4) by (subst e) (simp add: pending_def finish_def Let_def s1 s0 unit_of_def)
  moreover have "es_track s' = es_track s" "hasCC s'" "lastTS s' = d"
    by (subst e, simp add: s1 s0)+
  ultimately show ?thesis unfolding ps using st s'(1,3)
    by (auto simp: pending_def funpow_swap1 split: option.split)
qed

section \<open>A sequence of calls\<close>

fun run_packets :: "ts_writer \<Rightarrow> au_call list \<Rightarrow> bytes list" where
  "run_packets w [] = []"
| "run_packets w (c # cs) =
     (if psi_due (call_dts c) w then psi_packets w else []) @ call_packets w c @ run_packets (snd (the (run_call c w))) cs"

definition accepted :: "ts_writer \<Rightarrow> au_call \<Rightarrow> bool" where
  "accepted w c \<longleftrightarrow> (case byPID w (call_pid c) of
     None \<Rightarrow> False | Some t \<Rightarrow> track_Codec t = call_codec c) \<and> call_au c \<noteq> []"

text \<open>What the options leave: a track is registered under its own PID, inside the elementary range.\<close>

definition tracks_ok :: "ts_writer \<Rightarrow> bool" where
  "tracks_ok w \<longleftrightarrow> (\<forall>p t. byPID w p = Some t \<longrightarrow>
     track_PID t = p \<and> minElementaryPID \<le> p \<and> p \<le> maxElementaryPID \<and> p \<noteq> writerPMTPID)"

lemma tracks_ok_pid:
  assumes "tracks_ok w" "byPID w p = Some t"
  shows "p < 0x2000" "p \<noteq> pidPAT" "p \<noteq> writerPMTPID" "track_PID t = p"
proof -
  have *: "minElementaryPID \<le> p" "p \<le> maxElementaryPID" "p \<noteq> writerPMTPID" "track_PID t = p"
    using assms by (auto simp: tracks_ok_def)
  show "p \<noteq> writerPMTPID" "track_PID t = p" using * by simp_all
  show "p < 0x2000" using *(2) unfolding maxElementaryPID_def by (rule le_less_trans) simp
  show "p \<noteq> pidPAT" using *(1) by (auto simp: minElementaryPID_def pidPAT_def)
qed

lemma accepted_ok:
  assumes "tracks_ok w" "accepted w c"
  shows "call_ok w c" "call_pid c < 0x2000"
  using assms tracks_ok_pid[OF assms(1)]
  by (auto simp: accepted_def call_ok_def split: option.splits)

lemma same_config_accepted: "same_config w w' \<Longrightarrow> accepted w' c = accepted w c" "same_config w w' \<Longrightarrow> tracks_ok w' = tracks_ok w"
  by (simp_all add: same_config_def accepted_def tracks_ok_def)

lemma call_packets_size: "p \<in> set (call_packets w c) \<Longrightarrow> length p = packetSize"
  by (auto simp: call_packets_def unit_packets_def intro: pes_packets_size)

lemma psi_packets_size: "writer_ok w \<Longrightarrow> p \<in> set (psi_packets w) \<Longrightarrow> length p = packetSize"
  by (auto simp: psi_packets_def writer_ok_def length_psi_packet)

lemma run_calls_ok:
  assumes "writer_ok w" "tracks_ok w" "\<forall>c \<in> set cs. accepted w c"
  shows "\<exists>w'. run_calls cs w = Some (None, w') \<and> writer_ok w' \<and> same_config w w' \<and>
     content (w_dst w') = content (w_dst w) @ concat (run_packets w cs) \<and>
     (\<forall>p \<in> set (run_packets w cs). length p = packetSize)"
  using assms
proof (induction cs arbitrary: w)
  case Nil
  then show ?case by (simp add: same_config_def)
next
  case (Cons c cs)
  obtain w1 where w1: "run_call c w = Some (None, w1)" "writer_ok w1" "same_config w w1"
     "content (w_dst w1) = content (w_dst w) @ concat ((if psi_due (call_dts c) w then psi_packets w else []) @ call_packets w c)"
    using run_call_ok[OF Cons.prems(1) accepted_ok(1)[OF Cons.prems(2), of c]] Cons.prems(3)
    unfolding list.set ball_simps by blast
  have "tracks_ok w1" "\<forall>c \<in> set cs. accepted w1 c" using Cons.prems same_config_accepted[OF w1(3)] by simp_all
  from Cons.IH[OF w1(2) this] obtain w' where "run_calls cs w1 = Some (None, w')" "writer_ok w'" "same_config w1 w'"
     "content (w_dst w') = content (w_dst w1) @ concat (run_packets w1 cs)"
     "\<forall>p \<in> set (run_packets w1 cs). length p = packetSize" by blast
  then show ?case using w1 same_config_trans[OF w1(3)] psi_packets_size[OF Cons.prems(1)]
    by (auto dest: call_packets_size)
qed

section \<open>The packets of one PID\<close>

lemma on_pid_pes_packets:
  assumes "pkt \<in> set (pes_packets pid rai wp v counter first r)" "first \<Longrightarrow> r \<noteq> []"
    and "pid < 0x2000" "counter AND 0x0F = counter"
  shows "on_pid p pkt \<longleftrightarrow> p = pid"
  using assms
proof (induction pid rai wp v counter first r rule: pes_packets.induct)
  case (1 pid rai wp v counter first r)
  define af where "af = pes_adaptation rai wp v first"
  have r: "r \<noteq> []" using "1.prems"(1,2) by (subst (asm) pes_packets.simps) (auto split: if_splits)
  have ps: "pes_packets pid rai wp v counter first r = pes_packet pid af counter first r
      # pes_packets pid rai wp v ((counter + 1) AND 0x0F) False (drop (pes_chunk af r) r)"
    using r by (subst pes_packets.simps) (simp add: Let_def af_def)
  consider "pkt = pes_packet pid af counter first r"
    | "pkt \<in> set (pes_packets pid rai wp v ((counter + 1) AND 0x0F) False (drop (pes_chunk af r) r))"
    using "1.prems"(1) unfolding ps by auto
  then show ?case
  proof cases
    case 1
    then show ?thesis using view_pes_packet(1)[OF "1.prems"(3,4) r, of af first] by (auto simp: on_pid_def)
  next
    case 2
    then show ?thesis using "1.IH"[OF _ af_def] r "1.prems"(3) by (simp add: and.assoc)
  qed
qed

lemma filter_call_packets:
  assumes "writer_ok w" "call_pid c < 0x2000"
  shows "filter (on_pid p) (call_packets w c) = (if call_pid c = p then call_packets w c else [])"
proof -
  have "appendPESHeader [] streamIDVideo (call_pts c) (call_dts c) @ call_data c \<noteq> []"
    by (simp add: appendPESHeader_eq Let_def)
  moreover have "cc_of w (call_pid c) AND 0x0F = cc_of w (call_pid c)" using assms(1) by (simp add: writer_ok_def)
  ultimately have "on_pid p pkt \<longleftrightarrow> p = call_pid c" if "pkt \<in> set (call_packets w c)" for pkt
    using on_pid_pes_packets[of pkt] that assms(2) unfolding call_packets_def unit_packets_def by blast
  then show ?thesis by (auto simp: filter_empty_conv filter_id_conv)
qed

lemma filter_psi_packets:
  assumes "writer_ok w" "p \<noteq> pidPAT" "p \<noteq> writerPMTPID"
  shows "filter (on_pid p) (psi_packets w) = []"
  using assms by (simp add: psi_packets_def writer_ok_def on_pid_psi_packet) (simp add: pidPAT_def writerPMTPID_def on_pid_psi_packet)

text \<open>
  Timestamps that 33 bits identify: the first decode time is below the wrap, and successive
  decode times, and the two times of one unit, are less than half the wrap apart.
\<close>

fun ts_chain :: "int \<Rightarrow> au_call list \<Rightarrow> bool" where
  "ts_chain prev [] \<longleftrightarrow> True"
| "ts_chain prev (c # cs) \<longleftrightarrow> 0 \<le> call_dts c \<and> call_dts c < 2 ^ 62 \<and>
     (if prev < 0 then call_dts c < 2 ^ 33 else \<bar>call_dts c - prev\<bar> < 2 ^ 32) \<and>
     \<bar>call_pts c - call_dts c\<bar> < 2 ^ 32 \<and> ts_chain (call_dts c) cs"

definition call_unit :: "au_call \<Rightarrow> AccessUnit" where
  "call_unit c = unit_of \<lparr>track_PID = call_pid c, track_Codec = call_codec c\<rparr>
     (call_pts c) (call_dts c) (call_random c) (call_data c)"

lemma call_data_nonempty: "call_au c \<noteq> [] \<Longrightarrow> call_data c \<noteq> []"
  by (cases c) simp_all

lemma extend_chain:
  assumes "0 \<le> dts" "prev < 2 ^ 62" "if prev < 0 then dts < 2 ^ 33 else \<bar>dts - prev\<bar> < 2 ^ 32"
  shows "extendTimestamp prev (take_bit 33 dts) = dts"
proof (cases "prev < 0")
  case True
  then show ?thesis using assms by (simp add: extendTimestamp_def take_bit_int_eq_self)
next
  case False
  then show ?thesis using assms by (intro extendTimestamp_eq) auto
qed

lemma stream_run:
  assumes "writer_ok w" "tracks_ok w" "\<forall>c \<in> set cs. accepted w c" "byPID w p = Some (es_track s)"
    and "hasCC s \<Longrightarrow> cc_step (es_cc s) = cc_of w p"
    and "ts_chain (lastTS s) (filter (\<lambda>c. call_pid c = p) cs)" "lastTS s < 2 ^ 62"
    and "\<forall>c \<in> set cs. int (length (call_data c)) \<le> m"
    and "es_run m (filter (on_pid p) (run_packets w cs)) s = (aus, s')"
  shows "aus @ pending [s'] = pending [s] @ map call_unit (filter (\<lambda>c. call_pid c = p) cs)"
  using assms
proof (induction cs arbitrary: w s aus)
  case Nil
  then show ?case by simp
next
  case (Cons c cs)
  have acc: "accepted w c" using Cons.prems(3) by simp
  note ok = accepted_ok[OF Cons.prems(2) acc]
  obtain w1 where w1: "run_call c w = Some (None, w1)" "writer_ok w1" "same_config w w1"
     "\<And>q. q \<noteq> pidPAT \<Longrightarrow> q \<noteq> writerPMTPID \<Longrightarrow> cc_of w1 q =
        (if q = call_pid c then (cc_step ^^ length (call_packets w c)) (cc_of w (call_pid c)) else cc_of w q)"
    using run_call_ok[OF Cons.prems(1) ok(1)] by blast
  have conf: "tracks_ok w1" "\<forall>c \<in> set cs. accepted w1 c" "byPID w1 p = Some (es_track s)"
    using Cons.prems(2-4) same_config_accepted[OF w1(3)] w1(3) by (simp_all add: same_config_def)
  note pid = tracks_ok_pid[OF Cons.prems(2,4)]
  have fl: "filter (on_pid p) (run_packets w (c # cs)) =
      (if call_pid c = p then call_packets w c else []) @ filter (on_pid p) (run_packets w1 cs)"
    using w1(1) filter_call_packets[OF Cons.prems(1) ok(2)] filter_psi_packets[OF Cons.prems(1) pid(2,3)] by simp
  show ?case
  proof (cases "call_pid c = p")
    case False
    then have "cc_of w1 p = cc_of w p" using w1(4)[OF pid(2,3)] by simp
    then show ?thesis using Cons.IH[OF w1(2) conf] Cons.prems False fl by simp
  next
    case True
    have ts: "ts_chain (lastTS s) (c # filter (\<lambda>c. call_pid c = p) cs)" using Cons.prems(6) True
      by (simp only: filter.simps if_True simp_thms)
    have e1: "extendTimestamp (lastTS s) (take_bit 33 (call_dts c)) = call_dts c"
      using ts Cons.prems(7) by (intro extend_chain) (auto split: if_splits)
    have e2: "extendTimestamp (call_dts c) (take_bit 33 (call_pts c)) = call_pts c"
      using ts by (intro extendTimestamp_eq) auto
    have tr: "es_track s = \<lparr>track_PID = call_pid c, track_Codec = call_codec c\<rparr>"
      using Cons.prems(4) ok(1) True by (simp add: call_ok_def)
    obtain s1 where s1: "es_run m (call_packets w c) s = (pending [s], s1)" "es_track s1 = es_track s" "hasCC s1"
        "lastTS s1 = call_dts c" "cc_step (es_cc s1) = (cc_step ^^ length (call_packets w c)) (cc_of w p)"
        "pending [s1] = [call_unit c]"
      using es_run_unit[of p "cc_of w p" s "call_data c" m "call_random c" "p = w_pcrPID w" "pcr_value w p (call_dts c)"
          "call_pts c" "call_dts c"] Cons.prems(1,5,8) pid(1) acc call_data_nonempty[of c] True e1 e2 tr
      by (auto simp: call_packets_def unit_packets_def writer_ok_def accepted_def call_unit_def)
    obtain bus where r: "es_run m (filter (on_pid p) (run_packets w1 cs)) s1 = (bus, s')" and aus: "aus = pending [s] @ bus"
      using Cons.prems(9) True s1(1) unfolding fl by (auto simp: es_run_append split: prod.splits)
    have "bus @ pending [s'] = pending [s1] @ map call_unit (filter (\<lambda>c. call_pid c = p) cs)"
      using s1 w1(4)[OF pid(2,3)] ts Cons.prems(8) conf True r by (intro Cons.IH[OF w1(2)]) auto
    then show ?thesis using aus s1(6) True by simp
  qed
qed

section \<open>Opening what the writer wrote\<close>

lemma track_eta [simp]: "\<lparr>track_PID = track_PID t, track_Codec = track_Codec t\<rparr> = t"
  by (cases t) simp

text \<open>The map from PIDs to streams is the position of the track.\<close>

definition indexed :: "reader \<Rightarrow> bool" where
  "indexed r \<longleftrightarrow> r_order r = map new_esStream (r_tracks r) \<and>
     (\<forall>p i. r_streams r p = Some i \<longleftrightarrow> i < length (r_tracks r) \<and> track_PID (r_tracks r ! i) = p)"

lemma indexed_add_track:
  assumes "indexed r" "track_PID t \<notin> track_PID ` set (r_tracks r)" "track_Codec t \<noteq> CodecUnknown"
  defines "r' \<equiv> add_track (track_stream t) r"
  shows "indexed r'" "r_tracks r' = r_tracks r @ [t]"
    "r_src r' = r_src r" "maxAUSize r' = maxAUSize r" "flushIdx r' = flushIdx r" "r_eof r' = r_eof r"
proof -
  have c: "codecFromStreamType (streamTypeFromCodec (track_Codec t)) = track_Codec t"
    using assms(3) by (cases "track_Codec t") (simp_all add: codecFromStreamType_def streamTypeFromCodec_def)
  have r: "r' = r\<lparr>r_tracks := r_tracks r @ [t], r_streams := (r_streams r)(track_PID t \<mapsto> length (r_order r)),
      r_order := r_order r @ [new_esStream t]\<rparr>"
    using assms(3) by (simp add: r'_def add_track_def track_stream_def c Let_def)
  have new: "track_PID (r_tracks r ! j) \<noteq> track_PID t" if "j < length (r_tracks r)" for j
    using assms(2) nth_mem[OF that] by (metis imageI)
  have "r_streams r' p = Some i \<longleftrightarrow> i < length (r_tracks r') \<and> track_PID (r_tracks r' ! i) = p" for p i
  proof -
    have "r_streams r p = Some i \<longleftrightarrow> i < length (r_tracks r) \<and> track_PID (r_tracks r ! i) = p"
      and l: "length (r_order r) = length (r_tracks r)"
      using assms(1) unfolding indexed_def by auto
    then show ?thesis using new[of i] unfolding r
      by (cases "i < length (r_tracks r)"; cases "p = track_PID t") (auto simp: nth_append less_Suc_eq)
  qed
  then show "indexed r'" using assms(1) unfolding indexed_def by (simp add: r)
  show "r_tracks r' = r_tracks r @ [t]" "r_src r' = r_src r" "maxAUSize r' = maxAUSize r"
    "flushIdx r' = flushIdx r" "r_eof r' = r_eof r" by (simp_all add: r)
qed

lemma fold_add_track:
  assumes "indexed r" "distinct (map track_PID (r_tracks r @ ts))" "\<forall>t \<in> set ts. track_Codec t \<noteq> CodecUnknown"
    and "r' = fold add_track (map track_stream ts) r"
  shows "indexed r' \<and> r_tracks r' = r_tracks r @ ts \<and>
    r_src r' = r_src r \<and> maxAUSize r' = maxAUSize r \<and> flushIdx r' = flushIdx r \<and> r_eof r' = r_eof r"
  using assms
proof (induction ts arbitrary: r)
  case Nil
  then show ?case by simp
next
  case (Cons t ts)
  have "track_PID t \<notin> track_PID ` set (r_tracks r)" "track_Codec t \<noteq> CodecUnknown" using Cons.prems(2,3) by auto
  note add = indexed_add_track[OF Cons.prems(1) this]
  show ?case using Cons.IH[OF add(1)] Cons.prems(2-4) by (simp add: add)
qed

lemma psi_packet_view:
  assumes "counter AND 0x0F = counter" "pid < 0x2000" "sec \<noteq> []"
  shows "parsePacketHeader (psi_packet pid counter sec) = Inr (new_header pid True counter)"
    "packetPayload (psi_packet pid counter sec) (new_header pid True counter) =
       Inr (Some (sec @ replicate (184 - length sec) 0xFF), no_adaptation)"
  unfolding psi_packet_def using assms parse_header_bytes[of "new_header pid True counter"]
  by (simp_all add: new_header_def packetPayload_def)

lemma whole_section_bytes:
  assumes "length (sec_data s) \<le> 1012"
  shows "whole_section (section_bytes s)"
proof -
  have "length12 (0xB0 OR of_nat (drop_bit 8 (9 + length (sec_data s)))) (of_nat (9 + length (sec_data s))) = 9 + length (sec_data s)"
    by (rule length12_enc) (use assms in simp_all)
  moreover have "section_bytes s ! 1 = 0xB0 OR of_nat (drop_bit 8 (9 + length (sec_data s)))"
    "section_bytes s ! 2 = of_nat (9 + length (sec_data s))" by (simp_all add: section_bytes_def Let_def)
  ultimately show ?thesis by (simp add: whole_section_def length_section_bytes)
qed

lemma feed_section:
  assumes "length (sec_data s) \<le> 1012"
  shows "\<exists>a'. feed True (0 # section_bytes s @ pad) a = Some (Some (section_bytes s), a')"
  using feed_reassembles[OF whole_section_bytes[OF assms], of "[]" 0 "section_bytes s @ pad" "[]" pad a]
  by (auto split: option.splits prod.splits)

lemma readPacket_append:
  assumes "st_data (r_src r) = p @ d" "length p = packetSize"
  shows "readPacket r = (Inr p, r\<lparr>r_src := (r_src r)\<lparr>st_data := d\<rparr>\<rparr>)"
  by (simp add: readPacket_def ReadFull_append[OF assms])

definition pat_section :: psiSection where
  "pat_section = \<lparr>tableID = tableIDPAT, tableIDExtension = 1, sec_version = 0,
     sec_data = marshal_program \<lparr>programNumber = 1, pmtPID = writerPMTPID\<rparr>\<rparr>"

definition pmt_section :: "u16 \<Rightarrow> track list \<Rightarrow> psiSection" where
  "pmt_section p ts = \<lparr>tableID = tableIDPMT, tableIDExtension = 1, sec_version = 0,
     sec_data = [0xE0 OR to8 (drop_bit 8 p), to8 p, 0xF0, 0x00] @ concat (map marshal_stream (map track_stream ts))\<rparr>"

lemma readPAT_section: "readPAT (section_bytes pat_section) r = (True, r\<lparr>r_pmtPID := writerPMTPID\<rparr>)"
proof -
  have "parseSectionBytes (section_bytes pat_section) = Inr pat_section"
    using parse_section_bytes[of pat_section "[]"] by (simp add: pat_section_def marshal_program_def)
  moreover have "parsePAT pat_section = Inr [\<lparr>programNumber = 1, pmtPID = writerPMTPID\<rparr>]"
    using parsePAT_entries_marshal[of "[\<lparr>programNumber = 1, pmtPID = writerPMTPID\<rparr>]"]
    by (simp add: parsePAT_def pat_section_def writerPMTPID_def)
  ultimately show ?thesis by (simp add: readPAT_def)
qed

lemma readPMT_section:
  assumes "length (sec_data (pmt_section p ts)) \<le> 1012" "p < 0x2000" "\<forall>t \<in> set ts. track_PID t < 0x2000"
    and "r_tracks (fold add_track (map track_stream ts) r) \<noteq> []"
  shows "readPMT (section_bytes (pmt_section p ts)) r = ((True, None), fold add_track (map track_stream ts) r)"
proof -
  have "parseSectionBytes (section_bytes (pmt_section p ts)) = Inr (pmt_section p ts)"
    using parse_section_bytes[OF assms(1), of "[]"] by (simp add: pmt_section_def)
  moreover have "parsePMT (pmt_section p ts) = Inr \<lparr>pcrPID = p, pmt_streams = map track_stream ts\<rparr>"
  proof -
    have "length12 0xF0 0 = 0" by (simp add: length12_def)
    moreover have "list_all (\<lambda>s. stream_pid s < 0x2000) (map track_stream ts)"
      using assms(3) by (auto simp: list_all_iff track_stream_def)
    ultimately show ?thesis using parsePMT_streams_marshal[of "map track_stream ts"] assms(2)
      by (simp add: parsePMT_def pmt_section_def pid13_enc)
  qed
  ultimately show ?thesis using assms(4) by (simp add: readPMT_def parsePMTSection_def)
qed

lemma readTables_written:
  assumes "r_src r = \<lparr>st_data = psi_packet pidPAT c1 (0 # section_bytes pat_section)
      @ psi_packet writerPMTPID c2 (0 # section_bytes (pmt_section p ts)) @ d, st_end = None\<rparr>"
    and "c1 AND 0x0F = c1" "c2 AND 0x0F = c2"
    and "length (0 # section_bytes (pmt_section p ts)) \<le> 184" "p < 0x2000" "\<forall>t \<in> set ts. track_PID t < 0x2000"
    and "r1 = r\<lparr>r_src := \<lparr>st_data = d, st_end = None\<rparr>, r_pmtPID := writerPMTPID\<rparr>"
    and "r_tracks (fold add_track (map track_stream ts) r1) \<noteq> []"
  shows "readTables r = Some (None, fold add_track (map track_stream ts) r1)"
proof -
  have patlen: "length (sec_data pat_section) = 4" by (simp add: pat_section_def marshal_program_def)
  have pmtlen: "length (sec_data (pmt_section p ts)) \<le> 1012" using assms(4) by (simp add: length_section_bytes)
  let ?sec1 = "0 # section_bytes pat_section" and ?sec2 = "0 # section_bytes (pmt_section p ts)"
  let ?p1 = "psi_packet pidPAT c1 ?sec1" and ?p2 = "psi_packet writerPMTPID c2 ?sec2"
  have pid: "pidPAT < 0x2000" "writerPMTPID < 0x2000" by (simp_all add: pidPAT_def writerPMTPID_def)
  define ra where "ra = r\<lparr>r_src := \<lparr>st_data = ?p2 @ d, st_end = None\<rparr>\<rparr>"
  have rp1: "readPacket r = (Inr ?p1, ra)"
    using assms(1) patlen by (subst readPacket_append[where d = "?p2 @ d"])
      (simp_all add: ra_def length_psi_packet length_section_bytes)
  define rb where "rb = ra\<lparr>r_pmtPID := writerPMTPID\<rparr>"
  have rp2: "readPacket rb = (Inr ?p2, r1)"
    using assms(4,7) by (subst readPacket_append[where d = d])
      (simp_all add: rb_def ra_def length_psi_packet)
  obtain a1 where f1: "feed True (?sec1 @ replicate (184 - length ?sec1) 0xFF) new_assembler = Some (Some (section_bytes pat_section), a1)"
    using feed_section[of pat_section "replicate (184 - length ?sec1) 0xFF"] patlen by auto
  obtain a2 where f2: "feed True (?sec2 @ replicate (184 - length ?sec2) 0xFF) new_assembler = Some (Some (section_bytes (pmt_section p ts)), a2)"
    using feed_section[OF pmtlen, of "replicate (184 - length ?sec2) 0xFF"] by auto
  have 2: "readTables_loop True a1 new_assembler rb = Some (None, fold add_track (map track_stream ts) r1)"
    using rp2 psi_packet_view[OF assms(3) pid(2), of ?sec2] f2 readPMT_section[OF pmtlen assms(5,6,8)] assms(7)
    by (subst readTables_loop.simps) (simp add: new_header_def)
  show ?thesis unfolding readTables_def
    using rp1 psi_packet_view[OF assms(2) pid(1), of ?sec1] f1 readPAT_section[of ra] 2
    by (subst readTables_loop.simps) (simp add: new_header_def rb_def)
qed

section \<open>A new writer\<close>

definition track_options :: "(codec \<times> u16) list \<Rightarrow> writer_option list" where
  "track_options specs = map (\<lambda>(c, p). withTrack c p) specs"

definition registered :: "ts_writer \<Rightarrow> bool" where
  "registered w \<longleftrightarrow> tracks_ok w \<and> distinct (map track_PID (w_tracks w)) \<and>
     (\<forall>p t. byPID w p = Some t \<longleftrightarrow> t \<in> set (w_tracks w) \<and> track_PID t = p)"

lemma withTrack_registered:
  assumes "withTrack c p w = (None, w1)" "registered w"
  shows "registered w1" "w_tracks w1 = w_tracks w @ [\<lparr>track_PID = p, track_Codec = c\<rparr>]"
    "w_dst w1 = w_dst w" "w_pkt w1 = w_pkt w" "w_cc w1 = w_cc w" "psiWritten w1 = psiWritten w"
proof -
  let ?t = "\<lparr>track_PID = p, track_Codec = c\<rparr>"
  have w1: "w1 = w\<lparr>w_tracks := w_tracks w @ [?t], byPID := (byPID w)(p \<mapsto> ?t)\<rparr>" and free: "byPID w p = None"
    and rng: "minElementaryPID \<le> p" "p \<le> maxElementaryPID" "p \<noteq> writerPMTPID"
    using assms(1) by (simp_all add: withTrack_def Let_def split: if_splits)
  have reg: "tracks_ok w" "distinct (map track_PID (w_tracks w))"
    "\<And>q u. byPID w q = Some u \<longleftrightarrow> u \<in> set (w_tracks w) \<and> track_PID u = q"
    using assms(2) unfolding registered_def by blast+
  have new: "p \<notin> track_PID ` set (w_tracks w)" using reg(3)[of p] free by (metis imageE option.distinct(1))
  have "tracks_ok w1" using reg(1) rng by (simp add: w1 tracks_ok_def)
  moreover have "distinct (map track_PID (w_tracks w1))" using reg(2) new by (simp add: w1)
  moreover have "byPID w1 q = Some u \<longleftrightarrow> u \<in> set (w_tracks w1) \<and> track_PID u = q" for q u
    using reg(3)[of q u] new by (cases "q = p") (auto simp: w1)
  ultimately show "registered w1" unfolding registered_def by blast
  show "w_tracks w1 = w_tracks w @ [?t]" "w_dst w1 = w_dst w" "w_pkt w1 = w_pkt w" "w_cc w1 = w_cc w"
    "psiWritten w1 = psiWritten w" by (simp_all add: w1)
qed

lemma registered_options:
  assumes "apply_writer_options (track_options specs) w = (None, w')" "registered w"
  shows "registered w' \<and> w_tracks w' = w_tracks w @ map (\<lambda>(c, p). \<lparr>track_PID = p, track_Codec = c\<rparr>) specs \<and>
    w_dst w' = w_dst w \<and> w_pkt w' = w_pkt w \<and> w_cc w' = w_cc w \<and> psiWritten w' = psiWritten w"
  using assms
proof (induction specs arbitrary: w)
  case Nil
  then show ?case by (simp add: track_options_def)
next
  case (Cons sp specs)
  obtain c p where sp: "sp = (c, p)" by fastforce
  obtain w1 where w1: "withTrack c p w = (None, w1)" "apply_writer_options (track_options specs) w1 = (None, w')"
    using Cons.prems(1) by (auto simp: track_options_def sp split: prod.splits option.splits)
  note reg = withTrack_registered[OF w1(1) Cons.prems(2)]
  show ?case using Cons.IH[OF w1(2) reg(1)] reg(2-) by (simp add: sp)
qed

lemma NewTsWriter_eq:
  assumes "apply_writer_options opts (initial_writer dst) = (None, w0)" "w_tracks w0 = t # ts"
    and "pm = pmt_section (track_PID t) (w_tracks w0)"
  shows "NewTsWriter dst opts =
       (if length (sec_data pm) > 1012 then Inl (Err errSectionTooLong)
        else if length (section_bytes pm) > 183 then Inl (Err errPSITooLarge)
        else Inr (w0\<lparr>w_pcrPID := track_PID t, patRaw := 0 # section_bytes pat_section, pmtRaw := 0 # section_bytes pm\<rparr>))"
proof -
  have pat: "marshalPAT 1 [\<lparr>programNumber = 1, pmtPID = writerPMTPID\<rparr>] = Inr (0 # section_bytes pat_section)"
    "length (section_bytes pat_section) = 16"
    by (simp_all add: marshalPAT_def marshal_section_eq pat_section_def length_section_bytes)
       (simp_all add: marshal_program_def)
  have pmt: "marshalPMT 1 \<lparr>pcrPID = track_PID t, pmt_streams = map track_stream (w_tracks w0)\<rparr> =
      (if length (sec_data pm) > 1012 then Inl (Err errSectionTooLong) else Inr (0 # section_bytes pm))"
    unfolding assms(3) by (simp only: marshalPMT_def marshal_section_eq pmt_section_def psiSection.simps pmt.simps)
  have r: "w_tracks (w0\<lparr>w_pcrPID := x\<rparr>) = w_tracks w0" "w_pcrPID (w0\<lparr>w_pcrPID := x\<rparr>) = x" for x by simp_all
  show ?thesis
    unfolding NewTsWriter_def assms(1) prod.case option.case assms(2) list.case Let_def pat(1) sum.case r pmt[unfolded assms(2)]
    by (auto simp: pat(2) packetSize_def)
qed

lemma NewTsWriter_ok:
  assumes "NewTsWriter dst (track_options specs) = Inr w" "healthy dst"
  shows "writer_ok w" "registered w" "w_tracks w = map (\<lambda>(c, p). \<lparr>track_PID = p, track_Codec = c\<rparr>) specs"
    "w_tracks w \<noteq> []" "w_pcrPID w = track_PID (hd (w_tracks w))" "w_dst w = dst" "\<not> psiWritten w"
    "patRaw w = 0 # section_bytes pat_section"
    "pmtRaw w = 0 # section_bytes (pmt_section (w_pcrPID w) (w_tracks w))" "length (pmtRaw w) \<le> 184" "w_cc w = Map.empty"
proof -
  obtain w0 where w0: "apply_writer_options (track_options specs) (initial_writer dst) = (None, w0)"
  proof (cases "apply_writer_options (track_options specs) (initial_writer dst)")
    case (Pair e w0)
    with assms(1) have "e = None" unfolding NewTsWriter_def by (cases e) simp_all
    with Pair that show thesis by simp
  qed
  have "registered (initial_writer dst)" by (simp add: registered_def initial_writer_def tracks_ok_def)
  note reg = registered_options[OF w0 this]
  obtain t ts where t: "w_tracks w0 = t # ts"
  proof (cases "w_tracks w0")
    case Nil
    with assms(1) have False unfolding NewTsWriter_def w0 by simp
    then show thesis ..
  qed
  let ?pm = "pmt_section (track_PID t) (w_tracks w0)"
  have w: "w = w0\<lparr>w_pcrPID := track_PID t, patRaw := 0 # section_bytes pat_section, pmtRaw := 0 # section_bytes ?pm\<rparr>"
    and len: "length (section_bytes ?pm) \<le> 183"
    using assms(1) unfolding NewTsWriter_eq[OF w0 t refl] by (simp_all only: sum.inject sum.distinct not_less split: if_splits)
  have f: "w_dst w = w_dst w0" "w_cc w = w_cc w0" "psiWritten w = psiWritten w0" "w_pkt w = w_pkt w0"
    "byPID w = byPID w0" "w_tracks w = w_tracks w0" "w_pcrPID w = track_PID t"
    "patRaw w = 0 # section_bytes pat_section" "pmtRaw w = 0 # section_bytes ?pm"
    unfolding w by simp_all
  have g: "w_dst w0 = dst" "w_cc w0 = Map.empty" "\<not> psiWritten w0" "length (w_pkt w0) = packetSize"
    using reg by (simp_all add: initial_writer_def)
  have "length (section_bytes pat_section) = 16" by (simp add: length_section_bytes pat_section_def marshal_program_def)
  then show "writer_ok w" using assms(2) len unfolding writer_ok_def f g cc_of_def by simp
  show "w_dst w = dst" "\<not> psiWritten w" unfolding f using g by simp_all
  show "registered w" using reg unfolding registered_def tracks_ok_def f by blast
  show "w_tracks w = map (\<lambda>(c, p). \<lparr>track_PID = p, track_Codec = c\<rparr>) specs"
    unfolding f using reg by (simp add: initial_writer_def)
  show "w_tracks w \<noteq> []" "w_pcrPID w = track_PID (hd (w_tracks w))" unfolding f t by simp_all
  show "patRaw w = 0 # section_bytes pat_section"
    "pmtRaw w = 0 # section_bytes (pmt_section (w_pcrPID w) (w_tracks w))" unfolding f by (rule refl)+
  show "length (pmtRaw w) \<le> 184" unfolding f using len by simp
  show "w_cc w = Map.empty" unfolding f g ..
qed

section \<open>Multiplexing and demultiplexing\<close>

lemma indexed_initial: "indexed (initial_reader src)"
  by (simp add: indexed_def initial_reader_def)

lemma indexed_streams_ok: "indexed r \<Longrightarrow> streams_ok r"
  unfolding indexed_def streams_ok_def by (simp add: new_esStream_def)

text \<open>Units returned at the end, filtered on one PID, come from its stream alone.\<close>

lemma pending_track: "a \<in> set (pending ss) \<Longrightarrow> au_Track a \<in> es_track ` set ss"
  by (fastforce simp: pending_def finish_def Let_def split: option.splits if_splits)

lemma pending_append: "pending (xs @ ys) = pending xs @ pending ys"
  by (simp add: pending_def)

lemma pending_filter:
  assumes "distinct (map (track_PID \<circ> es_track) ss)" "i < length ss" "track_PID (es_track (ss ! i)) = p"
  shows "filter (\<lambda>a. track_PID (au_Track a) = p) (pending ss) = pending [ss ! i]"
proof -
  have ss: "ss = take i ss @ [ss ! i] @ drop (Suc i) ss" using assms(2) by (simp add: Cons_nth_drop_Suc)
  have d: "\<forall>s \<in> set (take i ss) \<union> set (drop (Suc i) ss). track_PID (es_track s) \<noteq> p"
  proof -
    have "distinct (map (track_PID \<circ> es_track) (take i ss @ [ss ! i] @ drop (Suc i) ss))" using assms(1) ss by simp
    then show ?thesis using assms(3) by (auto simp: image_iff)
  qed
  have none: "filter (\<lambda>a. track_PID (au_Track a) = p) (pending xs) = []" if "\<forall>s \<in> set xs. track_PID (es_track s) \<noteq> p" for xs
    using pending_track[of _ xs] that by (fastforce simp: filter_empty_conv)
  have self: "filter (\<lambda>a. track_PID (au_Track a) = p) (pending [s]) = pending [s]" if "track_PID (es_track s) = p" for s
    using pending_track[of _ "[s]"] that by (auto simp: filter_id_conv)
  have "filter (\<lambda>a. track_PID (au_Track a) = p) (pending (take i ss)) = []"
    "filter (\<lambda>a. track_PID (au_Track a) = p) (pending (drop (Suc i) ss)) = []" by (intro none, use d in blast)+
  then show ?thesis
    by (subst (1) ss) (simp only: pending_append filter_append self[OF assms(3)] append_Nil append_Nil2)
qed


lemma deliver_tracks:
  assumes "streams_ok r" "deliver ps r = (aus, r')" "a \<in> set aus"
  shows "au_Track a \<in> set (map es_track (r_order r))"
  using assms
proof (induction ps arbitrary: r aus)
  case (Cons p ps)
  obtain au r1 aus1 where h: "handlePacket p r = (au, r1)" "deliver ps r1 = (aus1, r')"
    and aus: "aus = (case au of None \<Rightarrow> aus1 | Some a \<Rightarrow> a # aus1)"
    using Cons.prems(2) by (auto split: prod.splits)
  note st = handlePacket_streams[OF Cons.prems(1) h(1)]
  have "au_Track b \<in> set (map es_track (r_order r))" if "au = Some b" for b
    using h(1) that Cons.prems(1)
    by (auto simp: handlePacket_view streams_ok_def dest!: handleES_track(2) split: option.splits prod.splits)
  then show ?case using Cons.IH[OF st(1) h(2)] Cons.prems(3) st(8) aus
    by (auto split: option.splits simp del: set_map)
qed simp

lemma unit_streams:
  assumes w: "writer_ok w" "tracks_ok w" "distinct (map track_PID (w_tracks w))"
      "\<And>p t. byPID w p = Some t \<longleftrightarrow> t \<in> set (w_tracks w) \<and> track_PID t = p"
    and cs: "\<forall>c \<in> set cs. accepted w c" "\<And>p. ts_chain (-1) (filter (\<lambda>c. call_pid c = p) cs)"
      "\<forall>c \<in> set cs. length (call_data c) \<le> defaultMaxAccessUnitSize"
    and r: "indexed r" "r_tracks r = w_tracks w" "r_src r = src" "\<not> r_eof r"
      "flushIdx r = 0" "maxAUSize r = int defaultMaxAccessUnitSize" "deliver ps r = (aus, r')"
    and i: "i < length (w_tracks w)" "track_PID (w_tracks w ! i) = p"
    and ps: "run_packets w cs = psi_packets w @ ps"
  shows "filter (\<lambda>a. track_PID (au_Track a) = p) (aus @ pending (r_order r')) = map call_unit (filter (\<lambda>c. call_pid c = p) cs)"
proof -
  have ix: "r_order r = map new_esStream (w_tracks w)" "r_streams r p = Some i"
    using r(1) i unfolding indexed_def r(2) by blast+
  have sok: "streams_ok r" using r(1) by (rule indexed_streams_ok)
  note st = deliver_streams[OF sok r(7)]
  have tr: "map es_track (r_order r') = w_tracks w" using st ix(1) by (simp add: new_esStream_def comp_def)
  then have len: "length (r_order r') = length (w_tracks w)" by (metis length_map)
  have tr_i: "es_track (r_order r' ! i) = w_tracks w ! i" using tr i(1) len by (metis nth_map)
  define s where "s = r_order r ! i"
  have s: "s = new_esStream (w_tracks w ! i)" using ix(1) i(1) by (simp add: s_def)
  have bp: "byPID w p = Some (w_tracks w ! i)" using w(4) i by simp
  note pid = tracks_ok_pid[OF w(2) bp]
  have "filter (on_pid p) (run_packets w cs) = filter (on_pid p) ps"
    using filter_psi_packets[OF w(1) pid(2,3)] by (simp add: ps)
  then have run: "es_run (int defaultMaxAccessUnitSize) (filter (on_pid p) (run_packets w cs)) s =
      (filter (\<lambda>a. track_PID (au_Track a) = p) aus, r_order r' ! i)"
    using deliver_project[OF sok ix(2) r(7)] r(6) by (simp add: s_def)
  have "filter (\<lambda>a. track_PID (au_Track a) = p) aus @ pending [r_order r' ! i] =
      pending [s] @ map call_unit (filter (\<lambda>c. call_pid c = p) cs)"
  proof (rule stream_run[OF w(1,2) cs(1) _ _ _ _ _ run])
    show "byPID w p = Some (es_track s)" "hasCC s \<Longrightarrow> cc_step (es_cc s) = cc_of w p" "lastTS s < 2 ^ 62"
      using bp by (simp_all add: s new_esStream_def)
    show "ts_chain (lastTS s) (filter (\<lambda>c. call_pid c = p) cs)" using cs(2)[of p] by (simp only: s new_esStream_def esStream.simps)
    show "\<forall>c \<in> set cs. int (length (call_data c)) \<le> int defaultMaxAccessUnitSize" using cs(3) by simp
  qed
  moreover have "pending [s] = []" by (simp add: s new_esStream_def pending_def finish_def)
  moreover have "filter (\<lambda>a. track_PID (au_Track a) = p) (pending (r_order r')) = pending [r_order r' ! i]"
  proof (rule pending_filter)
    show "distinct (map (track_PID \<circ> es_track) (r_order r'))" using w(3) unfolding tr[symmetric] by simp
  qed (use i len tr_i in simp_all)
  ultimately show ?thesis by simp
qed

text \<open>A stream that starts with the writer's tables opens with its tracks, whatever follows them.\<close>

lemma opens_tables:
  assumes new: "NewTsWriter dst (track_options specs) = Inr w" "healthy dst"
    and specs: "\<forall>(c, p) \<in> set specs. c \<noteq> CodecUnknown"
  shows "\<exists>r. NewReader \<lparr>st_data = concat (psi_packets w) @ rest, st_end = None\<rparr> [] = Some (Inr r) \<and>
    indexed r \<and> r_tracks r = w_tracks w \<and> r_src r = \<lparr>st_data = rest, st_end = None\<rparr> \<and> \<not> r_eof r \<and>
    flushIdx r = 0 \<and> maxAUSize r = int defaultMaxAccessUnitSize"
proof -
  note w = NewTsWriter_ok[OF new]
  have tok: "tracks_ok w" "distinct (map track_PID (w_tracks w))"
    "\<And>p t. byPID w p = Some t \<longleftrightarrow> t \<in> set (w_tracks w) \<and> track_PID t = p"
    using w(2) unfolding registered_def by blast+
  define src where "src = \<lparr>st_data = concat (psi_packets w) @ rest, st_end = None\<rparr>"
  define r1 where "r1 = (initial_reader src)\<lparr>r_src := \<lparr>st_data = rest, st_end = None\<rparr>, r_pmtPID := writerPMTPID\<rparr>"
  define r where "r = fold add_track (map track_stream (w_tracks w)) r1"
  have i1: "indexed r1" "r_tracks r1 = []" "\<not> r_eof r1" "flushIdx r1 = 0" "maxAUSize r1 = int defaultMaxAccessUnitSize"
      "r_src r1 = \<lparr>st_data = rest, st_end = None\<rparr>"
    unfolding r1_def by (simp_all add: indexed_def initial_reader_def)
  have codecs: "\<forall>t \<in> set (w_tracks w). track_Codec t \<noteq> CodecUnknown" using specs unfolding w(3) by auto
  have r: "indexed r" "r_tracks r = w_tracks w" "r_src r = \<lparr>st_data = rest, st_end = None\<rparr>" "\<not> r_eof r"
      "flushIdx r = 0" "maxAUSize r = int defaultMaxAccessUnitSize"
    using fold_add_track[OF i1(1) _ codecs r_def] tok(2) i1 by simp_all
  have pids: "\<forall>t \<in> set (w_tracks w). track_PID t < 0x2000" using tok(3) tracks_ok_pid(1)[OF tok(1)] by blast
  have "readTables (initial_reader src) = Some (None, r)" unfolding r_def
  proof (rule readTables_written[where r = "initial_reader src", OF _ _ _ _ _ pids r1_def])
    show "r_src (initial_reader src) = \<lparr>st_data = psi_packet pidPAT (cc_of w pidPAT) (0 # section_bytes pat_section)
      @ psi_packet writerPMTPID (cc_of w writerPMTPID) (0 # section_bytes (pmt_section (w_pcrPID w) (w_tracks w))) @ rest, st_end = None\<rparr>"
      unfolding w(8,9)[symmetric] by (simp add: initial_reader_def src_def psi_packets_def)
    show "length (0 # section_bytes (pmt_section (w_pcrPID w) (w_tracks w))) \<le> 184" using w(10) unfolding w(9) .
    show "w_pcrPID w < 0x2000" unfolding w(5) using pids w(4) by simp
    show "r_tracks (fold add_track (map track_stream (w_tracks w)) r1) \<noteq> []" using r(2) w(4) unfolding r_def by simp
  qed (use w(1) in \<open>simp_all add: writer_ok_def\<close>)
  then have "NewReader src [] = Some (Inr r)" by (simp add: NewReader_def)
  then show ?thesis using r unfolding src_def by blast
qed

text \<open>The packets of a run: the tables come first.\<close>

lemma run_written:
  assumes new: "NewTsWriter dst (track_options specs) = Inr w" "healthy dst" "content dst = []"
    and cs: "cs \<noteq> []" "\<forall>c \<in> set cs. accepted w c"
  shows "\<exists>w' ps. run_calls cs w = Some (None, w') \<and> run_packets w cs = psi_packets w @ ps \<and>
    (\<forall>p \<in> set ps. length p = packetSize) \<and> content (w_dst w') = concat (psi_packets w) @ concat ps"
proof -
  note w = NewTsWriter_ok[OF new(1,2)]
  obtain w' where w': "run_calls cs w = Some (None, w')"
      "content (w_dst w') = content (w_dst w) @ concat (run_packets w cs)"
      "\<forall>p \<in> set (run_packets w cs). length p = packetSize"
    using run_calls_ok[OF w(1) _ cs(2)] w(2) unfolding registered_def by blast
  obtain ps where ps: "run_packets w cs = psi_packets w @ ps"
    using cs(1) w(7) by (cases cs) (auto simp: psi_due_def)
  then show ?thesis using w' new(3) w(6) by simp
qed

lemma opens_written:
  assumes new: "NewTsWriter dst (track_options specs) = Inr w" "healthy dst" "content dst = []"
    and specs: "\<forall>(c, p) \<in> set specs. c \<noteq> CodecUnknown"
    and cs: "cs \<noteq> []" "\<forall>c \<in> set cs. accepted w c"
  shows "\<exists>w' ps r. run_calls cs w = Some (None, w') \<and> run_packets w cs = psi_packets w @ ps \<and>
    (\<forall>p \<in> set ps. length p = packetSize) \<and>
    NewReader \<lparr>st_data = content (w_dst w'), st_end = None\<rparr> [] = Some (Inr r) \<and>
    indexed r \<and> r_tracks r = w_tracks w \<and> r_src r = \<lparr>st_data = concat ps, st_end = None\<rparr> \<and> \<not> r_eof r \<and>
    flushIdx r = 0 \<and> maxAUSize r = int defaultMaxAccessUnitSize"
proof -
  obtain w' ps where w': "run_calls cs w = Some (None, w')" "run_packets w cs = psi_packets w @ ps"
    "\<forall>p \<in> set ps. length p = packetSize" and data: "content (w_dst w') = concat (psi_packets w) @ concat ps"
    using run_written[OF new cs] by blast
  show ?thesis using w' opens_tables[OF new(1,2) specs, of "concat ps", folded data] by blast
qed

text \<open>Every unit belongs to a track of the reader, so a PID without a track has none.\<close>

lemma units_tracks:
  assumes "streams_ok r" "deliver ps r = (aus, r')" "a \<in> set (aus @ pending (r_order r'))"
  shows "au_Track a \<in> set (map es_track (r_order r))"
proof -
  have "es_track ` set (r_order r') = es_track ` set (r_order r)"
    using deliver_streams[OF assms(1,2)] by (metis list.set_map)
  then show ?thesis using assms(3) deliver_tracks[OF assms(1,2), of a] pending_track[of a "r_order r'"] by auto
qed

lemma no_units:
  assumes "streams_ok r" "deliver ps r = (aus, r')" "\<forall>t \<in> set (map es_track (r_order r)). track_PID t \<noteq> p"
  shows "filter (\<lambda>a. track_PID (au_Track a) = p) (aus @ pending (r_order r')) = []"
  using units_tracks[OF assms(1,2)] assms(3) by (simp only: filter_empty_conv) blast

text \<open>
  C1: A transport stream written by the muxer is read back by the demuxer. For a writer created with
  any tracks, every sequence of accepted \<open>WriteH264\<close>/\<open>WriteH265\<close> calls succeeds; opening the bytes it
  wrote gives the writer's tracks, and reading until \<open>io.EOF\<close> gives, for every PID, exactly the access
  units of the calls on that PID, in order, with their timestamps, random access flags and data (an
  access unit delimiter put in front where the call had none). Decode times of one PID are not negative, start below
  \<open>2^33\<close> and stay below \<open>2^62\<close>, and successive ones, as well as the two times of one unit, are less than half the wrap-around (\<open>2^32\<close>) apart. A unit
  with its delimiter is within the reader's default limit of 4 MiB.
\<close>

theorem mux_demux:
  assumes new: "NewTsWriter dst (track_options specs) = Inr w" "healthy dst" "content dst = []"
    and specs: "\<forall>(c, p) \<in> set specs. c \<noteq> CodecUnknown"
    and cs: "cs \<noteq> []" "\<forall>c \<in> set cs. accepted w c"
    and ts: "\<And>p. ts_chain (-1) (filter (\<lambda>c. call_pid c = p) cs)"
    and size: "\<forall>c \<in> set cs. length (call_data c) \<le> defaultMaxAccessUnitSize"
  shows "\<exists>w' r aus r'. run_calls cs w = Some (None, w') \<and>
    NewReader \<lparr>st_data = content (w_dst w'), st_end = None\<rparr> [] = Some (Inr r) \<and> Tracks r = w_tracks w \<and>
    reads NextAccessUnit r aus r' \<and> fst (NextAccessUnit r') = Inl EOF \<and>
    (\<forall>p. filter (\<lambda>a. track_PID (au_Track a) = p) aus = map call_unit (filter (\<lambda>c. call_pid c = p) cs))"
proof -
  note w = NewTsWriter_ok[OF new(1,2)]
  have tok: "tracks_ok w" "distinct (map track_PID (w_tracks w))"
    "\<And>p t. byPID w p = Some t \<longleftrightarrow> t \<in> set (w_tracks w) \<and> track_PID t = p"
    using w(2) unfolding registered_def by blast+
  obtain w' ps r where w': "run_calls cs w = Some (None, w')" and ps: "run_packets w cs = psi_packets w @ ps"
    and len: "\<forall>p \<in> set ps. length p = packetSize"
    and new_r: "NewReader \<lparr>st_data = content (w_dst w'), st_end = None\<rparr> [] = Some (Inr r)"
    and r: "indexed r" "r_tracks r = w_tracks w" "r_src r = \<lparr>st_data = concat ps, st_end = None\<rparr>" "\<not> r_eof r"
      "flushIdx r = 0" "maxAUSize r = int defaultMaxAccessUnitSize"
    using opens_written[OF new specs cs] by blast
  obtain aus r' where dl: "deliver ps r = (aus, r')" by fastforce
  have sok: "streams_ok r" using r(1) by (rule indexed_streams_ok)
  obtain r2 where r2: "reads NextAccessUnit r (aus @ pending (r_order r')) r2" "fst (NextAccessUnit r2) = Inl EOF"
    using reads_whole[OF r(4,3) len sok r(5) dl] by blast
  have "filter (\<lambda>a. track_PID (au_Track a) = p) (aus @ pending (r_order r')) = map call_unit (filter (\<lambda>c. call_pid c = p) cs)" for p
  proof (cases "\<exists>i < length (w_tracks w). track_PID (w_tracks w ! i) = p")
    case False
    then have no: "\<forall>t \<in> set (w_tracks w). track_PID t \<noteq> p" by (metis in_set_conv_nth)
    have "map es_track (r_order r) = w_tracks w" using r(1,2) unfolding indexed_def by (simp add: new_esStream_def comp_def)
    then have "filter (\<lambda>a. track_PID (au_Track a) = p) (aus @ pending (r_order r')) = []"
      using no_units[OF sok dl] no by simp
    moreover have "call_pid c \<noteq> p" if "c \<in> set cs" for c
      using cs(2) that no tok(3) by (fastforce simp: accepted_def split: option.splits)
    ultimately show ?thesis by (simp add: filter_empty_conv)
  next
    case True
    then obtain i where i: "i < length (w_tracks w)" "track_PID (w_tracks w ! i) = p" by blast
    show ?thesis by (rule unit_streams[OF w(1) tok cs(2) ts size r dl i ps])
  qed
  then show ?thesis using w' new_r r(2) r2 unfolding Tracks_def by blast
qed

definition witness_sink :: sink where
  "witness_sink = \<lparr>content = [], pos = 0, plan = [], can_seek = True, can_close = True, closed = False\<rparr>"

lemma witness_sink_healthy: "healthy witness_sink" "content witness_sink = []"
  by (simp_all add: witness_sink_def healthy_def)

definition witness_calls :: "au_call list" where
  "witness_calls = [H264Call 256 90000 90000 [0, 0, 0, 1, 0x65, 1, 2],
     H265Call 257 93600 90000 [0, 0, 0, 1, 0x26, 1, 7], H264Call 256 93000 93000 [0, 0, 1, 0x41, 9]]"

lemma witness_writer:
  "\<exists>w. NewTsWriter witness_sink (track_options [(CodecH264, 256), (CodecH265, 257)]) = Inr w \<and>
    (\<forall>c \<in> set witness_calls. accepted w c)"
proof -
  define w0 where "w0 = snd (apply_writer_options (track_options [(CodecH264, 256), (CodecH265, 257)]) (initial_writer witness_sink))"
  have w0: "apply_writer_options (track_options [(CodecH264, 256), (CodecH265, 257)]) (initial_writer witness_sink) = (None, w0)"
    "w_tracks w0 = \<lparr>track_PID = 256, track_Codec = CodecH264\<rparr> # [\<lparr>track_PID = 257, track_Codec = CodecH265\<rparr>]"
    "byPID w0 256 = Some \<lparr>track_PID = 256, track_Codec = CodecH264\<rparr>" "byPID w0 257 = Some \<lparr>track_PID = 257, track_Codec = CodecH265\<rparr>"
    by (simp_all add: w0_def track_options_def withTrack_def initial_writer_def minElementaryPID_def maxElementaryPID_def
        writerPMTPID_def Let_def)
  show ?thesis
    by (subst NewTsWriter_eq[OF w0(1,2) refl])
      (simp add: w0(2-4) pmt_section_def length_section_bytes marshal_stream_def accepted_def witness_calls_def)
qed

theorem mux_demux_witness:
  "\<exists>w w' r aus r'. NewTsWriter witness_sink (track_options [(CodecH264, 256), (CodecH265, 257)]) = Inr w \<and>
    run_calls witness_calls w = Some (None, w') \<and>
    NewReader \<lparr>st_data = content (w_dst w'), st_end = None\<rparr> [] = Some (Inr r) \<and> Tracks r = w_tracks w \<and>
    reads NextAccessUnit r aus r' \<and> fst (NextAccessUnit r') = Inl EOF \<and>
    filter (\<lambda>a. track_PID (au_Track a) = 256) aus = [call_unit (witness_calls ! 0), call_unit (witness_calls ! 2)]"
proof -
  obtain w where w: "NewTsWriter witness_sink (track_options [(CodecH264, 256), (CodecH265, 257)]) = Inr w"
    "\<forall>c \<in> set witness_calls. accepted w c" using witness_writer by blast
  have 1: "ts_chain (-1) (filter (\<lambda>c. call_pid c = p) witness_calls)" for p
    by (simp add: witness_calls_def)
  have 2: "\<forall>c \<in> set witness_calls. length (call_data c) \<le> defaultMaxAccessUnitSize"
    by (simp add: witness_calls_def audH264_def audH265_def defaultMaxAccessUnitSize_def)
  have f: "map call_unit (filter (\<lambda>c. call_pid c = 256) witness_calls) = [call_unit (witness_calls ! 0), call_unit (witness_calls ! 2)]"
    by (simp add: witness_calls_def)
  have 3: "witness_calls \<noteq> []" "\<forall>(c, p) \<in> set [(CodecH264, 256 :: u16), (CodecH265, 257)]. c \<noteq> CodecUnknown"
    by (simp_all add: witness_calls_def)
  obtain w' r aus r' where m: "run_calls witness_calls w = Some (None, w')"
    "NewReader \<lparr>st_data = content (w_dst w'), st_end = None\<rparr> [] = Some (Inr r)" "Tracks r = w_tracks w"
    "reads NextAccessUnit r aus r'" "fst (NextAccessUnit r') = Inl EOF"
    "\<forall>p. filter (\<lambda>a. track_PID (au_Track a) = p) aus = map call_unit (filter (\<lambda>c. call_pid c = p) witness_calls)"
    using mux_demux[OF w(1) witness_sink_healthy 3(2,1) w(2) 1 2] by blast
  show ?thesis using w(1) m(1-5) m(6)[rule_format, of 256] unfolding f by blast
qed

end
