(* ===== verification/TsProperties.thy ===== *)
theory TsProperties
  imports TsRoundTrip
begin

text \<open>
  What the \<open>mpegts\<close> package promises, put together from the lemmas of its components: reading ends on
  every input and keeps its memory bounded, timestamps unwrap,
  elementary streams do not disturb each other, the packetizer refines its description, and sections
  survive packetization.
\<close>

section \<open>Reading any input\<close>

text \<open>What \<open>NextAccessUnit\<close> can still do: bytes to read, then streams to flush.\<close>

definition work_left :: "reader \<Rightarrow> nat" where
  "work_left r = length (st_data (r_src r)) + (if r_eof r then 0 else 1) + (length (r_order r) - flushIdx r)"

lemma flush_work: "flush r = (Inr a, r') \<Longrightarrow> work_left r' < work_left r"
proof (induction r rule: flush.induct)
  case (1 r)
  have lt: "flushIdx r < length (r_order r)" using "1.prems" by (subst (asm) flush.simps) (auto split: if_splits)
  obtain au s where f: "finish (r_order r ! flushIdx r) = (au, s)" by fastforce
  define q where "q = r\<lparr>r_order := (r_order r)[flushIdx r := s], flushIdx := flushIdx r + 1\<rparr>"
  have q: "work_left q < work_left r" using lt by (simp add: q_def work_left_def)
  have fl: "flush r = (case au of Some a \<Rightarrow> (Inr a, q) | None \<Rightarrow> flush q)"
    using lt f by (subst flush.simps) (simp add: Let_def q_def split: option.split)
  show ?case
  proof (cases au)
    case None
    then show ?thesis using "1.IH"[OF lt f[symmetric] refl None] "1.prems" fl q unfolding q_def by simp
  qed (use "1.prems" fl q in auto)
qed

lemma handlePacket_work:
  assumes "handlePacket pkt r = (au, r')"
  shows "work_left r' = work_left r" "r_src r' = r_src r"
proof -
  have "r_src r' = r_src r \<and> r_eof r' = r_eof r \<and> flushIdx r' = flushIdx r \<and> length (r_order r') = length (r_order r)"
    using assms by (auto simp: handlePacket_def split: sum.splits option.splits prod.splits if_splits)
  then show "work_left r' = work_left r" "r_src r' = r_src r" by (simp_all add: work_left_def)
qed

lemma readPacket_work:
  assumes "readPacket r = (res, r1)"
  shows "work_left r1 \<le> work_left r" "res = Inr pkt \<Longrightarrow> work_left r1 < work_left r" "r_eof r1 = r_eof r"
proof -
  have "r_order r1 = r_order r \<and> flushIdx r1 = flushIdx r \<and> r_eof r1 = r_eof r \<and> length (st_data (r_src r1)) \<le> length (st_data (r_src r))"
    using assms by (auto simp: readPacket_def ReadFull_def split: prod.splits sum.splits if_splits)
  moreover have "length (st_data (r_src r1)) < length (st_data (r_src r))" if "res = Inr pkt"
    using assms that readPacket_less by blast
  ultimately show "work_left r1 \<le> work_left r" "res = Inr pkt \<Longrightarrow> work_left r1 < work_left r" "r_eof r1 = r_eof r"
    by (auto simp: work_left_def)
qed

lemma NextAccessUnit_work: "NextAccessUnit r = (Inr a, r') \<Longrightarrow> work_left r' < work_left r"
proof (induction r rule: NextAccessUnit.induct)
  case (1 r)
  show ?case
  proof (cases "r_eof r")
    case True
    then show ?thesis using "1.prems" flush_work by (subst (asm) NextAccessUnit.simps) simp
  next
    case False
    obtain x r1 where rp: "readPacket r = (x, r1)" by fastforce
    note wk = readPacket_work[OF rp]
    show ?thesis
    proof (cases x)
      case (Inl e)
      have "e = EOF" using "1.prems" False rp Inl by (subst (asm) NextAccessUnit.simps) (auto split: if_splits)
      then have "NextAccessUnit (r1\<lparr>r_eof := True\<rparr>) = (Inr a, r')"
        using "1.prems" False rp Inl by (subst (asm) NextAccessUnit.simps) simp
      then have "work_left r' < work_left (r1\<lparr>r_eof := True\<rparr>)"
        by (rule "1.IH"(1)[OF False rp[symmetric] Inl \<open>e = EOF\<close>])
      then show ?thesis using wk(1) by (simp add: work_left_def split: if_splits)
    next
      case (Inr pkt)
      obtain au r2 where h: "handlePacket pkt r1 = (au, r2)" by fastforce
      show ?thesis
      proof (cases au)
        case None
        then have "NextAccessUnit r2 = (Inr a, r')"
          using "1.prems" False rp Inr h by (subst (asm) NextAccessUnit.simps) simp
        then have "work_left r' < work_left r2" by (rule "1.IH"(2)[OF False rp[symmetric] Inr h[symmetric] None])
        then show ?thesis using handlePacket_work[OF h] wk(2)[OF Inr] by simp
      next
        case (Some b)
        then show ?thesis using "1.prems" False rp Inr h handlePacket_work[OF h] wk(2)[OF Inr]
          by (subst (asm) NextAccessUnit.simps) auto
      qed
    qed
  qed
qed

text \<open>
  C13: Reading ends. Whatever the input and the state of the reader, after finitely many access units,
  at most one per byte left and one per stream and one more, \<open>NextAccessUnit\<close> returns an error.
\<close>

theorem reading_ends:
  "\<exists>aus r' e. reads NextAccessUnit r aus r' \<and> fst (NextAccessUnit r') = Inl e \<and>
     length aus \<le> length (st_data (r_src r)) + 1 + length (r_order r)"
proof -
  have "\<exists>aus r' e. reads NextAccessUnit r aus r' \<and> fst (NextAccessUnit r') = Inl e \<and> length aus \<le> work_left r"
  proof (induction "work_left r" arbitrary: r rule: less_induct)
    case less
    show ?case
    proof (cases "NextAccessUnit r")
      case (Pair res r1)
      show ?thesis
      proof (cases res)
        case (Inl e)
        then have "reads NextAccessUnit r [] r \<and> fst (NextAccessUnit r) = Inl e \<and> length ([] :: AccessUnit list) \<le> work_left r"
          using Pair by simp
        then show ?thesis by blast
      next
        case (Inr a)
        then have lt: "work_left r1 < work_left r" using Pair NextAccessUnit_work by blast
        obtain aus r' e where ih: "reads NextAccessUnit r1 aus r'" "fst (NextAccessUnit r') = Inl e" "length aus \<le> work_left r1"
          using less.hyps[OF lt] by blast
        have "reads NextAccessUnit r (a # aus) r'" "length (a # aus) \<le> work_left r" using Pair Inr ih lt by simp_all
        then show ?thesis using ih(2) by blast
      qed
    qed
  qed
  then obtain aus r' e where "reads NextAccessUnit r aus r'" "fst (NextAccessUnit r') = Inl e" "length aus \<le> work_left r" by blast
  moreover have "work_left r \<le> length (st_data (r_src r)) + 1 + length (r_order r)" by (auto simp: work_left_def)
  ultimately show ?thesis by (meson le_trans)
qed

section \<open>Memory\<close>

lemma add_track_bounded:
  "reader_bounded r \<Longrightarrow> reader_bounded (add_track es r) \<and> maxAUSize (add_track es r) = maxAUSize r \<and>
     (map es_track (r_order r) = r_tracks r \<longrightarrow> map es_track (r_order (add_track es r)) = r_tracks (add_track es r))"
  by (auto simp: add_track_def Let_def reader_bounded_def es_bounded_def new_esStream_def split: if_splits)
    (metis less_Suc_eq)

text \<open>A reader whose streams are within their bounds and are those of its tracks.\<close>

definition reader_ok :: "int \<Rightarrow> reader \<Rightarrow> bool" where
  "reader_ok m r \<longleftrightarrow> reader_bounded r \<and> maxAUSize r = m \<and> map es_track (r_order r) = r_tracks r"

lemma fold_add_track_ok: "reader_ok m r \<Longrightarrow> reader_ok m (fold add_track ess r)"
  by (induction ess arbitrary: r) (simp_all add: reader_ok_def add_track_bounded)

lemma reader_ok_update [simp]:
  "reader_ok m (r\<lparr>r_src := s\<rparr>) = reader_ok m r" "reader_ok m (r\<lparr>r_pmtPID := p\<rparr>) = reader_ok m r"
  "reader_ok m (r\<lparr>r_eof := b\<rparr>) = reader_ok m r"
  by (simp_all add: reader_ok_def reader_bounded_def)

lemma readPAT_cases: "readPAT sec r = (b, r1) \<Longrightarrow> r1 = r \<or> (\<exists>p. r1 = r\<lparr>r_pmtPID := p\<rparr>)"
  unfolding readPAT_def by (simp split: sum.splits list.splits) blast+

lemma readPAT_ok: "readPAT sec r = (b, r1) \<Longrightarrow> reader_ok m r \<Longrightarrow> reader_ok m r1"
  by (drule readPAT_cases) (elim disjE exE; simp only: reader_ok_update)

lemma readPMT_cases: "readPMT sec r = (b, r1) \<Longrightarrow> r1 = r \<or> (\<exists>ess. r1 = fold add_track ess r)"
  unfolding readPMT_def Let_def by (simp split: sum.splits option.splits if_splits) blast+

lemma readPMT_ok: "readPMT sec r = (b, r1) \<Longrightarrow> reader_ok m r \<Longrightarrow> reader_ok m r1"
  by (drule readPMT_cases) (elim disjE exE; simp only: fold_add_track_ok)

lemma readPacket_ok: "readPacket r = (res, r1) \<Longrightarrow> reader_ok m r \<Longrightarrow> reader_ok m r1"
  unfolding readPacket_def by (cases "ReadFull packetSize (r_src r) :: (ts_error + bytes) \<times> stream") (auto split: sum.splits)

lemma readTables_loop_ok:
  assumes "reader_ok m r" "readTables_loop hp pa pm r = Some (res, r')"
  shows "reader_ok m r'"
  using assms
proof (induction "length (st_data (r_src r))" arbitrary: hp pa pm r rule: less_induct)
  case less
  obtain x r1 where rp: "readPacket r = (x, r1)" by fastforce
  have r1: "reader_ok m r1" using readPacket_ok[OF rp less.prems(1)] .
  show ?case
  proof (cases x)
    case (Inl e)
    then show ?thesis using less.prems(2) rp r1 by (subst (asm) readTables_loop.simps) simp
  next
    case (Inr pkt)
    have lt: "length (st_data (r_src r1)) < length (st_data (r_src r))" using rp Inr readPacket_less by blast
    have ih: "reader_ok m r'" if "readTables_loop hp' pa' pm' r2 = Some (res, r')" "r_src r2 = r_src r1" "reader_ok m r2" for hp' pa' pm' r2
      using less.hyps[of r2 hp' pa' pm'] that lt by metis
    have pat: "reader_ok m r'" if "readPAT sec r1 = (ok, r2)" "readTables_loop ok pa' pm' r2 = Some (res, r')" for sec ok r2 pa' pm'
      using ih[OF that(2) readPAT_src[OF that(1)] readPAT_ok[OF that(1) r1]] .
    have pmt: "reader_ok m r2" if "readPMT sec r1 = (b, r2)" for sec b r2
      using readPMT_ok[OF that r1] .
    have pmt': "reader_ok m r'" if "readPMT sec r1 = (b, r2)" "readTables_loop hp' pa' pm' r2 = Some (res, r')" for sec b r2 hp' pa' pm'
      using ih[OF that(2) readPMT_src[OF that(1)] pmt[OF that(1)]] .
    have rec: "reader_ok m r'" if "readTables_loop hp' pa' pm' r1 = Some (res, r')" for hp' pa' pm'
      using ih[OF that refl r1] .
    note splits = sum.split_asm option.split_asm prod.split_asm if_split_asm bool.split_asm
    show ?thesis using less.prems(2) unfolding readTables_loop.simps[of hp pa pm r] rp Inr prod.case sum.case
      by (simp split: splits) (blast intro: pat pmt pmt' rec)+
  qed
qed

lemma apply_limits:
  "apply_reader_options (map WithMaxAccessUnitSize ns) r = (None, r') \<Longrightarrow> \<exists>m. r' = r\<lparr>maxAUSize := m\<rparr> \<and> (0 < maxAUSize r \<longrightarrow> 0 < m)"
proof (induction ns arbitrary: r)
  case Nil
  then have "r' = r\<lparr>maxAUSize := maxAUSize r\<rparr>" by simp
  then show ?case by blast
next
  case (Cons n ns)
  have n: "0 < n" "apply_reader_options (map WithMaxAccessUnitSize ns) (r\<lparr>maxAUSize := n\<rparr>) = (None, r')"
    using Cons.prems by (simp_all add: WithMaxAccessUnitSize_def[of n] split: if_splits)
  obtain m where "r' = (r\<lparr>maxAUSize := n\<rparr>)\<lparr>maxAUSize := m\<rparr>" "0 < m" using Cons.IH[OF n(2)] n(1) by auto
  then show ?case by auto
qed

lemma NewReader_ok:
  assumes "NewReader src (map WithMaxAccessUnitSize ns) = Some (Inr r)"
  shows "reader_ok (maxAUSize r) r" "0 < maxAUSize r"
proof -
  obtain e r0 where o: "apply_reader_options (map WithMaxAccessUnitSize ns) (initial_reader src) = (e, r0)" by fastforce
  have e: "e = None" and t: "readTables_loop False new_assembler new_assembler r0 = Some (None, r)"
    using assms unfolding NewReader_def o readTables_def by (auto split: option.splits prod.splits)
  obtain m where m: "r0 = (initial_reader src)\<lparr>maxAUSize := m\<rparr>" "0 < m"
    using apply_limits[OF o[unfolded e]] by (auto simp: initial_reader_def defaultMaxAccessUnitSize_def push_bit_eq_mult)
  have "reader_ok m r0" unfolding m(1) by (simp add: reader_ok_def reader_bounded_def initial_reader_def)
  from readTables_loop_ok[OF this t] show "reader_ok (maxAUSize r) r" "0 < maxAUSize r" using m(2) by (simp_all add: reader_ok_def)
qed

text \<open>
  C14: Memory of the demuxer is bounded on every input. Whatever bytes a reader is given, every access
  unit it returns is non-empty and within the configured limit (\<open>WithMaxAccessUnitSize\<close>, 4 MiB by
  default), and after any number of calls no stream buffers more than the limit; a limit below 175
  bytes counts as 175, the most one packet brings.
\<close>

theorem reader_memory:
  assumes "NewReader src (map WithMaxAccessUnitSize ns) = Some (Inr r)" "reads NextAccessUnit r aus r'"
  shows "(\<forall>a \<in> set aus. au_Data a \<noteq> [] \<and> int (length (au_Data a)) \<le> max (maxAUSize r) 175) \<and>
    (\<forall>s \<in> set (r_order r'). int (length (es_buf s)) \<le> max (maxAUSize r) 175)"
proof -
  have all: "(\<forall>a \<in> set aus. unit_bounded (maxAUSize q) a) \<and> reader_bounded r' \<and> maxAUSize r' = maxAUSize q"
    if "reader_bounded q" "reads NextAccessUnit q aus r'" for q
    using that
  proof (induction aus arbitrary: q)
    case (Cons a aus)
    obtain q1 where q1: "NextAccessUnit q = (Inr a, q1)" "reads NextAccessUnit q1 aus r'"
      using Cons.prems(2) by (auto split: prod.splits sum.splits)
    show ?case using NextAccessUnit_bounded[OF Cons.prems(1) q1(1)] Cons.IH[OF _ q1(2)] by auto
  qed simp
  have "reader_bounded r" using NewReader_ok[OF assms(1)] by (simp add: reader_ok_def)
  from all[OF this assms(2)] show ?thesis
    by (auto simp: unit_bounded_def reader_bounded_def es_bounded_def)
qed

theorem reader_memory_witness:
  "\<exists>w w' r aus r'. NewTsWriter witness_sink (track_options [(CodecH264, 256), (CodecH265, 257)]) = Inr w \<and>
     run_calls witness_calls w = Some (None, w') \<and>
     NewReader \<lparr>st_data = content (w_dst w'), st_end = None\<rparr> (map WithMaxAccessUnitSize []) = Some (Inr r) \<and>
     reads NextAccessUnit r aus r' \<and> (\<forall>a \<in> set aus. int (length (au_Data a)) \<le> 0x400000)"
proof -
  obtain w where w: "NewTsWriter witness_sink (track_options [(CodecH264, 256), (CodecH265, 257)]) = Inr w"
    "\<forall>c \<in> set witness_calls. accepted w c" using witness_writer by blast
  have 3: "witness_calls \<noteq> []" "\<forall>(c, p) \<in> set [(CodecH264, 256 :: u16), (CodecH265, 257)]. c \<noteq> CodecUnknown"
    by (simp_all add: witness_calls_def)
  obtain w' ps r where o: "run_calls witness_calls w = Some (None, w')"
    "NewReader \<lparr>st_data = content (w_dst w'), st_end = None\<rparr> [] = Some (Inr r)" "maxAUSize r = int defaultMaxAccessUnitSize"
    "\<forall>p \<in> set ps. length p = packetSize" "indexed r" "r_src r = \<lparr>st_data = concat ps, st_end = None\<rparr>" "\<not> r_eof r" "flushIdx r = 0"
    using opens_written[OF w(1) witness_sink_healthy 3(2,1) w(2)] by blast
  obtain aus r1 where "deliver ps r = (aus, r1)" by fastforce
  then obtain r' where rd: "reads NextAccessUnit r (aus @ pending (r_order r1)) r'"
    using reads_whole[OF o(7,6,4) indexed_streams_ok[OF o(5)] o(8)] by blast
  have o': "NewReader \<lparr>st_data = content (w_dst w'), st_end = None\<rparr> (map WithMaxAccessUnitSize []) = Some (Inr r)" using o(2) by simp
  have "max (maxAUSize r) 175 = 0x400000" using o(3) by (simp add: defaultMaxAccessUnitSize_def push_bit_eq_mult)
  then show ?thesis using w(1) o(1) o' rd reader_memory[OF o' rd] by auto
qed

section \<open>Timestamps\<close>

text \<open>Timestamps as a stream extends them one after the other.\<close>

fun extend_all :: "int \<Rightarrow> int list \<Rightarrow> int list" where
  "extend_all reference [] = []"
| "extend_all reference (t # ts) = (let e = extendTimestamp reference t in e # extend_all e ts)"

fun smooth :: "int \<Rightarrow> int list \<Rightarrow> bool" where
  "smooth prev [] \<longleftrightarrow> True"
| "smooth prev (t # ts) \<longleftrightarrow> 0 \<le> t \<and> t < 2 ^ 62 \<and> \<bar>t - prev\<bar> < 2 ^ 32 \<and> smooth t ts"

text \<open>
  C33: \<open>extendTimestamp\<close> undoes the 33-bit wrap-around. A sequence of timestamps, none of them negative and all below \<open>2^62\<close>, that starts below
  \<open>2^33\<close> and moves by less than \<open>2^32\<close> ticks at a time, in either direction, is recovered exactly from
  its values modulo \<open>2^33\<close>, however many times they wrapped.
\<close>

theorem timestamps_extended:
  assumes "0 \<le> t" "t < 2 ^ 33" "smooth t ts"
  shows "extend_all (-1) (map (take_bit 33) (t # ts)) = t # ts"
proof -
  have rest: "extend_all prev (map (take_bit 33) ts) = ts" if "0 \<le> prev" "prev < 2 ^ 62" "smooth prev ts" for prev
    using that
  proof (induction ts arbitrary: prev)
    case (Cons t ts)
    then show ?case using extendTimestamp_eq[of prev t] by (simp add: Let_def)
  qed simp
  have "extendTimestamp (-1) (take_bit 33 t) = t" using assms by (simp add: extendTimestamp_def take_bit_int_eq_self)
  then show ?thesis using rest[of t] assms by (simp add: Let_def)
qed

theorem timestamps_extended_witness:
  "extend_all (-1) [8589934500, 100, 8589934590] = [8589934500, 8589934692, 8589934590]"
proof -
  have "smooth 8589934500 [8589934692, 8589934590]" by simp
  from timestamps_extended[OF _ _ this] show ?thesis by (simp add: take_bit_eq_mod)
qed

section \<open>Streams do not disturb each other\<close>

text \<open>
  C22: Packets of other PIDs, corrupt packets and scrambled packets never change what is returned for
  an elementary stream: two inputs with the same usable packets on a PID, in the same order, give
  the same access units of that PID.
\<close>

theorem pid_isolation:
  assumes "streams_ok r" "r_streams r p = Some i" "filter (on_pid p) ps = filter (on_pid p) qs"
  shows "filter (\<lambda>a. track_PID (au_Track a) = p) (fst (deliver ps r)) = filter (\<lambda>a. track_PID (au_Track a) = p) (fst (deliver qs r))
    \<and> r_order (snd (deliver ps r)) ! i = r_order (snd (deliver qs r)) ! i"
proof -
  obtain aus r1 bus r2 where d: "deliver ps r = (aus, r1)" "deliver qs r = (bus, r2)" by fastforce
  show ?thesis using deliver_project[OF assms(1,2) d(1)] deliver_project[OF assms(1,2) d(2)] assms(3) d by simp
qed

definition witness_reader :: reader where
  "witness_reader = (initial_reader \<lparr>st_data = [], st_end = None\<rparr>)\<lparr>r_tracks := [\<lparr>track_PID = 256, track_Codec = CodecH264\<rparr>],
     r_streams := [256 \<mapsto> 0], r_order := [new_esStream \<lparr>track_PID = 256, track_Codec = CodecH264\<rparr>]\<rparr>"

text \<open>Two units on PID 256; between them a unit of PID 257, a scrambled packet of PID 256 and one without a sync byte.\<close>

definition unit_packet :: "byte \<Rightarrow> byte \<Rightarrow> byte \<Rightarrow> bytes" where
  "unit_packet lo b3 x = [0x47, 0x41, lo, b3] @ [0, 0, 1, 0xE0, 0, 0, 0x84, 0x80, 5, 0x21, 0, 1, 0, 1] @ [x]"

theorem pid_isolation_witness:
  "filter (\<lambda>a. track_PID (au_Track a) = 256) (fst (deliver
      [unit_packet 0 0x10 7, unit_packet 1 0x10 8, unit_packet 0 0x91 9, [0x48, 0x41, 0, 0x11], unit_packet 0 0x11 10] witness_reader)) =
   filter (\<lambda>a. track_PID (au_Track a) = 256) (fst (deliver [unit_packet 0 0x10 7, unit_packet 0 0x11 10] witness_reader)) \<and>
   map au_Data (fst (deliver [unit_packet 0 0x10 7, unit_packet 0 0x11 10] witness_reader)) = [[7]]"
proof -
  let ?ps = "[unit_packet 0 0x10 7, unit_packet 1 0x10 8, unit_packet 0 0x91 9, [0x48, 0x41, 0, 0x11], unit_packet 0 0x11 10]"
  let ?qs = "[unit_packet 0 0x10 7, unit_packet 0 0x11 10]"
  have r: "streams_ok witness_reader" "r_streams witness_reader 256 = Some 0"
    by (simp_all add: streams_ok_def witness_reader_def new_esStream_def)
  have f: "filter (on_pid 256) ?ps = filter (on_pid 256) ?qs" by code_simp
  have d: "map au_Data (fst (deliver ?qs witness_reader)) = [[7]]"
    by (simp add: unit_packet_def witness_reader_def new_esStream_def handlePacket_def parsePacketHeader_def packetPayload_def syncByte_def pid13_def handleES_def finish_def startUnit_def parsePESHeader_def Let_def)
  show ?thesis using pid_isolation[OF r f] d by blast
qed

section \<open>Packets of a unit\<close>

text \<open>The payload bytes that a receiver takes from a list of packets.\<close>

definition payloads :: "bytes list \<Rightarrow> bytes" where
  "payloads ps = concat (map (\<lambda>p. case pkt_view p of None \<Rightarrow> [] | Some (_, _, d) \<Rightarrow> d) ps)"

lemma payloads_pes_packets:
  assumes "pid < 0x2000" "counter AND 0x0F = counter" "r \<noteq> [] \<or> \<not> first"
  shows "payloads (pes_packets pid rai withPCR v counter first r) = r"
  using assms
proof (induction pid rai withPCR v counter first r rule: pes_packets.induct)
  case (1 pid rai wp v counter first r)
  show ?case
  proof (cases "r = []")
    case True
    then show ?thesis using "1.prems"(3) by (subst pes_packets.simps) (simp add: payloads_def)
  next
    case False
    define af where "af = pes_adaptation rai wp v first"
    obtain hdr where v: "pkt_view (pes_packet pid af counter first r) = Some (hdr, randomAccess af, take (pes_chunk af r) r)"
      using view_pes_packet(1)[OF "1.prems"(1,2) False] by blast
    have "payloads (pes_packets pid rai wp v ((counter + 1) AND 0x0F) False (drop (pes_chunk af r) r)) = drop (pes_chunk af r) r"
      using "1.IH"[OF _ af_def] False "1.prems"(1) by (simp add: and.assoc)
    then show ?thesis using False v
      by (subst pes_packets.simps) (simp add: af_def[symmetric] Let_def payloads_def)
  qed
qed

text \<open>
  C21: \<open>writePES\<close>, which slices the segments into one reused packet buffer, refines the direct
  description \<open>pes_packets\<close> of the packets of the concatenated segments: the loop returns, on every
  output it makes exactly the \<open>Write\<close> calls for these packets and stops at the first failure, all of
  them are 188 bytes long, and a receiver takes exactly the concatenated segments out of them.
\<close>

theorem writePES_refines:
  assumes "length (w_pkt w) = packetSize" "pid < 0x2000" "cc_of w pid AND 0x0F = cc_of w pid" "concat segs \<noteq> []"
  shows "\<exists>w' ps. ps = pes_packets pid rai withPCR v (cc_of w pid) True (concat segs) \<and>
    writePES pid rai withPCR v segs w = Some (fst (write_all ps (w_dst w)), w') \<and> w_dst w' = snd (write_all ps (w_dst w)) \<and>
    (\<forall>p \<in> set ps. length p = packetSize) \<and> payloads ps = concat segs"
proof -
  let ?ps = "pes_packets pid rai withPCR v (cc_of w pid) True (concat segs)"
  obtain w' where "writePES pid rai withPCR v segs w = Some (fst (write_all ?ps (w_dst w)), w')" "w_dst w' = snd (write_all ?ps (w_dst w))"
    using writePES_spec[OF assms(1), of pid rai withPCR v segs] by blast
  moreover have "\<forall>p \<in> set ?ps. length p = packetSize" by (intro ballI) (rule pes_packets_size)
  moreover have "payloads ?ps = concat segs" using payloads_pes_packets[OF assms(2,3)] assms(4) by simp
  ultimately show ?thesis by (intro exI conjI) (rule refl)
qed

definition witness_body :: bytes where "witness_body = replicate 400 9"

theorem writePES_refines_witness:
  "\<exists>w' ps. writePES 256 True True 27000000 [[1, 2, 3], witness_body] (initial_writer witness_sink) = Some (fst (write_all ps witness_sink), w') \<and>
    (\<forall>p \<in> set ps. length p = packetSize) \<and> payloads ps = [1, 2, 3] @ witness_body"
proof -
  have 1: "length (w_pkt (initial_writer witness_sink)) = packetSize" "(256 :: u16) < 0x2000"
    "cc_of (initial_writer witness_sink) 256 AND 0x0F = cc_of (initial_writer witness_sink) 256" "w_dst (initial_writer witness_sink) = witness_sink"
    by (simp_all add: initial_writer_def cc_of_def)
  have 2: "concat [[1, 2, 3], witness_body] = [1, 2, 3] @ witness_body" "concat [[1, 2, 3], witness_body] \<noteq> []"
    by (simp_all only: concat.simps append_Nil2) simp
  show ?thesis using writePES_refines[OF 1(1-3) 2(2), of True True 27000000] unfolding 1(4) 2(1) by blast
qed

section \<open>Tables\<close>

text \<open>
  C23: A section survives any packetization. However the bytes of a marshalled section (and stuffing
  after it) are cut into packet payloads, behind any pointer field and whatever the assembler held,
  \<open>feed\<close> returns the section complete at the right moment and \<open>parseSectionBytes\<close> accepts it with
  its table id, extension, version and data.
\<close>

theorem section_reassembly:
  assumes "marshal_section s = Inr (0 # sb)" "sec_version s < 32" "length junk < 256" "c0 @ concat cs = sb @ pad"
  shows "\<exists>a' sec. feed_all a ((True, of_nat (length junk) # junk @ c0) # map (Pair False) cs) = Some (Some sec, a') \<and>
    \<not> asm_active a' \<and> parseSectionBytes sec = Inr s"
proof -
  have len: "length (sec_data s) \<le> 1012" and sb: "sb = section_bytes s"
    using assms(1) by (simp_all add: marshal_section_eq split: if_splits)
  have m: "(0x1F :: u8) = mask 5" by (simp add: mask_eq_exp_minus_1)
  have "sec_version s AND 0x1F = sec_version s"
    unfolding m using word_bit_less[of "sec_version s" 5] assms(2) by (intro bit_word_eqI) (auto simp: bit_simps)
  then have "parseSectionBytes sb = Inr s" using parse_section_bytes[OF len, of "[]"] sb by simp
  moreover obtain a' where "feed_all a ((True, of_nat (length junk) # junk @ c0) # map (Pair False) cs) = Some (Some sb, a')" "\<not> asm_active a'"
    using feed_reassembles[OF whole_section_bytes[OF len] refl assms(3)] assms(4) unfolding sb by blast
  ultimately show ?thesis by blast
qed

theorem section_reassembly_witness:
  "\<exists>sb a' sec. marshal_section pat_section = Inr (0 # sb) \<and>
    feed_all new_assembler ((True, of_nat (length [1, 2 :: byte]) # [1, 2] @ take 2 sb) # map (Pair False) [take 7 (drop 2 sb), drop 9 sb @ [0xFF]]) =
      Some (Some sec, a') \<and> parseSectionBytes sec = Inr pat_section"
proof -
  have 1: "marshal_section pat_section = Inr (0 # section_bytes pat_section)" "sec_version pat_section < 32" "length [1, 2 :: byte] < 256"
    by (simp_all add: marshal_section_eq pat_section_def marshal_program_def)
  have 2: "take 2 sb @ concat [take 7 (drop 2 sb), drop 9 sb @ [0xFF]] = sb @ [0xFF]" for sb :: bytes
  proof -
    have "take 7 (drop 2 sb) @ drop 9 sb = drop 2 sb" using append_take_drop_id[of 7 "drop 2 sb"] by simp
    then have "take 2 sb @ take 7 (drop 2 sb) @ drop 9 sb = sb" using append_take_drop_id[of 2 sb] by simp
    then show ?thesis by (metis append.right_neutral append_assoc concat.simps)
  qed
  show ?thesis using section_reassembly[OF 1 2] 1(1) by blast
qed

text \<open>
  A timestamp before zero, which the function itself produces for a unit just before a wrap, is taken
  for the missing reference: the next value jumps ahead by a whole period.
\<close>

lemma extend_negative_reference:
  "extendTimestamp 0 (2 ^ 33 - 100) = -100 \<and> extendTimestamp (-100) (2 ^ 33 - 50) = 2 ^ 33 - 50"
  by code_simp

end
