(* ===== verification/TsBounds.thy ===== *)
theory TsBounds
  imports TsReader "HOL-Library.Monad_Syntax"
begin

text \<open>
  The demultiplexer with every index and slice expression of the code checked. In the other theories an index is the list
  operation \<open>!\<close>, which gives some value out of range where Go panics. Here \<open>b[i]\<close> is \<open>idx b i\<close> and \<open>b[i:j]\<close> is \<open>subslice b i j\<close>, both
  \<open>None\<close> out of range, and \<open>None\<close> is passed on to the caller, so a panic anywhere makes the whole call \<open>None\<close>. The loops are
  partial functions whose value is \<open>None\<close> as well when they do not end. The last theorem says that it never comes to that, on any input.
\<close>

section \<open>Indices and slices\<close>

definition idx :: "'a list \<Rightarrow> nat \<Rightarrow> 'a option" where
  "idx b i = (if i < length b then Some (b ! i) else None)"

definition subslice :: "'a list \<Rightarrow> nat \<Rightarrow> nat \<Rightarrow> 'a list option" where
  "subslice b i j = (if i \<le> j \<and> j \<le> length b then Some (slice i j b) else None)"

lemma idx_in [simp]: "i < length b \<Longrightarrow> idx b i = Some (b ! i)"
  by (simp add: idx_def)

lemma idx_first [simp]: "b \<noteq> [] \<Longrightarrow> idx b 0 = Some (b ! 0)"
  by (cases b) (simp_all add: idx_def)

lemma subslice_in [simp]: "i \<le> j \<Longrightarrow> j \<le> length b \<Longrightarrow> subslice b i j = Some (slice i j b)"
  by (simp add: subslice_def)

lemma slice_end [simp]: "slice i (length b) b = drop i b"
  by (simp add: slice_def)

text \<open>A length in a guard is compared as a number, also with zero.\<close>

declare length_greater_0_conv [simp del]

section \<open>Packets\<close>

definition parsePacketHeader_checked :: "bytes \<Rightarrow> (ts_error + packetHeader) option" where
  "parsePacketHeader_checked pkt =
     (if length pkt < 4 then Some (Inl (Err errShortPacket))
      else do {
        b0 \<leftarrow> idx pkt 0;
        if b0 \<noteq> syncByte then Some (Inl (Err errInvalidSyncByte))
        else do {
          b1 \<leftarrow> idx pkt 1; b2 \<leftarrow> idx pkt 2; b3 \<leftarrow> idx pkt 3;
          let afc = drop_bit 4 b3 AND 0x03;
          if afc = 0 then Some (Inl (Err errInvalidAFC))
          else Some (Inr \<lparr>transportError = (b1 AND 0x80 \<noteq> 0), payloadUnitStart = (b1 AND 0x40 \<noteq> 0),
            transportPriority = (b1 AND 0x20 \<noteq> 0), hdr_pid = pid13 b1 b2, scramblingControl = drop_bit 6 b3,
            hasAdaptationField = (afc AND 0x02 \<noteq> 0), hasPayload = (afc AND 0x01 \<noteq> 0), continuityCounter = b3 AND 0x0F\<rparr>)
        }
      })"

definition parseAdaptationField_checked :: "bytes \<Rightarrow> (ts_error + adaptationField \<times> nat) option" where
  "parseAdaptationField_checked buf =
     (if length buf < 1 then Some (Inl (Err errAdaptationTruncated))
      else do {
        b0 \<leftarrow> idx buf 0;
        let len = unat b0;
        if 1 + len > length buf then Some (Inl (Err errAdaptationTooLong))
        else if len = 0 then Some (Inr (no_adaptation, 1))
        else do {
          flags \<leftarrow> idx buf 1;
          let af = no_adaptation\<lparr>discontinuity := (flags AND 0x80 \<noteq> 0), randomAccess := (flags AND 0x40 \<noteq> 0)\<rparr>;
          if flags AND 0x10 \<noteq> 0 then
            if len < 7 then Some (Inl (Err errAdaptationTruncated))
            else do {
              b2 \<leftarrow> idx buf 2; b3 \<leftarrow> idx buf 3; b4 \<leftarrow> idx buf 4; b5 \<leftarrow> idx buf 5; b6 \<leftarrow> idx buf 6; b7 \<leftarrow> idx buf 7;
              let base = push_bit 25 (to64 b2) OR push_bit 17 (to64 b3) OR push_bit 9 (to64 b4) OR push_bit 1 (to64 b5) OR drop_bit 7 (to64 b6);
              let ext = push_bit 8 (to64 (b6 AND 0x01)) OR to64 b7;
              Some (Inr (af\<lparr>hasPCR := True, pcr := base * 300 + ext\<rparr>, 1 + len))
            }
          else Some (Inr (af, 1 + len))
        }
      })"

definition packetPayload_checked :: "bytes \<Rightarrow> packetHeader \<Rightarrow> (ts_error + bytes option \<times> adaptationField) option" where
  "packetPayload_checked pkt hdr = do {
     res \<leftarrow> (if hasAdaptationField hdr then do { buf \<leftarrow> subslice pkt 4 (length pkt); parseAdaptationField_checked buf }
       else Some (Inr (no_adaptation, 0)));
     case res of
       Inl e \<Rightarrow> Some (Inl e)
     | Inr (af, n) \<Rightarrow>
         let off = 4 + n in
         if \<not> hasPayload hdr \<or> off \<ge> length pkt then Some (Inr (None, af))
         else do { payload \<leftarrow> subslice pkt off (length pkt); Some (Inr (Some payload, af)) }
   }"

lemma parsePacketHeader_in: "parsePacketHeader_checked pkt = Some (parsePacketHeader pkt)"
  by (simp add: parsePacketHeader_checked_def parsePacketHeader_def Let_def)

lemma parseAdaptationField_in: "parseAdaptationField_checked buf = Some (parseAdaptationField buf)"
  by (simp add: parseAdaptationField_checked_def parseAdaptationField_def pcr_of_bytes_def Let_def)

text \<open>A packet is read whole, so the four bytes of its header are there to be skipped.\<close>

lemma packetPayload_in: "4 \<le> length pkt \<Longrightarrow> packetPayload_checked pkt hdr = Some (packetPayload pkt hdr)"
  by (auto simp: packetPayload_checked_def packetPayload_def parseAdaptationField_in Let_def split: sum.split)

section \<open>Sections and tables\<close>

definition parseSectionBytes_checked :: "bytes \<Rightarrow> (ts_error + psiSection) option" where
  "parseSectionBytes_checked buf =
     (if length buf < 8 then Some (Inl (Err errSectionTruncated))
      else do {
        b0 \<leftarrow> idx buf 0; b1 \<leftarrow> idx buf 1; b2 \<leftarrow> idx buf 2;
        let len = length12 b1 b2;
        if len < 9 \<or> 3 + len > length buf then Some (Inl (Err errSectionTruncated))
        else do {
          b3 \<leftarrow> idx buf 3; b4 \<leftarrow> idx buf 4; b5 \<leftarrow> idx buf 5; b6 \<leftarrow> idx buf 6; b7 \<leftarrow> idx buf 7;
          if b6 \<noteq> 0 \<or> b7 \<noteq> 0 then Some (Inl (Err errSectionMultipart))
          else do {
            let e = 3 + len;
            body \<leftarrow> subslice buf 0 (e - 4); crcBytes \<leftarrow> subslice buf (e - 4) e;
            c0 \<leftarrow> idx crcBytes 0; c1 \<leftarrow> idx crcBytes 1; c2 \<leftarrow> idx crcBytes 2; c3 \<leftarrow> idx crcBytes 3;
            let want = push_bit 24 (to32 c0) OR push_bit 16 (to32 c1) OR push_bit 8 (to32 c2) OR to32 c3;
            if crc32MPEG body \<noteq> want then Some (Inl (Err errSectionCRC))
            else do {
              d \<leftarrow> subslice buf 8 (e - 4);
              Some (Inr \<lparr>tableID = b0, tableIDExtension = push_bit 8 (to16 b3) OR to16 b4,
                sec_version = drop_bit 1 b5 AND 0x1F, sec_data = d\<rparr>)
            }
          }
        }
      })"

definition parsePSISection_checked :: "bytes \<Rightarrow> (ts_error + psiSection) option" where
  "parsePSISection_checked payload =
     (if length payload < 1 then Some (Inl (Err errSectionTruncated))
      else do {
        p0 \<leftarrow> idx payload 0;
        let skip = 1 + unat p0;
        if length payload < skip then Some (Inl (Err errSectionTruncated))
        else do { buf \<leftarrow> subslice payload skip (length payload); parseSectionBytes_checked buf }
      })"

definition feed_check_checked :: "sectionAssembler \<Rightarrow> (bytes option \<times> sectionAssembler) option" where
  "feed_check_checked a =
     (if length (asm_buf a) < 3 then Some (None, a)
      else do {
        b1 \<leftarrow> idx (asm_buf a) 1; b2 \<leftarrow> idx (asm_buf a) 2;
        let total = 3 + length12 b1 b2;
        if length (asm_buf a) < total then Some (None, a)
        else do { sec \<leftarrow> subslice (asm_buf a) 0 total; Some (Some sec, a\<lparr>asm_active := False\<rparr>) }
      })"

definition feed_checked :: "bool \<Rightarrow> bytes \<Rightarrow> sectionAssembler \<Rightarrow> (bytes option \<times> sectionAssembler) option" where
  "feed_checked unitStart payload a =
     (if unitStart then do {
        let a1 = a\<lparr>asm_active := False\<rparr>;
        p0 \<leftarrow> idx payload 0;
        let skip = 1 + unat p0;
        if skip > length payload then Some (None, a1)
        else do {
          rest \<leftarrow> subslice payload skip (length payload);
          feed_check_checked (a1\<lparr>asm_buf := rest, asm_active := True\<rparr>)
        }
      }
      else if \<not> asm_active a then Some (None, a)
      else feed_check_checked (a\<lparr>asm_buf := asm_buf a @ payload\<rparr>))"

text \<open>The loop of \<open>parsePAT\<close> with its index \<open>i\<close>, and the loop of \<open>parsePMT\<close>, which slices its buffer.\<close>

partial_function (option) parsePAT_loop_checked :: "bytes \<Rightarrow> nat \<Rightarrow> patProgram list option" where
  "parsePAT_loop_checked d i =
     (if i + 4 \<le> length d then do {
        a \<leftarrow> idx d i; b \<leftarrow> idx d (i + 1); c \<leftarrow> idx d (i + 2); e \<leftarrow> idx d (i + 3);
        rest \<leftarrow> parsePAT_loop_checked d (i + 4);
        let num = push_bit 8 (to16 a) OR to16 b;
        Some (if num = 0 then rest else \<lparr>programNumber = num, pmtPID = pid13 c e\<rparr> # rest)
      }
      else Some [])"

definition parsePAT_checked :: "psiSection \<Rightarrow> (ts_error + patProgram list) option" where
  "parsePAT_checked sec =
     (if tableID sec \<noteq> tableIDPAT then Some (Inl (Err errNotPAT))
      else do { programs \<leftarrow> parsePAT_loop_checked (sec_data sec) 0; Some (Inr programs) })"

partial_function (option) parsePMT_streams_checked :: "bytes \<Rightarrow> (ts_error + pmtStream list) option" where
  "parsePMT_streams_checked buf =
     (if buf = [] then Some (Inr [])
      else if length buf < 5 then Some (Inl (Err errPMTTruncated))
      else do {
        b3 \<leftarrow> idx buf 3; b4 \<leftarrow> idx buf 4;
        let esInfoLen = length12 b3 b4;
        if length buf < 5 + esInfoLen then Some (Inl (Err errPMTTruncated))
        else do {
          b0 \<leftarrow> idx buf 0; b1 \<leftarrow> idx buf 1; b2 \<leftarrow> idx buf 2;
          next_buf \<leftarrow> subslice buf (5 + esInfoLen) (length buf);
          res \<leftarrow> parsePMT_streams_checked next_buf;
          Some (case res of Inl e \<Rightarrow> Inl e | Inr rest \<Rightarrow> Inr (\<lparr>streamType = b0, stream_pid = pid13 b1 b2\<rparr> # rest))
        }
      })"

definition parsePMT_checked :: "psiSection \<Rightarrow> (ts_error + pmt) option" where
  "parsePMT_checked sec =
     (if tableID sec \<noteq> tableIDPMT then Some (Inl (Err errNotPMT))
      else let buf = sec_data sec in
      if length buf < 4 then Some (Inl (Err errPMTTruncated))
      else do {
        b0 \<leftarrow> idx buf 0; b1 \<leftarrow> idx buf 1; b2 \<leftarrow> idx buf 2; b3 \<leftarrow> idx buf 3;
        let infoLen = length12 b2 b3;
        if length buf < 4 + infoLen then Some (Inl (Err errPMTTruncated))
        else do {
          rest \<leftarrow> subslice buf (4 + infoLen) (length buf);
          res \<leftarrow> parsePMT_streams_checked rest;
          Some (case res of Inl e \<Rightarrow> Inl e | Inr ss \<Rightarrow> Inr \<lparr>pcrPID = pid13 b0 b1, pmt_streams = ss\<rparr>)
        }
      })"

lemma parseSectionBytes_in: "parseSectionBytes_checked buf = Some (parseSectionBytes buf)"
proof (cases "length buf < 8")
  case False
  then have i: "idx buf 0 = Some (buf ! 0)" "idx buf 1 = Some (buf ! 1)" "idx buf 2 = Some (buf ! 2)" "idx buf 3 = Some (buf ! 3)"
    "idx buf 4 = Some (buf ! 4)" "idx buf 5 = Some (buf ! 5)" "idx buf 6 = Some (buf ! 6)" "idx buf 7 = Some (buf ! 7)" by simp_all
  define n where "n = length12 (buf ! 1) (buf ! 2)"
  show ?thesis
  proof (cases "n < 9 \<or> 3 + n > length buf")
    case True
    then show ?thesis using False i by (simp add: parseSectionBytes_checked_def parseSectionBytes_def Let_def n_def)
  next
    case in_range: False
    then have "length (slice (3 + n - 4) (3 + n) buf) = 4" by (auto simp: slice_def min_def)
    moreover have "subslice buf 0 (3 + n - 4) = Some (slice 0 (3 + n - 4) buf)" "subslice buf 8 (3 + n - 4) = Some (slice 8 (3 + n - 4) buf)"
      "subslice buf (3 + n - 4) (3 + n) = Some (slice (3 + n - 4) (3 + n) buf)" using in_range by (auto simp: subslice_def)
    ultimately show ?thesis using False i in_range
      unfolding parseSectionBytes_checked_def parseSectionBytes_def Let_def bind.bind_lunit i n_def[symmetric] by simp
  qed
qed (simp add: parseSectionBytes_checked_def parseSectionBytes_def)

lemma parsePSISection_in: "parsePSISection_checked payload = Some (parsePSISection payload)"
  by (simp add: parsePSISection_checked_def parsePSISection_def parseSectionBytes_in Let_def)

lemma feed_in: "feed_checked unitStart payload a = feed unitStart payload a"
proof -
  have "feed_check_checked b = Some (feed_check b)" for b
    by (simp add: feed_check_checked_def feed_check_def Let_def slice_def)
  then show ?thesis by (cases payload) (simp_all add: feed_checked_def feed_def Let_def idx_def slice_def)
qed

lemma parsePAT_entries_short: "length b < 4 \<Longrightarrow> parsePAT_entries b = []"
  by (induction b rule: parsePAT_entries.induct) simp_all

lemma parsePAT_loop_in: "parsePAT_loop_checked d i = Some (parsePAT_entries (drop i d))"
proof (induction "length d - i" arbitrary: i rule: less_induct)
  case less
  show ?case
  proof (cases "i + 4 \<le> length d")
    case True
    then have "drop i d = d ! i # d ! (i + 1) # d ! (i + 2) # d ! (i + 3) # drop (i + 4) d"
      by (simp add: Cons_nth_drop_Suc numeral_eq_Suc)
    moreover have "parsePAT_loop_checked d (i + 4) = Some (parsePAT_entries (drop (i + 4) d))" using less True by simp
    ultimately show ?thesis using True by (subst parsePAT_loop_checked.simps) (simp add: Let_def)
  next
    case False
    then have "parsePAT_entries (drop i d) = []" by (intro parsePAT_entries_short) simp
    then show ?thesis using False by (subst parsePAT_loop_checked.simps) simp
  qed
qed

lemma parsePAT_in: "parsePAT_checked sec = Some (parsePAT sec)"
  by (simp add: parsePAT_checked_def parsePAT_def parsePAT_loop_in)

lemma parsePMT_streams_in: "parsePMT_streams_checked buf = Some (parsePMT_streams buf)"
proof (induction buf rule: parsePMT_streams.induct)
  case (1 buf)
  define n where "n = length12 (buf ! 3) (buf ! 4)"
  consider "buf = [] \<or> length buf < 5" | "5 \<le> length buf" "length buf < 5 + n" | "buf \<noteq> []" "5 \<le> length buf" "5 + n \<le> length buf" by force
  then show ?case
  proof cases
    case 3
    then have "parsePMT_streams_checked (drop (5 + n) buf) = Some (parsePMT_streams (drop (5 + n) buf))"
      using "1.IH"[OF _ _ n_def] by simp
    then show ?thesis using 3
      by (subst parsePMT_streams_checked.simps, subst parsePMT_streams.simps) (simp add: Let_def n_def[symmetric] split: sum.split)
  qed (auto simp: parsePMT_streams_checked.simps[of buf] parsePMT_streams.simps[of buf] Let_def n_def)
qed

lemma parsePMT_in: "parsePMT_checked sec = Some (parsePMT sec)"
  by (simp add: parsePMT_checked_def parsePMT_def parsePMT_streams_in Let_def split: sum.split)

section \<open>Elementary streams\<close>

definition parseTimestamp_checked :: "bytes \<Rightarrow> int option" where
  "parseTimestamp_checked buf = do {
     b0 \<leftarrow> idx buf 0; b1 \<leftarrow> idx buf 1; b2 \<leftarrow> idx buf 2; b3 \<leftarrow> idx buf 3; b4 \<leftarrow> idx buf 4;
     Some (push_bit 29 (uint (b0 AND 0x0E)) OR push_bit 22 (uint b1) OR push_bit 14 (uint (b2 AND 0xFE))
       OR push_bit 7 (uint b3) OR drop_bit 1 (uint b4))
   }"

definition parsePESHeader_checked :: "bytes \<Rightarrow> (ts_error + pesHeader) option" where
  "parsePESHeader_checked buf =
     (if length buf < 9 then Some (Inl (Err errPESTruncated))
      else do {
        b0 \<leftarrow> idx buf 0; b1 \<leftarrow> idx buf 1; b2 \<leftarrow> idx buf 2;
        if b0 \<noteq> 0 \<or> b1 \<noteq> 0 \<or> b2 \<noteq> 1 then Some (Inl (Err errPESStartCode))
        else do {
          b3 \<leftarrow> idx buf 3; b4 \<leftarrow> idx buf 4; b5 \<leftarrow> idx buf 5; b6 \<leftarrow> idx buf 6;
          if b6 AND 0xC0 \<noteq> 0x80 then Some (Inl (Err errPESMarkerBits))
          else do {
            b7 \<leftarrow> idx buf 7; b8 \<leftarrow> idx buf 8;
            let hdr = \<lparr>streamID = b3, packetLength = push_bit 8 (unat b4) OR unat b5, headerLength = 9 + unat b8,
              hasPTS = False, hasDTS = False, pes_pts = 0, pes_dts = 0\<rparr>;
            if length buf < headerLength hdr then Some (Inl (Err errPESTruncated))
            else if drop_bit 6 b7 = 0b10 then
              if unat b8 < 5 then Some (Inl (Err errPESTruncated))
              else do {
                t \<leftarrow> subslice buf 9 14; pts \<leftarrow> parseTimestamp_checked t;
                Some (Inr (hdr\<lparr>hasPTS := True, pes_pts := pts\<rparr>))
              }
            else if drop_bit 6 b7 = 0b11 then
              if unat b8 < 10 then Some (Inl (Err errPESTruncated))
              else do {
                t \<leftarrow> subslice buf 9 14; pts \<leftarrow> parseTimestamp_checked t;
                u \<leftarrow> subslice buf 14 19; dts \<leftarrow> parseTimestamp_checked u;
                Some (Inr (hdr\<lparr>hasPTS := True, hasDTS := True, pes_pts := pts, pes_dts := dts\<rparr>))
              }
            else Some (Inr hdr)
          }
        }
      })"

definition startUnit_checked :: "bool \<Rightarrow> bytes \<Rightarrow> esStream \<Rightarrow> esStream option" where
  "startUnit_checked rai payload s = do {
     res \<leftarrow> parsePESHeader_checked payload;
     case res of
       Inl _ \<Rightarrow> Some (s\<lparr>collecting := False\<rparr>)
     | Inr hdr \<Rightarrow>
         if \<not> hasPTS hdr then Some (s\<lparr>collecting := False\<rparr>)
         else do {
           let dts33 = (if hasDTS hdr then pes_dts hdr else pes_pts hdr);
           let dts = extendTimestamp (lastTS s) dts33;
           buf \<leftarrow> subslice payload (headerLength hdr) (length payload);
           Some (s\<lparr>lastTS := dts, es_pts := extendTimestamp dts (pes_pts hdr), es_dts := dts, es_rai := rai,
             es_buf := buf, collecting := True\<rparr>)
         }
   }"

definition handleES_checked :: "int \<Rightarrow> packetHeader \<Rightarrow> bool \<Rightarrow> bytes \<Rightarrow> esStream \<Rightarrow> (AccessUnit option \<times> esStream) option" where
  "handleES_checked max_size hdr rai payload s =
     (if hasCC s \<and> continuityCounter hdr = es_cc s \<and> \<not> payloadUnitStart hdr then Some (None, s)
      else let
        s1 = (if hasCC s \<and> continuityCounter hdr \<noteq> (es_cc s + 1) AND 0x0F
              then s\<lparr>es_buf := [], collecting := False\<rparr> else s);
        s2 = s1\<lparr>es_cc := continuityCounter hdr, hasCC := True\<rparr> in
      if payloadUnitStart hdr then
        (case finish s2 of (completed, s3) \<Rightarrow> do { s4 \<leftarrow> startUnit_checked rai payload s3; Some (completed, s4) })
      else if \<not> collecting s2 then Some (None, s2)
      else let s3 = s2\<lparr>es_buf := es_buf s2 @ payload\<rparr> in
        if int (length (es_buf s3)) > max_size then Some (None, s3\<lparr>es_buf := [], collecting := False\<rparr>)
        else Some (None, s3))"

lemma parseTimestamp_in: "length buf = 5 \<Longrightarrow> parseTimestamp_checked buf = Some (parseTimestamp buf)"
  by (simp add: parseTimestamp_checked_def parseTimestamp_def)

lemma parsePESHeader_in: "parsePESHeader_checked buf = Some (parsePESHeader buf)"
proof (cases "length buf < 9")
  case False
  then have i: "idx buf 0 = Some (buf ! 0)" "idx buf 1 = Some (buf ! 1)" "idx buf 2 = Some (buf ! 2)" "idx buf 3 = Some (buf ! 3)"
    "idx buf 4 = Some (buf ! 4)" "idx buf 5 = Some (buf ! 5)" "idx buf 6 = Some (buf ! 6)" "idx buf 7 = Some (buf ! 7)"
    "idx buf 8 = Some (buf ! 8)" by simp_all
  have t: "subslice buf 9 14 \<bind> parseTimestamp_checked = Some (parseTimestamp (slice 9 14 buf))" if "9 + unat (buf ! 8) \<le> length buf" "5 \<le> unat (buf ! 8)"
    using that by (simp add: parseTimestamp_in slice_def)
  have u: "subslice buf 14 19 \<bind> parseTimestamp_checked = Some (parseTimestamp (slice 14 19 buf))" if "9 + unat (buf ! 8) \<le> length buf" "10 \<le> unat (buf ! 8)"
    using that by (simp add: parseTimestamp_in slice_def)
  show ?thesis using False t u unfolding parsePESHeader_checked_def parsePESHeader_def Let_def i
    by (auto simp: bind_eq_Some_conv not_less)
qed (simp add: parsePESHeader_checked_def parsePESHeader_def)

lemma handleES_in: "handleES_checked m hdr rai payload s = Some (handleES m hdr rai payload s)"
proof -
  have "startUnit_checked rai payload s = Some (startUnit rai payload s)" for s
  proof (cases "parsePESHeader payload")
    case (Inr hdr)
    then have "headerLength hdr \<le> length payload" by (auto simp: parsePESHeader_def Let_def split: if_splits)
    then show ?thesis using Inr by (simp add: startUnit_checked_def startUnit_def parsePESHeader_in Let_def)
  qed (simp add: startUnit_checked_def startUnit_def parsePESHeader_in)
  note start = this
  define s2 where "s2 = (if hasCC s \<and> continuityCounter hdr \<noteq> (es_cc s + 1) AND 0x0F then s\<lparr>es_buf := [], collecting := False\<rparr> else s)
    \<lparr>es_cc := continuityCounter hdr, hasCC := True\<rparr>"
  obtain au s3 where f: "finish s2 = (au, s3)" by fastforce
  show ?thesis
    unfolding handleES_checked_def handleES_def Let_def s2_def[symmetric] f by (simp only: start prod.case bind.bind_lunit split: if_split) auto
qed

section \<open>The reader\<close>

definition readPAT_checked :: "bytes \<Rightarrow> reader \<Rightarrow> (bool \<times> reader) option" where
  "readPAT_checked sectionBytes r = do {
     res \<leftarrow> parseSectionBytes_checked sectionBytes;
     case res of
       Inl _ \<Rightarrow> Some (False, r)
     | Inr sec \<Rightarrow> do {
         pat \<leftarrow> parsePAT_checked sec;
         case pat of
           Inl _ \<Rightarrow> Some (False, r)
         | Inr programs \<Rightarrow>
             if length programs = 0 then Some (False, r)
             else do { p \<leftarrow> idx programs 0; Some (True, r\<lparr>r_pmtPID := pmtPID p\<rparr>) }
       }
   }"

definition readPMT_checked :: "bytes \<Rightarrow> reader \<Rightarrow> ((bool \<times> ts_error option) \<times> reader) option" where
  "readPMT_checked sectionBytes r = do {
     res \<leftarrow> parseSectionBytes_checked sectionBytes;
     case res of
       Inl _ \<Rightarrow> Some ((False, None), r)
     | Inr sec \<Rightarrow> do {
         tab \<leftarrow> parsePMT_checked sec;
         case tab of
           Inl _ \<Rightarrow> Some ((False, None), r)
         | Inr table \<Rightarrow>
             let r1 = fold add_track (pmt_streams table) r in
             if r_tracks r1 = [] then Some ((True, Some (Err errNoUsableProgram)), r1)
             else Some ((True, None), r1)
       }
   }"

text \<open>
  The body of the loop of \<open>readTables\<close>, for a packet that was read: either it returns, or the loop goes on with the two
  assemblers and what is known of the tables.
\<close>

definition readTables_body_checked :: "bool \<Rightarrow> sectionAssembler \<Rightarrow> sectionAssembler \<Rightarrow> bytes \<Rightarrow> reader \<Rightarrow>
    ((ts_error option \<times> reader) + (bool \<times> sectionAssembler \<times> sectionAssembler \<times> reader)) option" where
  "readTables_body_checked havePAT patAsm pmtAsm pkt r = do {
     res \<leftarrow> parsePacketHeader_checked pkt;
     case res of
       Inl _ \<Rightarrow> Some (Inr (havePAT, patAsm, pmtAsm, r))
     | Inr hdr \<Rightarrow>
         if transportError hdr then Some (Inr (havePAT, patAsm, pmtAsm, r))
         else do {
           pres \<leftarrow> packetPayload_checked pkt hdr;
           case pres of
             Inl _ \<Rightarrow> Some (Inr (havePAT, patAsm, pmtAsm, r))
           | Inr (None, _) \<Rightarrow> Some (Inr (havePAT, patAsm, pmtAsm, r))
           | Inr (Some payload, _) \<Rightarrow>
               if hdr_pid hdr = pidPAT \<and> \<not> havePAT then do {
                 (section, a) \<leftarrow> feed_checked (payloadUnitStart hdr) payload patAsm;
                 case section of
                   None \<Rightarrow> Some (Inr (havePAT, a, pmtAsm, r))
                 | Some sec \<Rightarrow> do { (ok, r2) \<leftarrow> readPAT_checked sec r; Some (Inr (ok, a, pmtAsm, r2)) }
               }
               else if havePAT \<and> hdr_pid hdr = r_pmtPID r then do {
                 (section, a) \<leftarrow> feed_checked (payloadUnitStart hdr) payload pmtAsm;
                 case section of
                   None \<Rightarrow> Some (Inr (havePAT, patAsm, a, r))
                 | Some sec \<Rightarrow> do {
                     ((complete, err), r2) \<leftarrow> readPMT_checked sec r;
                     if err \<noteq> None then Some (Inl (err, r2))
                     else if complete then Some (Inl (None, r2))
                     else Some (Inr (havePAT, patAsm, a, r2))
                   }
               }
               else Some (Inr (havePAT, patAsm, pmtAsm, r))
         }
   }"

partial_function (option) readTables_loop_checked ::
  "bool \<Rightarrow> sectionAssembler \<Rightarrow> sectionAssembler \<Rightarrow> reader \<Rightarrow> (ts_error option \<times> reader) option" where
  "readTables_loop_checked havePAT patAsm pmtAsm r = (case readPacket r of
     (Inl e, r1) \<Rightarrow> Some (Some (if e = EOF then Err errNoUsableProgram else e), r1)
   | (Inr pkt, r1) \<Rightarrow> do {
       res \<leftarrow> readTables_body_checked havePAT patAsm pmtAsm pkt r1;
       case res of Inl out \<Rightarrow> Some out | Inr (h, p, m, r2) \<Rightarrow> readTables_loop_checked h p m r2
     })"

definition NewReader_checked :: "stream \<Rightarrow> reader_option list \<Rightarrow> (ts_error + reader) option" where
  "NewReader_checked src opts = (case apply_reader_options opts (initial_reader src) of
     (Some e, _) \<Rightarrow> Some (Inl e)
   | (None, r) \<Rightarrow> do {
       (err, r1) \<leftarrow> readTables_loop_checked False new_assembler new_assembler r;
       Some (case err of Some e \<Rightarrow> Inl e | None \<Rightarrow> Inr r1)
     })"

definition handlePacket_checked :: "bytes \<Rightarrow> reader \<Rightarrow> (AccessUnit option \<times> reader) option" where
  "handlePacket_checked pkt r = do {
     res \<leftarrow> parsePacketHeader_checked pkt;
     case res of
       Inl _ \<Rightarrow> Some (None, r)
     | Inr hdr \<Rightarrow>
         if transportError hdr \<or> scramblingControl hdr \<noteq> 0 then Some (None, r)
         else (case r_streams r (hdr_pid hdr) of
             None \<Rightarrow> Some (None, r)
           | Some i \<Rightarrow> do {
               pres \<leftarrow> packetPayload_checked pkt hdr;
               case pres of
                 Inl _ \<Rightarrow> Some (None, r)
               | Inr (None, _) \<Rightarrow> Some (None, r)
               | Inr (Some payload, af) \<Rightarrow> do {
                   (au, s) \<leftarrow> handleES_checked (maxAUSize r) hdr (randomAccess af) payload (r_order r ! i);
                   Some (au, r\<lparr>r_order := (r_order r)[i := s]\<rparr>)
                 }
             })
   }"

partial_function (option) flush_checked :: "reader \<Rightarrow> ((ts_error + AccessUnit) \<times> reader) option" where
  "flush_checked r =
     (if flushIdx r < length (r_order r) then do {
        stream \<leftarrow> idx (r_order r) (flushIdx r);
        case finish stream of
          (au, s) \<Rightarrow>
            let r1 = r\<lparr>r_order := (r_order r)[flushIdx r := s], flushIdx := flushIdx r + 1\<rparr> in
            (case au of Some a \<Rightarrow> Some (Inr a, r1) | None \<Rightarrow> flush_checked r1)
      }
      else Some (Inl EOF, r))"

partial_function (option) NextAccessUnit_checked :: "reader \<Rightarrow> ((ts_error + AccessUnit) \<times> reader) option" where
  "NextAccessUnit_checked r =
     (if r_eof r then flush_checked r
      else (case readPacket r of
          (Inl e, r1) \<Rightarrow> if e = EOF then NextAccessUnit_checked (r1\<lparr>r_eof := True\<rparr>) else Some (Inl e, r1)
        | (Inr pkt, r1) \<Rightarrow> do {
            (au, r2) \<leftarrow> handlePacket_checked pkt r1;
            case au of Some a \<Rightarrow> Some (Inr a, r2) | None \<Rightarrow> NextAccessUnit_checked r2
          }))"

lemma readPacket_size: "readPacket r = (Inr pkt, r1) \<Longrightarrow> length pkt = 188"
  by (auto simp: readPacket_def ReadFull_def packetSize_def split: prod.splits sum.splits if_splits)

lemma readPAT_in: "readPAT_checked sec r = Some (readPAT sec r)"
proof (cases "parseSectionBytes sec")
  case (Inr x)
  show ?thesis
  proof (cases "parsePAT x")
    case (Inr ps)
    then show ?thesis using \<open>parseSectionBytes sec = Inr x\<close>
      by (cases ps) (simp_all add: readPAT_checked_def readPAT_def parseSectionBytes_in parsePAT_in)
  qed (use Inr in \<open>simp add: readPAT_checked_def readPAT_def parseSectionBytes_in parsePAT_in\<close>)
qed (simp add: readPAT_checked_def readPAT_def parseSectionBytes_in)

lemma readPMT_in: "readPMT_checked sec r = Some (readPMT sec r)"
  by (simp add: readPMT_checked_def readPMT_def parsePMTSection_def parseSectionBytes_in parsePMT_in Let_def split: sum.split)

lemma handlePacket_in: "length pkt = 188 \<Longrightarrow> handlePacket_checked pkt r = Some (handlePacket pkt r)"
  by (auto simp: handlePacket_checked_def handlePacket_def parsePacketHeader_in packetPayload_in handleES_in
      split: sum.split option.split prod.split)

lemma flush_in: "flush_checked r = Some (flush r)"
proof (induction r rule: flush.induct)
  case (1 r)
  show ?case
  proof (cases "flushIdx r < length (r_order r)")
    case True
    obtain au s where f: "finish (r_order r ! flushIdx r) = (au, s)" by fastforce
    then show ?thesis using True "1.IH"[OF True f[symmetric] refl]
      by (subst flush_checked.simps, subst flush.simps) (cases au, simp_all add: Let_def)
  qed (simp add: flush_checked.simps[of r] flush.simps[of r])
qed

lemma NextAccessUnit_in: "NextAccessUnit_checked r = Some (NextAccessUnit r)"
proof (induction r rule: NextAccessUnit.induct)
  case (1 r)
  obtain res r1 where p: "readPacket r = (res, r1)" by fastforce
  show ?case
  proof (cases "r_eof r")
    case False
    show ?thesis
    proof (cases res)
      case (Inl e)
      then show ?thesis using "1.IH"(1)[OF False p[symmetric]] False p
        by (subst NextAccessUnit_checked.simps, subst NextAccessUnit.simps) simp
    next
      case (Inr pkt)
      obtain au r2 where h: "handlePacket pkt r1 = (au, r2)" by fastforce
      have c: "handlePacket_checked pkt r1 = Some (au, r2)" using handlePacket_in readPacket_size p h unfolding Inr by metis
      show ?thesis using "1.IH"(2)[OF False p[symmetric] Inr h[symmetric]] False p c h Inr
        by (subst NextAccessUnit_checked.simps, subst NextAccessUnit.simps) (cases au, simp_all)
    qed
  qed (simp add: NextAccessUnit_checked.simps[of r] NextAccessUnit.simps[of r] flush_in)
qed

text \<open>One round of the unchecked loop does what the checked body does.\<close>

lemma readTables_round:
  assumes p: "readPacket r = (Inr pkt, r1)"
  shows "readTables_loop havePAT patAsm pmtAsm r = (case readTables_body_checked havePAT patAsm pmtAsm pkt r1 of
      None \<Rightarrow> None | Some (Inl out) \<Rightarrow> Some out | Some (Inr (h, a, m, r2)) \<Rightarrow> readTables_loop h a m r2)"
proof -
  have "4 \<le> length pkt" using readPacket_size[OF p] by simp
  note body = readTables_body_checked_def parsePacketHeader_in packetPayload_in[OF this] feed_in readPAT_in readPMT_in
  show ?thesis
  proof (cases "\<exists>hdr payload af. parsePacketHeader pkt = Inr hdr \<and> \<not> transportError hdr \<and> packetPayload pkt hdr = Inr (Some payload, af)")
    case False
    then show ?thesis by (subst readTables_loop.simps) (auto simp: p body split: sum.split option.split)
  next
    case True
    then obtain hdr payload af where h: "parsePacketHeader pkt = Inr hdr" "\<not> transportError hdr" "packetPayload pkt hdr = Inr (Some payload, af)"
      by blast
    consider (pat) "hdr_pid hdr = pidPAT \<and> \<not> havePAT" | (pmt) "\<not> (hdr_pid hdr = pidPAT \<and> \<not> havePAT)" "havePAT \<and> hdr_pid hdr = r_pmtPID r1"
      | (other) "\<not> (hdr_pid hdr = pidPAT \<and> \<not> havePAT)" "\<not> (havePAT \<and> hdr_pid hdr = r_pmtPID r1)" by blast
    then show ?thesis
    proof cases
      case pat
      then show ?thesis by (subst readTables_loop.simps) (simp add: p h body split: option.split prod.split)
    next
      case pmt
      then show ?thesis by (subst readTables_loop.simps) (simp add: p h body split: option.split prod.split bool.split)
    next
      case other
      then show ?thesis by (subst readTables_loop.simps) (auto simp: p h body)
    qed
  qed
qed

lemma readTables_body_src:
  assumes "4 \<le> length pkt" "readTables_body_checked havePAT patAsm pmtAsm pkt r = Some (Inr (h, a, m, r2))"
  shows "r_src r2 = r_src r"
  using assms(2) unfolding readTables_body_checked_def parsePacketHeader_in packetPayload_in[OF assms(1)] readPAT_in readPMT_in
  using readPAT_src[OF prod.collapse[symmetric]] readPMT_src[OF prod.collapse[symmetric]]
  by (auto simp: bind_eq_Some_conv case_prod_beta split: sum.splits option.splits if_splits)

lemma readTables_loop_in: "readTables_loop_checked havePAT patAsm pmtAsm r = readTables_loop havePAT patAsm pmtAsm r"
proof (induction "length (st_data (r_src r))" arbitrary: havePAT patAsm pmtAsm r rule: less_induct)
  case less
  obtain res r1 where p: "readPacket r = (res, r1)" by fastforce
  show ?case
  proof (cases res)
    case (Inr pkt)
    have "readTables_loop_checked h a m r2 = readTables_loop h a m r2"
      if "readTables_body_checked havePAT patAsm pmtAsm pkt r1 = Some (Inr (h, a, m, r2))" for h a m r2
      using less readTables_body_src[OF _ that] readPacket_less[of r pkt r1] readPacket_size[of r pkt r1] p Inr by simp
    then show ?thesis using readTables_round[of r pkt r1 havePAT patAsm pmtAsm] p Inr
      by (subst readTables_loop_checked.simps) (auto split: option.split sum.split prod.split bind_splits)
  qed (simp add: readTables_loop_checked.simps[of _ _ _ r] readTables_loop.simps[of _ _ _ r] p)
qed

text \<open>
  C15: The demultiplexer stays in bounds. Whatever bytes the source has and whatever options are given, no index or slice
  expression of \<open>NewReader\<close> and \<open>NextAccessUnit\<close>, down to the parsers of packet headers, adaptation fields, sections, tables
  and PES headers, is out of range, and none of the loops runs forever: with every access checked they return, and return what the
  unchecked functions of the model return. The same holds of \<open>parsePSISection\<close> on every input.
\<close>

theorem demux_in_bounds:
  "NewReader_checked src opts = NewReader src opts \<and> (\<exists>res. NewReader_checked src opts = Some res) \<and>
   NextAccessUnit_checked r = Some (NextAccessUnit r) \<and> parsePSISection_checked payload = Some (parsePSISection payload)"
proof -
  have "NewReader_checked src opts = NewReader src opts"
    unfolding NewReader_checked_def NewReader_def readTables_def readTables_loop_in
    by (cases "apply_reader_options opts (initial_reader src)") (simp split: option.split bind_split)
  then show ?thesis using NewReader_total NextAccessUnit_in parsePSISection_in by simp
qed

end
