(* ===== verification/TsLoss.thy ===== *)
theory TsLoss
  imports TsRoundTrip "HOL-Library.Sublist"
begin

text \<open>
  The multiplexer and the demultiplexer with a lossy channel between them. The continuity counters
  the writer puts on the packets let the reader notice every gap of up to fourteen packets of a PID;
  a unit with a gap is given up. The first part is about one stream (\<open>handleES\<close>), the second about the
  packets the writer sends on one PID, the last joins them.
\<close>

section \<open>Continuity counters\<close>

lemma unat_cc_step: "unat (cc_step c) = (unat c + 1) mod 16"
proof -
  have "unat (c + 1) mod 16 = (unat c + 1) mod 16" by (simp add: unat_word_ariths mod_mod_cancel)
  moreover have "(0x0F :: byte) = mask 4" by (simp add: mask_eq_exp_minus_1)
  then have "cc_step c = take_bit 4 (c + 1)" by (simp add: cc_step_def take_bit_eq_mask)
  ultimately show ?thesis by (simp add: take_bit_eq_mod unat_mod_distrib)
qed

lemma unat_cc_steps: "unat ((cc_step ^^ k) c) = (if k = 0 then unat c else (unat c + k) mod 16)"
  by (induction k) (auto simp: unat_cc_step mod_Suc_eq)

text \<open>A counter that jumped over one to fourteen packets is neither the same nor the next one.\<close>

lemma cc_jump:
  assumes "c AND 0x0F = c" "g \<le> 14"
  shows "(cc_step ^^ Suc g) c \<noteq> c" "(cc_step ^^ Suc g) c = cc_step c \<longleftrightarrow> g = 0"
proof -
  have "(0x0F :: byte) = mask 4" by (simp add: mask_eq_exp_minus_1)
  then have "take_bit 4 c = c" using assms(1) by (simp add: take_bit_eq_mask)
  moreover have "unat (take_bit 4 c) < 16" by (simp add: take_bit_eq_mod unat_mod_distrib)
  ultimately have c: "unat c < 16" by simp
  have r: "(unat c + k) mod 16 = (if unat c + k < 16 then unat c + k else unat c + k - 16)" if "k \<le> 16" for k
    using c that by (simp add: mod_if)
  have u: "unat ((cc_step ^^ Suc g) c) = (unat c + Suc g) mod 16" by (simp add: unat_cc_steps del: funpow.simps)
  show "(cc_step ^^ Suc g) c \<noteq> c"
    unfolding word_unat_eq_iff u using r[of "Suc g"] c assms(2) by auto
  show "(cc_step ^^ Suc g) c = cc_step c \<longleftrightarrow> g = 0"
    unfolding word_unat_eq_iff u unat_cc_step using r[of "Suc g"] r[of 1] c assms(2) by auto
qed

section \<open>A stream with losses\<close>

text \<open>
  The packets of one PID as sent, with the units in them: \<open>cur\<close> is the unit that is open. The
  body of a unit starts behind its PES header.
\<close>

definition pes_body :: "bytes \<Rightarrow> bytes" where
  "pes_body payload = (case parsePESHeader payload of Inl _ \<Rightarrow> [] | Inr h \<Rightarrow> drop (headerLength h) payload)"

definition open_unit :: "bytes option \<Rightarrow> bytes list" where
  "open_unit cur = (case cur of None \<Rightarrow> [] | Some d \<Rightarrow> [d])"

fun sent_units :: "bytes option \<Rightarrow> bytes list \<Rightarrow> bytes list" where
  "sent_units cur [] = open_unit cur"
| "sent_units cur (p # ps) = (case pkt_view p of
     None \<Rightarrow> sent_units cur ps
   | Some (hdr, rai, payload) \<Rightarrow>
       if payloadUnitStart hdr then open_unit cur @ sent_units (Some (pes_body payload)) ps
       else sent_units (map_option (\<lambda>d. d @ payload) cur) ps)"

text \<open>
  Packets a receiver with limit \<open>m\<close> can follow: each has the next counter, every unit starts with a
  PES header that has a timestamp, and no unit is over the limit. \<open>d\<close> is the unit sent so far.
\<close>

definition starts_unit :: "bytes \<Rightarrow> bool" where
  "starts_unit payload = (case parsePESHeader payload of Inl _ \<Rightarrow> False
     | Inr h \<Rightarrow> hasPTS h \<and> drop (headerLength h) payload \<noteq> [])"

fun well_sent :: "int \<Rightarrow> u8 \<Rightarrow> bytes \<Rightarrow> bytes list \<Rightarrow> bool" where
  "well_sent m c d [] \<longleftrightarrow> True"
| "well_sent m c d (p # ps) \<longleftrightarrow> (case pkt_view p of
     None \<Rightarrow> False
   | Some (hdr, rai, payload) \<Rightarrow> continuityCounter hdr = c \<and>
       (if payloadUnitStart hdr then starts_unit payload \<and> well_sent m (cc_step c) (pes_body payload) ps
        else int (length (d @ payload)) \<le> m \<and> well_sent m (cc_step c) (d @ payload) ps))"

text \<open>
  A transmission: every packet with a flag that says whether it arrives. At most fourteen in a row
  are lost, and the last one arrives.
\<close>

fun gaps_ok :: "nat \<Rightarrow> (bool \<times> 'a) list \<Rightarrow> bool" where
  "gaps_ok g [] \<longleftrightarrow> g = 0"
| "gaps_ok g ((True, _) # xs) \<longleftrightarrow> gaps_ok 0 xs"
| "gaps_ok g ((False, _) # xs) \<longleftrightarrow> g < 14 \<and> gaps_ok (g + 1) xs"

definition arrived :: "(bool \<times> 'a) list \<Rightarrow> 'a list" where
  "arrived xs = map snd (filter fst xs)"

text \<open>
  The units that survive: all their packets arrive, and so does the packet behind them, if there is
  one. \<open>cur\<close> is the open unit when nothing of it was lost.
\<close>

fun intact_units :: "bytes option \<Rightarrow> (bool \<times> bytes) list \<Rightarrow> bytes list" where
  "intact_units cur [] = open_unit cur"
| "intact_units cur ((ok, p) # xs) =
     (if \<not> ok then intact_units None xs
      else case pkt_view p of
        None \<Rightarrow> intact_units cur xs
      | Some (hdr, rai, payload) \<Rightarrow>
          if payloadUnitStart hdr then open_unit cur @ intact_units (Some (pes_body payload)) xs
          else intact_units (map_option (\<lambda>d. d @ payload) cur) xs)"

lemma subseq_open_unit: "cur = None \<or> cur = cur' \<Longrightarrow> subseq (open_unit cur) (open_unit cur')"
  by (auto simp: open_unit_def)

lemma intact_subseq: "cur = None \<or> cur = cur' \<Longrightarrow> subseq (intact_units cur xs) (sent_units cur' (map snd xs))"
proof (induction cur xs arbitrary: cur' rule: intact_units.induct)
  case (2 cur ok p xs)
  show ?case
  proof (cases "ok \<and> pkt_view p \<noteq> None")
    case False
    then show ?thesis using 2 by (auto split: option.splits intro: list_emb_append2)
  next
    case True
    then obtain hdr rai payload where v: "pkt_view p = Some (hdr, rai, payload)" by auto
    show ?thesis using "2.IH"(3,4)[OF _ v refl refl] "2.prems" True v subseq_open_unit[OF "2.prems"]
      by (auto intro!: list_emb_append_mono)
  qed
qed (simp add: subseq_open_unit)

text \<open>The state of the receiver when \<open>g\<close> packets were lost since the last one and the next has counter \<open>c\<close>.\<close>

definition in_step :: "nat \<Rightarrow> u8 \<Rightarrow> bytes \<Rightarrow> bytes option \<Rightarrow> esStream \<Rightarrow> bool" where
  "in_step g c d cur s \<longleftrightarrow> c AND 0x0F = c \<and> g \<le> 14 \<and> (collecting s \<longrightarrow> hasCC s) \<and>
     (hasCC s \<longrightarrow> c = (cc_step ^^ Suc g) (es_cc s) \<and> es_cc s AND 0x0F = es_cc s) \<and>
     cur = (if g = 0 \<and> collecting s then Some (es_buf s) else None) \<and> (\<forall>b. cur = Some b \<longrightarrow> b = d \<and> b \<noteq> [])"

lemma startUnit_starts:
  "starts_unit payload \<Longrightarrow> collecting (startUnit rai payload s) \<and> es_buf (startUnit rai payload s) = pes_body payload \<and>
     pes_body payload \<noteq> []"
  "hasCC (startUnit rai payload s) = hasCC s" "es_cc (startUnit rai payload s) = es_cc s"
  by (auto simp: startUnit_def starts_unit_def pes_body_def Let_def split: sum.splits)

lemma finish_open:
  "map au_Data (case fst (finish s) of None \<Rightarrow> [] | Some a \<Rightarrow> [a]) = (if collecting s \<and> es_buf s \<noteq> [] then [es_buf s] else [])"
  "hasCC (snd (finish s)) = hasCC s" "es_cc (snd (finish s)) = es_cc s"
  by (simp_all add: finish_def Let_def)

text \<open>A packet that arrives: what is returned is the open unit, and the receiver is in step again.\<close>

lemma step_arrived:
  assumes "in_step g c d cur s" "continuityCounter hdr = c" "handleES m hdr rai payload s = (au, s')"
    and "payloadUnitStart hdr \<Longrightarrow> starts_unit payload" "\<not> payloadUnitStart hdr \<Longrightarrow> int (length (d @ payload)) \<le> m"
  defines "cur' \<equiv> if payloadUnitStart hdr then Some (pes_body payload) else map_option (\<lambda>d. d @ payload) cur"
    and "d' \<equiv> if payloadUnitStart hdr then pes_body payload else d @ payload"
  shows "in_step 0 (cc_step c) d' cur' s'"
    "map au_Data (case au of None \<Rightarrow> [] | Some a \<Rightarrow> [a]) = (if payloadUnitStart hdr then open_unit cur else [])"
proof -
  define s2 where "s2 = (if hasCC s \<and> c \<noteq> cc_step (es_cc s) then s\<lparr>es_buf := [], collecting := False\<rparr> else s)\<lparr>es_cc := c, hasCC := True\<rparr>"
  have ne: "hasCC s \<Longrightarrow> c \<noteq> es_cc s" "hasCC s \<Longrightarrow> c = cc_step (es_cc s) \<longleftrightarrow> g = 0"
    using assms(1) cc_jump[of "es_cc s" g] by (auto simp: in_step_def simp del: funpow.simps)
  have h: "handleES m hdr rai payload s = (if payloadUnitStart hdr then
        (fst (finish s2), startUnit rai payload (snd (finish s2)))
      else if \<not> collecting s2 then (None, s2)
      else if int (length (es_buf s2 @ payload)) > m then (None, s2\<lparr>es_buf := [], collecting := False\<rparr>)
      else (None, s2\<lparr>es_buf := es_buf s2 @ payload\<rparr>))"
    using ne(1) assms(2) unfolding handleES_def Let_def s2_def cc_step_def by (auto split: prod.splits)
  have s2: "cur = (if collecting s2 then Some (es_buf s2) else None)" "hasCC s2" "es_cc s2 = c"
    using assms(1) ne(2) by (auto simp: s2_def in_step_def simp del: funpow.simps split: if_splits)
  have inv: "c AND 0x0F = c" "\<And>b. cur = Some b \<Longrightarrow> b = d \<and> b \<noteq> []" using assms(1) by (auto simp: in_step_def)
  have buf: "es_buf s2 = d" "d \<noteq> []" if "collecting s2" using inv(2)[of "es_buf s2"] s2(1) that by auto
  show "in_step 0 (cc_step c) d' cur' s'"
  proof (cases "payloadUnitStart hdr")
    case True
    then have "s' = startUnit rai payload (snd (finish s2))" using assms(3) unfolding h by simp
    then show ?thesis using True startUnit_starts[where payload = payload and rai = rai and s = "snd (finish s2)"] assms(4) s2 inv(1)
      by (simp add: in_step_def cur'_def d'_def finish_open)
  next
    case False
    then show ?thesis using assms(3,5) s2 buf inv(1) unfolding h
      by (auto simp: in_step_def cur'_def d'_def split: if_splits)
  qed
  show "map au_Data (case au of None \<Rightarrow> [] | Some a \<Rightarrow> [a]) = (if payloadUnitStart hdr then open_unit cur else [])"
  proof (cases "payloadUnitStart hdr")
    case True
    then have "au = fst (finish s2)" using assms(3) unfolding h by simp
    then show ?thesis using finish_open(1)[of s2] True s2(1) buf by (simp add: open_unit_def)
  next
    case False
    then show ?thesis using assms(3) unfolding h by (auto split: if_splits)
  qed
qed

text \<open>The receiver returns exactly the units that survive.\<close>

lemma lossy_stream:
  assumes "well_sent m c d (map snd xs)" "gaps_ok g xs" "in_step g c d cur s" "es_run m (arrived xs) s = (aus, s')"
  shows "map au_Data (aus @ pending [s']) = intact_units cur xs"
  using assms
proof (induction xs arbitrary: g c d cur s aus)
  case Nil
  then have "cur = (if collecting s then Some (es_buf s) else None)" "collecting s \<Longrightarrow> es_buf s \<noteq> []" "aus = []" "s' = s"
    by (auto simp: arrived_def in_step_def)
  then show ?case using finish_open(1)[of s] by (simp add: open_unit_def pending_def split: option.splits)
next
  case (Cons x xs)
  obtain ok p where x: "x = (ok, p)" by fastforce
  obtain hdr rai payload where v: "pkt_view p = Some (hdr, rai, payload)" "continuityCounter hdr = c"
    using Cons.prems(1) by (auto simp: x split: option.splits)
  define d' where "d' = (if payloadUnitStart hdr then pes_body payload else d @ payload)"
  have ws: "well_sent m (cc_step c) d' (map snd xs)" "payloadUnitStart hdr \<Longrightarrow> starts_unit payload"
    "\<not> payloadUnitStart hdr \<Longrightarrow> int (length (d @ payload)) \<le> m"
    using Cons.prems(1) v by (simp_all add: x d'_def split: if_splits)
  show ?case
  proof (cases ok)
    case True
    obtain au s1 where h: "handleES m hdr rai payload s = (au, s1)" by fastforce
    obtain bus where b: "es_run m (arrived xs) s1 = (bus, s')" "aus = (case au of None \<Rightarrow> [] | Some a \<Rightarrow> [a]) @ bus"
      using Cons.prems(4) True v(1) h by (auto simp: arrived_def x es_step_def split: prod.splits option.splits)
    note st = step_arrived[OF Cons.prems(3) v(2) h ws(2,3), folded d'_def]
    have g: "gaps_ok 0 xs" using Cons.prems(2) True by (simp add: x)
    show ?thesis using Cons.IH[OF ws(1) g st(1) b(1)] st(2) True v(1) by (simp add: b(2) x)
  next
    case False
    have g: "g < 14" "gaps_ok (g + 1) xs" using Cons.prems(2) False by (simp_all add: x)
    have "in_step (g + 1) (cc_step c) d' None s" using Cons.prems(3) g(1) by (simp add: in_step_def)
    from Cons.IH[OF ws(1) g(2) this] show ?thesis
      using Cons.prems(4) False by (simp add: arrived_def x)
  qed
qed

section \<open>What the writer sends on one PID\<close>

text \<open>The packets that carry the rest of a unit, with any packets behind them.\<close>

lemma sent_continue:
  fixes rai wp :: bool and v :: u64
  assumes "pid < 0x2000" "counter AND 0x0F = counter" "int (length (d @ r)) \<le> m"
  defines "ps \<equiv> pes_packets pid rai wp v counter False r"
  shows "well_sent m counter d (ps @ rest) = well_sent m ((cc_step ^^ length ps) counter) (d @ r) rest \<and>
    sent_units (Some d) (ps @ rest) = sent_units (Some (d @ r)) rest"
  using assms(1-3) unfolding ps_def
proof (induction pid rai wp v counter "False" r arbitrary: d rule: pes_packets.induct)
  case (1 pid rai wp v counter r)
  show ?case
  proof (cases "r = []")
    case True
    then show ?thesis by (simp add: pes_packets.simps)
  next
    case False
    define af where "af = pes_adaptation rai wp v False"
    define n where "n = pes_chunk af r"
    have ps: "pes_packets pid rai wp v counter False r =
        pes_packet pid af counter False r # pes_packets pid rai wp v (cc_step counter) False (drop n r)"
      using False by (subst pes_packets.simps) (simp add: Let_def af_def n_def cc_step_def)
    obtain hdr where v: "pkt_view (pes_packet pid af counter False r) = Some (hdr, randomAccess af, take n r)"
      "\<not> payloadUnitStart hdr" "continuityCounter hdr = counter"
      using view_pes_packet(1)[of pid counter r af False] "1.prems" False by (auto simp: n_def)
    let ?ps = "pes_packets pid rai wp v (cc_step counter) False (drop n r)"
    have "well_sent m (cc_step counter) (d @ take n r) (?ps @ rest) =
        well_sent m ((cc_step ^^ length ?ps) (cc_step counter)) ((d @ take n r) @ drop n r) rest \<and>
      sent_units (Some (d @ take n r)) (?ps @ rest) = sent_units (Some ((d @ take n r) @ drop n r)) rest"
      using "1.hyps"[of af "d @ take n r"] "1.prems" False unfolding af_def[symmetric] n_def[symmetric] cc_step_def[of counter, symmetric]
      by (simp add: af_def)
    moreover have "int (length (d @ take n r)) \<le> m" using "1.prems"(3) by simp
    ultimately show ?thesis unfolding ps using v by (simp add: funpow_swap1)
  qed
qed

lemma sent_unit:
  fixes pts dts :: int and rai wp :: bool and v :: u64
  assumes "pid < 0x2000" "counter AND 0x0F = counter" "data \<noteq> []" "int (length data) \<le> m"
  defines "ps \<equiv> pes_packets pid rai wp v counter True (appendPESHeader [] streamIDVideo pts dts @ data)"
  shows "well_sent m counter d (ps @ rest) = well_sent m ((cc_step ^^ length ps) counter) data rest \<and>
    sent_units cur (ps @ rest) = open_unit cur @ sent_units (Some data) rest"
proof -
  define h where "h = appendPESHeader [] streamIDVideo pts dts"
  define af where "af = pes_adaptation rai wp v True"
  define n where "n = pes_chunk af (h @ data)"
  have lh: "length h \<le> 19" by (simp add: h_def length_appendPESHeader)
  have n: "length h < n" "n \<le> length (h @ data)"
    using pes_afTotal_props(6)[where af = af and rm = "length (h @ data)"] lh assms(3)
    by (auto simp: n_def pes_chunk_def encodedLen_def min_def length_greater_0_conv[symmetric] simp del: length_greater_0_conv)
  have tk: "take n (h @ data) = h @ take (n - length h) data" "drop n (h @ data) = drop (n - length h) data"
    using n by simp_all
  let ?ps = "pes_packets pid rai wp v (cc_step counter) False (drop (n - length h) data)"
  have ps: "ps = pes_packet pid af counter True (h @ data) # ?ps"
    unfolding ps_def tk(2)[symmetric] by (subst pes_packets.simps) (simp add: Let_def af_def n_def cc_step_def h_def)
  obtain hdr where v: "pkt_view (pes_packet pid af counter True (h @ data)) = Some (hdr, randomAccess af, h @ take (n - length h) data)"
      "payloadUnitStart hdr" "continuityCounter hdr = counter"
    using view_pes_packet(1)[of pid counter "h @ data" af True] assms(1-3) tk(1) by (auto simp: n_def)
  have "pes_body (h @ take (n - length h) data) = take (n - length h) data \<and> starts_unit (h @ take (n - length h) data)"
    unfolding pes_body_def starts_unit_def h_def parse_appendPESHeader Let_def using n(1) assms(3)
    by (auto simp: length_appendPESHeader h_def)
  then show ?thesis unfolding ps
    using v sent_continue[of pid "cc_step counter" "take (n - length h) data" "drop (n - length h) data" m rai wp v rest] assms(1,4)
    by (simp add: funpow_swap1)
qed

text \<open>The stream of a run: it is well sent, and its units are the data of the calls on the PID.\<close>

lemma sent_stream:
  assumes "writer_ok w" "tracks_ok w" "\<forall>c \<in> set cs. accepted w c" "byPID w p = Some t"
    and "\<forall>c \<in> set cs. int (length (call_data c)) \<le> m"
  shows "well_sent m (cc_of w p) d (filter (on_pid p) (run_packets w cs)) \<and>
    sent_units cur (filter (on_pid p) (run_packets w cs)) = open_unit cur @ map call_data (filter (\<lambda>c. call_pid c = p) cs)"
  using assms
proof (induction cs arbitrary: w cur d)
  case Nil
  then show ?case by simp
next
  case (Cons c cs)
  have acc: "accepted w c" using Cons.prems(3) by simp
  note ok = accepted_ok[OF Cons.prems(2) acc]
  obtain w1 where w1: "run_call c w = Some (None, w1)" "writer_ok w1" "same_config w w1"
     "\<And>q. q \<noteq> pidPAT \<Longrightarrow> q \<noteq> writerPMTPID \<Longrightarrow> cc_of w1 q =
        (if q = call_pid c then (cc_step ^^ length (call_packets w c)) (cc_of w (call_pid c)) else cc_of w q)"
    using run_call_ok[OF Cons.prems(1) ok(1)] by blast
  have conf: "tracks_ok w1" "\<forall>c \<in> set cs. accepted w1 c" "byPID w1 p = Some t" "\<forall>c \<in> set cs. int (length (call_data c)) \<le> m"
    using Cons.prems(2-5) same_config_accepted[OF w1(3)] w1(3) by (simp_all add: same_config_def)
  note pid = tracks_ok_pid[OF Cons.prems(2,4)]
  let ?rest = "filter (on_pid p) (run_packets w1 cs)"
  have fl: "filter (on_pid p) (run_packets w (c # cs)) = (if call_pid c = p then call_packets w c else []) @ ?rest"
    using w1(1) filter_call_packets[OF Cons.prems(1) ok(2)] filter_psi_packets[OF Cons.prems(1) pid(2,3)] by simp
  note IH = Cons.IH[OF w1(2) conf]
  show ?case
  proof (cases "call_pid c = p")
    case False
    then show ?thesis using IH w1(4)[OF pid(2,3)] unfolding fl by simp
  next
    case True
    have "well_sent m (cc_of w p) d (call_packets w c @ ?rest) =
        well_sent m ((cc_step ^^ length (call_packets w c)) (cc_of w p)) (call_data c) ?rest \<and>
      sent_units cur (call_packets w c @ ?rest) = open_unit cur @ sent_units (Some (call_data c)) ?rest"
      using sent_unit[of p "cc_of w p" "call_data c" m] True Cons.prems(1,5) pid(1) call_data_nonempty[of c] acc
      by (simp add: call_packets_def unit_packets_def writer_ok_def accepted_def)
    then show ?thesis using IH[of "call_data c" "Some (call_data c)"] True w1(4)[OF pid(2,3)] unfolding fl by (simp add: open_unit_def)
  qed
qed

section \<open>Multiplexing over a lossy channel\<close>


lemma lossy_units:
  assumes w: "writer_ok w" "tracks_ok w" "distinct (map track_PID (w_tracks w))"
      "\<And>p t. byPID w p = Some t \<longleftrightarrow> t \<in> set (w_tracks w) \<and> track_PID t = p"
    and cs: "\<forall>c \<in> set cs. accepted w c" "\<forall>c \<in> set cs. length (call_data c) \<le> defaultMaxAccessUnitSize"
    and r: "indexed r" "r_tracks r = w_tracks w" "maxAUSize r = int defaultMaxAccessUnitSize" "deliver (arrived xs) r = (aus, r')"
    and t: "t \<in> set (w_tracks w)" "track_PID t = p"
    and ps: "run_packets w cs = psi_packets w @ map snd xs" and gaps: "gaps_ok 0 (filter (on_pid p \<circ> snd) xs)"
  shows "map au_Data (filter (\<lambda>a. track_PID (au_Track a) = p) (aus @ pending (r_order r'))) =
      intact_units None (filter (on_pid p \<circ> snd) xs) \<and>
    subseq (intact_units None (filter (on_pid p \<circ> snd) xs)) (map call_data (filter (\<lambda>c. call_pid c = p) cs))"
proof -
  let ?ys = "filter (on_pid p \<circ> snd) xs"
  obtain i where i: "i < length (w_tracks w)" "w_tracks w ! i = t" using t(1) by (auto simp: in_set_conv_nth)
  have ix: "r_order r = map new_esStream (w_tracks w)" "r_streams r p = Some i"
    using r(1) i t(2) unfolding indexed_def r(2) by blast+
  have sok: "streams_ok r" using r(1) by (rule indexed_streams_ok)
  have tr: "map es_track (r_order r') = w_tracks w" using deliver_streams[OF sok r(4)] ix(1) by (simp add: new_esStream_def comp_def)
  then have len: "length (r_order r') = length (w_tracks w)" by (metis length_map)
  have bp: "byPID w p = Some t" using w(4) t by simp
  note pid = tracks_ok_pid[OF w(2) bp]
  have sent: "filter (on_pid p) (run_packets w cs) = map snd ?ys"
    using filter_psi_packets[OF w(1) pid(2,3)] by (simp add: ps filter_map)
  have arr: "filter (on_pid p) (arrived xs) = arrived ?ys" by (simp add: arrived_def filter_map conj_commute)
  have run: "es_run (int defaultMaxAccessUnitSize) (arrived ?ys) (new_esStream t) =
      (filter (\<lambda>a. track_PID (au_Track a) = p) aus, r_order r' ! i)"
    using deliver_project[OF sok ix(2) r(4)] ix(1) i r(3) by (simp add: arr)
  have sz: "\<forall>c \<in> set cs. int (length (call_data c)) \<le> int defaultMaxAccessUnitSize" using cs(2) by simp
  note wr = sent_stream[OF w(1,2) cs(1) bp sz, of "[]" None, unfolded sent]
  have "in_step 0 (cc_of w p) [] None (new_esStream t)"
    using w(1) by (simp add: in_step_def new_esStream_def writer_ok_def)
  from lossy_stream[OF conjunct1[OF wr] gaps this run]
  have eq: "map au_Data (filter (\<lambda>a. track_PID (au_Track a) = p) aus @ pending [r_order r' ! i]) = intact_units None ?ys" .
  have sub: "subseq (intact_units None ?ys) (map call_data (filter (\<lambda>c. call_pid c = p) cs))"
    using intact_subseq[of None None ?ys] wr by (simp add: open_unit_def)
  have "filter (\<lambda>a. track_PID (au_Track a) = p) (pending (r_order r')) = pending [r_order r' ! i]"
  proof (rule pending_filter)
    show "distinct (map (track_PID \<circ> es_track) (r_order r'))" using w(3) unfolding tr[symmetric] by simp
    show "track_PID (es_track (r_order r' ! i)) = p" using tr i len t(2) by (metis nth_map)
  qed (use i len in simp)
  then show ?thesis using eq sub by simp
qed

text \<open>
  C2: Losing packets between the muxer and the demuxer loses access units but never damages one.
  Every packet behind the tables may be lost on its own (\<open>xs\<close> flags the ones that arrive), at most
  fourteen of a track in a row and never its last. Then the demuxer opens the stream with the
  writer's tracks and reads until \<open>io.EOF\<close> without an error. What it returns for a track is exactly
  the units all of whose packets arrived together with the packet of the track behind them, and
  these are a subsequence of the data written on the track: every unit is whole, none is put
  together from two, none comes twice and none out of order.
\<close>

theorem lossy_mux_demux:
  assumes new: "NewTsWriter dst (track_options specs) = Inr w" "healthy dst" "content dst = []"
    and specs: "\<forall>(c, p) \<in> set specs. c \<noteq> CodecUnknown"
    and cs: "cs \<noteq> []" "\<forall>c \<in> set cs. accepted w c" "\<forall>c \<in> set cs. length (call_data c) \<le> defaultMaxAccessUnitSize"
    and xs: "run_packets w cs = psi_packets w @ map snd xs"
    and gaps: "\<forall>t \<in> set (w_tracks w). gaps_ok 0 (filter (on_pid (track_PID t) \<circ> snd) xs)"
  shows "\<exists>w' r aus r'. run_calls cs w = Some (None, w') \<and>
    content (w_dst w') = concat (psi_packets w) @ concat (map snd xs) \<and>
    NewReader \<lparr>st_data = concat (psi_packets w) @ concat (arrived xs), st_end = None\<rparr> [] = Some (Inr r) \<and> Tracks r = w_tracks w \<and>
    reads NextAccessUnit r aus r' \<and> fst (NextAccessUnit r') = Inl EOF \<and> (\<forall>a \<in> set aus. au_Track a \<in> set (w_tracks w)) \<and>
    (\<forall>t \<in> set (w_tracks w).
      map au_Data (filter (\<lambda>a. track_PID (au_Track a) = track_PID t) aus) =
        intact_units None (filter (on_pid (track_PID t) \<circ> snd) xs) \<and>
      subseq (intact_units None (filter (on_pid (track_PID t) \<circ> snd) xs)) (map call_data (filter (\<lambda>c. call_pid c = track_PID t) cs)))"
proof -
  note w = NewTsWriter_ok[OF new(1,2)]
  have tok: "tracks_ok w" "distinct (map track_PID (w_tracks w))"
    "\<And>p t. byPID w p = Some t \<longleftrightarrow> t \<in> set (w_tracks w) \<and> track_PID t = p"
    using w(2) unfolding registered_def by blast+
  obtain w' where w': "run_calls cs w = Some (None, w')" "\<forall>p \<in> set (map snd xs). length p = packetSize"
      "content (w_dst w') = concat (psi_packets w) @ concat (map snd xs)"
    using run_written[OF new cs(1,2)] xs by auto
  obtain r where new_r: "NewReader \<lparr>st_data = concat (psi_packets w) @ concat (arrived xs), st_end = None\<rparr> [] = Some (Inr r)"
    and r: "indexed r" "r_tracks r = w_tracks w" "r_src r = \<lparr>st_data = concat (arrived xs), st_end = None\<rparr>" "\<not> r_eof r"
      "flushIdx r = 0" "maxAUSize r = int defaultMaxAccessUnitSize"
    using opens_tables[OF new(1,2) specs] by blast
  have len: "\<forall>p \<in> set (arrived xs). length p = packetSize" using w'(2) by (auto simp: arrived_def)
  obtain aus r' where dl: "deliver (arrived xs) r = (aus, r')" by fastforce
  have sok: "streams_ok r" using r(1) by (rule indexed_streams_ok)
  obtain r2 where r2: "reads NextAccessUnit r (aus @ pending (r_order r')) r2" "fst (NextAccessUnit r2) = Inl EOF"
    using reads_whole[OF r(4,3) len sok r(5) dl] by blast
  note units = lossy_units[OF w(1) tok cs(2,3) r(1,2,6) dl _ refl xs bspec[OF gaps]]
  have "map es_track (r_order r) = w_tracks w" using r(1,2) unfolding indexed_def by (simp add: new_esStream_def comp_def)
  then have "\<forall>a \<in> set (aus @ pending (r_order r')). au_Track a \<in> set (w_tracks w)" using units_tracks[OF sok dl] by simp
  then show ?thesis using w' new_r r(2) r2 units unfolding Tracks_def by blast
qed

lemma length_sent_units: "length (sent_units cur ps) \<le> length (open_unit cur) + length ps"
proof (induction ps arbitrary: cur)
  case (Cons p ps)
  have "length (open_unit (map_option f cur)) = length (open_unit cur)" for f by (simp add: open_unit_def split: option.splits)
  then show ?case using Cons.IH[of cur] Cons.IH[of "Some d" for d] Cons.IH[of "map_option f cur" for f]
    by (fastforce simp: open_unit_def intro: le_SucI split: option.splits)
qed simp

lemma gaps_all: "gaps_ok g (map (Pair True) ps) \<longleftrightarrow> g = 0 \<or> ps \<noteq> []"
  by (induction ps arbitrary: g) auto

text \<open>The first packet behind the tables is lost: every track that has another one is fine.\<close>

lemma gaps_first:
  assumes "2 \<le> length (filter P (p # ps))"
  shows "gaps_ok 0 (filter (P \<circ> snd) ((False, p) # map (Pair True) ps))"
proof -
  have f: "filter (P \<circ> snd) (map (Pair True) ps) = map (Pair True) (filter P ps)"
    by (induction ps) auto
  have "P p \<Longrightarrow> filter P ps \<noteq> []" using assms by auto
  then show ?thesis by (simp add: f gaps_all)
qed

theorem lossy_mux_demux_witness:
  "\<exists>w xs w' r aus r'. NewTsWriter witness_sink (track_options [(CodecH264, 256), (CodecH265, 257)]) = Inr w \<and>
    run_calls (witness_calls @ witness_calls) w = Some (None, w') \<and>
    content (w_dst w') = concat (psi_packets w) @ concat (map snd xs) \<and> False \<in> fst ` set xs \<and>
    NewReader \<lparr>st_data = concat (psi_packets w) @ concat (arrived xs), st_end = None\<rparr> [] = Some (Inr r) \<and> Tracks r = w_tracks w \<and>
    reads NextAccessUnit r aus r' \<and> fst (NextAccessUnit r') = Inl EOF \<and>
    (\<forall>t \<in> set (w_tracks w). subseq (map au_Data (filter (\<lambda>a. track_PID (au_Track a) = track_PID t) aus))
        (map call_data (filter (\<lambda>c. call_pid c = track_PID t) (witness_calls @ witness_calls))))"
proof -
  let ?cs = "witness_calls @ witness_calls"
  obtain w where w: "NewTsWriter witness_sink (track_options [(CodecH264, 256), (CodecH265, 257)]) = Inr w"
    and acc: "\<forall>c \<in> set ?cs. accepted w c" using witness_writer by auto
  note ok = NewTsWriter_ok[OF w witness_sink_healthy(1)]
  have tok: "tracks_ok w" "\<And>p t. byPID w p = Some t \<longleftrightarrow> t \<in> set (w_tracks w) \<and> track_PID t = p"
    using ok(2) unfolding registered_def by blast+
  have size: "\<forall>c \<in> set ?cs. length (call_data c) \<le> defaultMaxAccessUnitSize"
    by (simp add: witness_calls_def audH264_def audH265_def defaultMaxAccessUnitSize_def)
  have cs: "?cs \<noteq> []" and sp: "\<forall>(c, p) \<in> set [(CodecH264, 256 :: u16), (CodecH265, 257)]. c \<noteq> CodecUnknown"
    by (simp_all add: witness_calls_def)
  obtain ps where ps: "run_packets w ?cs = psi_packets w @ ps"
    using run_written[OF w witness_sink_healthy cs acc] by blast
  have two: "2 \<le> length (filter (on_pid (track_PID t)) ps)" if t: "t \<in> set (w_tracks w)" for t
  proof -
    have bp: "byPID w (track_PID t) = Some t" using tok(2) t by blast
    have "track_PID t = 256 \<or> track_PID t = 257" using t unfolding ok(3) by auto
    then have "2 \<le> length (map call_data (filter (\<lambda>c. call_pid c = track_PID t) ?cs))" by (auto simp: witness_calls_def)
    moreover have sz: "\<forall>c \<in> set ?cs. int (length (call_data c)) \<le> int defaultMaxAccessUnitSize" using size by simp
    ultimately have "2 \<le> length (sent_units None (filter (on_pid (track_PID t)) (run_packets w ?cs)))"
      using sent_stream[OF ok(1) tok(1) acc bp sz, of "[]" None] by (simp add: open_unit_def)
    moreover have "filter (on_pid (track_PID t)) (psi_packets w) = []"
      using filter_psi_packets[OF ok(1)] tracks_ok_pid[OF tok(1) bp] by blast
    ultimately show ?thesis
      using length_sent_units[of None "filter (on_pid (track_PID t)) (run_packets w ?cs)"] by (simp add: ps open_unit_def)
  qed
  have "ps \<noteq> []" using two[OF hd_in_set[OF ok(4)]] by auto
  then obtain p qs where p: "ps = p # qs" by (cases ps) simp_all
  define xs where "xs = (False, p) # map (Pair True) qs"
  have "map snd xs = ps" by (simp add: xs_def p comp_def)
  then have xs: "run_packets w ?cs = psi_packets w @ map snd xs" using ps by simp
  have gaps: "\<forall>t \<in> set (w_tracks w). gaps_ok 0 (filter (on_pid (track_PID t) \<circ> snd) xs)"
    unfolding xs_def by (intro ballI gaps_first two[unfolded p])
  have lost: "False \<in> fst ` set xs" by (simp add: xs_def)
  obtain w' r aus r' where m: "run_calls ?cs w = Some (None, w')" "content (w_dst w') = concat (psi_packets w) @ concat (map snd xs)"
    "NewReader \<lparr>st_data = concat (psi_packets w) @ concat (arrived xs), st_end = None\<rparr> [] = Some (Inr r)" "Tracks r = w_tracks w"
    "reads NextAccessUnit r aus r'" "fst (NextAccessUnit r') = Inl EOF"
    and sub: "\<forall>t \<in> set (w_tracks w).
      map au_Data (filter (\<lambda>a. track_PID (au_Track a) = track_PID t) aus) =
        intact_units None (filter (on_pid (track_PID t) \<circ> snd) xs) \<and>
      subseq (intact_units None (filter (on_pid (track_PID t) \<circ> snd) xs)) (map call_data (filter (\<lambda>c. call_pid c = track_PID t) ?cs))"
    using lossy_mux_demux[OF w witness_sink_healthy sp cs acc size xs gaps] by blast
  have "\<forall>t \<in> set (w_tracks w). subseq (map au_Data (filter (\<lambda>a. track_PID (au_Track a) = track_PID t) aus))
      (map call_data (filter (\<lambda>c. call_pid c = track_PID t) ?cs))" using sub by simp
  then show ?thesis using w m lost by blast
qed

end
