(* ===== verification/TsConform.thy ===== *)
theory TsConform
  imports TsLoss
begin

text \<open>
  What the multiplexer promises to every receiver, not only to the demultiplexer of this module: a
  stream of well-formed packets whose continuity counters count, and clock references that follow the
  decode times of the first track.
\<close>

section \<open>Packets and counters\<close>

definition ts_packet :: "u16 list \<Rightarrow> bytes \<Rightarrow> bool" where
  "ts_packet pids p \<longleftrightarrow> length p = packetSize \<and>
     (case pkt_view p of None \<Rightarrow> False | Some (hdr, _) \<Rightarrow> hdr_pid hdr \<in> set pids)"

definition pkt_counter :: "bytes \<Rightarrow> u8" where
  "pkt_counter p = (case pkt_view p of None \<Rightarrow> 0 | Some (hdr, _) \<Rightarrow> continuityCounter hdr)"

definition counters :: "u8 \<Rightarrow> nat \<Rightarrow> u8 list" where
  "counters c n = map (\<lambda>i. (cc_step ^^ i) c) [0..<n]"

lemma counters_0 [simp]: "counters c 0 = []"
  by (simp add: counters_def)

lemma counters_add: "counters c (m + n) = counters c m @ counters ((cc_step ^^ m) c) n"
  by (intro nth_equalityI) (auto simp: counters_def nth_append funpow_add[symmetric, THEN fun_cong, unfolded comp_def])

lemma counters_Suc: "counters c (Suc n) = c # counters (cc_step c) n"
  using counters_add[of c 1 n] by (simp add: counters_def)

lemma counters_zero: "counters 0 n = map (\<lambda>i. of_nat (i mod 16)) [0..<n]"
  by (auto simp: counters_def word_unat_eq_iff unat_cc_steps unat_of_nat)

lemma on_pid_ts_packet: "on_pid q p \<Longrightarrow> q \<in> set pids \<Longrightarrow> length p = packetSize \<Longrightarrow> ts_packet pids p"
  by (auto simp: ts_packet_def on_pid_def split: option.splits)

lemma pes_packets_counters:
  assumes "pid < 0x2000" "counter AND 0x0F = counter" "first \<Longrightarrow> r \<noteq> []"
  shows "map pkt_counter (pes_packets pid rai wp v counter first r) = counters counter (length (pes_packets pid rai wp v counter first r))"
  using assms
proof (induction pid rai wp v counter first r rule: pes_packets.induct)
  case (1 pid rai wp v counter first r)
  show ?case
  proof (cases "r = []")
    case True
    then have "\<not> first" using "1.prems"(3) by blast
    then show ?thesis using True by (simp add: pes_packets.simps)
  next
    case False
    define af where "af = pes_adaptation rai wp v first"
    have ps: "pes_packets pid rai wp v counter first r = pes_packet pid af counter first r
        # pes_packets pid rai wp v (cc_step counter) False (drop (pes_chunk af r) r)"
      using False by (subst pes_packets.simps) (simp add: Let_def af_def cc_step_def)
    have "pkt_counter (pes_packet pid af counter first r) = counter"
      using view_pes_packet(1)[OF "1.prems"(1,2) False, of af first] by (auto simp: pkt_counter_def)
    then show ?thesis using "1.IH"[OF _ af_def] False "1.prems"(1)
      by (simp add: ps counters_Suc cc_step_def[symmetric])
  qed
qed

lemma psi_packet_on_pid:
  assumes "counter AND 0x0F = counter" "pid < 0x2000" "sec \<noteq> []"
  shows "on_pid q (psi_packet pid counter sec) \<longleftrightarrow> q = pid" "pkt_counter (psi_packet pid counter sec) = counter"
  using psi_packet_view[OF assms] by (auto simp: on_pid_def pkt_counter_def pkt_view_def new_header_def)

lemma filter_tables:
  assumes "writer_ok w" "patRaw w \<noteq> []" "pmtRaw w \<noteq> []"
  shows "filter (on_pid pidPAT) (psi_packets w) = [psi_packet pidPAT (cc_of w pidPAT) (patRaw w)]"
    "filter (on_pid writerPMTPID) (psi_packets w) = [psi_packet writerPMTPID (cc_of w writerPMTPID) (pmtRaw w)]"
    "map pkt_counter (psi_packets w) = [cc_of w pidPAT, cc_of w writerPMTPID]"
proof -
  have "pidPAT < (0x2000 :: u16)" "writerPMTPID < (0x2000 :: u16)" "pidPAT \<noteq> writerPMTPID" by (simp_all add: pidPAT_def writerPMTPID_def)
  moreover have "\<And>q. cc_of w q AND 0x0F = cc_of w q" using assms(1) by (simp add: writer_ok_def)
  ultimately show "filter (on_pid pidPAT) (psi_packets w) = [psi_packet pidPAT (cc_of w pidPAT) (patRaw w)]"
    "filter (on_pid writerPMTPID) (psi_packets w) = [psi_packet writerPMTPID (cc_of w writerPMTPID) (pmtRaw w)]"
    "map pkt_counter (psi_packets w) = [cc_of w pidPAT, cc_of w writerPMTPID]"
    using assms(2,3) by (simp_all add: psi_packets_def psi_packet_on_pid)
qed

text \<open>One call: its packets are well formed, and on every PID they take the counters up from where they were.\<close>

abbreviation step_packets :: "ts_writer \<Rightarrow> au_call \<Rightarrow> bytes list" where
  "step_packets w c \<equiv> (if psi_due (call_dts c) w then psi_packets w else []) @ call_packets w c"

lemma call_bytes_nonempty: "appendPESHeader [] streamIDVideo pts dts @ d \<noteq> []"
  by (simp add: appendPESHeader_eq Let_def)

lemma call_packets_conform:
  assumes "writer_ok w" "call_pid c < 0x2000"
  shows "map pkt_counter (call_packets w c) = counters (cc_of w (call_pid c)) (length (call_packets w c))"
    "p \<in> set (call_packets w c) \<Longrightarrow> on_pid (call_pid c) p"
proof -
  have m: "cc_of w (call_pid c) AND 0x0F = cc_of w (call_pid c)" using assms(1) by (simp add: writer_ok_def)
  show "map pkt_counter (call_packets w c) = counters (cc_of w (call_pid c)) (length (call_packets w c))"
    unfolding call_packets_def unit_packets_def by (rule pes_packets_counters[OF assms(2) m call_bytes_nonempty])
  show "p \<in> set (call_packets w c) \<Longrightarrow> on_pid (call_pid c) p"
    using on_pid_pes_packets[OF _ call_bytes_nonempty assms(2) m] unfolding call_packets_def unit_packets_def by blast
qed

lemma step_counters:
  fixes q :: u16
  assumes "writer_ok w" "patRaw w \<noteq> []" "pmtRaw w \<noteq> []" "tracks_ok w" "accepted w c" "run_call c w = Some (None, w1)"
  defines "xs \<equiv> filter (on_pid q) (step_packets w c)"
  shows "map pkt_counter xs = counters (cc_of w q) (length xs)" "cc_of w1 q = (cc_step ^^ length xs) (cc_of w q)"
proof -
  note ok = accepted_ok[OF assms(4,5)]
  obtain w2 where w2: "run_call c w = Some (None, w2)"
    "\<And>q. q \<noteq> pidPAT \<Longrightarrow> q \<noteq> writerPMTPID \<Longrightarrow> cc_of w2 q =
        (if q = call_pid c then (cc_step ^^ length (call_packets w c)) (cc_of w (call_pid c)) else cc_of w q)"
    "\<And>q. q = pidPAT \<or> q = writerPMTPID \<Longrightarrow> cc_of w2 q = (if psi_due (call_dts c) w then cc_step (cc_of w q) else cc_of w q)"
    using run_call_ok[OF assms(1) ok(1)] by blast
  have w1: "w1 = w2" using w2(1) assms(6) by simp
  have ne: "call_pid c \<noteq> pidPAT" "call_pid c \<noteq> writerPMTPID" using ok(1) by (simp_all add: call_ok_def)
  note fc = filter_call_packets[OF assms(1) ok(2), of q] and ft = filter_tables[OF assms(1-3)]
  have "map pkt_counter xs = counters (cc_of w q) (length xs) \<and> cc_of w1 q = (cc_step ^^ length xs) (cc_of w q)"
  proof (cases "q = pidPAT \<or> q = writerPMTPID")
    case True
    then have "xs = (if psi_due (call_dts c) w then filter (on_pid q) (psi_packets w) else [])" using fc ne by (auto simp: xs_def)
    then show ?thesis using True ft w2(3)[OF True] by (auto simp: w1 counters_Suc psi_packets_def)
  next
    case False
    then have "xs = (if call_pid c = q then call_packets w c else [])" using fc filter_psi_packets[OF assms(1)] by (simp add: xs_def)
    then show ?thesis using w2(2)[of q] False call_packets_conform(1)[OF assms(1) ok(2)] by (auto simp: w1)
  qed
  then show "map pkt_counter xs = counters (cc_of w q) (length xs)" "cc_of w1 q = (cc_step ^^ length xs) (cc_of w q)" by auto
qed

text \<open>A run of calls.\<close>

lemma run_counters:
  assumes "writer_ok w" "patRaw w \<noteq> []" "pmtRaw w \<noteq> []" "tracks_ok w" "\<forall>c \<in> set cs. accepted w c"
  shows "map pkt_counter (filter (on_pid q) (run_packets w cs)) = counters (cc_of w q) (length (filter (on_pid q) (run_packets w cs)))"
  using assms
proof (induction cs arbitrary: w)
  case (Cons c cs)
  have ok: "accepted w c" using Cons.prems(5) by simp
  obtain w1 where w1: "run_call c w = Some (None, w1)" "writer_ok w1" "same_config w w1"
    using run_call_ok[OF Cons.prems(1) accepted_ok(1)[OF Cons.prems(4) ok]] by blast
  have cfg: "patRaw w1 \<noteq> []" "pmtRaw w1 \<noteq> []" "tracks_ok w1" "\<forall>c \<in> set cs. accepted w1 c"
    using Cons.prems same_config_accepted[OF w1(3)] w1(3) by (simp_all add: same_config_def)
  have "run_packets w (c # cs) = step_packets w c @ run_packets w1 cs" using w1(1) by simp
  then show ?case
    using step_counters[OF Cons.prems(1-4) ok w1(1), of q] Cons.IH[OF w1(2) cfg]
    by (simp only: filter_append map_append length_append counters_add)
qed simp

lemma run_pids:
  assumes "writer_ok w" "patRaw w \<noteq> []" "pmtRaw w \<noteq> []" "tracks_ok w" "\<forall>c \<in> set cs. accepted w c" "p \<in> set (run_packets w cs)"
  shows "\<exists>q. on_pid q p \<and> (q = pidPAT \<or> q = writerPMTPID \<or> (\<exists>c \<in> set cs. q = call_pid c))"
  using assms
proof (induction cs arbitrary: w)
  case (Cons c cs)
  have ok: "accepted w c" using Cons.prems(5) by simp
  obtain w1 where w1: "run_call c w = Some (None, w1)" "writer_ok w1" "same_config w w1"
    using run_call_ok[OF Cons.prems(1) accepted_ok(1)[OF Cons.prems(4) ok]] by blast
  have cfg: "patRaw w1 \<noteq> []" "pmtRaw w1 \<noteq> []" "tracks_ok w1" "\<forall>c \<in> set cs. accepted w1 c"
    using Cons.prems same_config_accepted[OF w1(3)] w1(3) by (simp_all add: same_config_def)
  consider "p \<in> set (psi_packets w)" | "p \<in> set (call_packets w c)" | "p \<in> set (run_packets w1 cs)"
    using Cons.prems(6) w1(1) by (auto split: if_splits)
  then show ?case
  proof cases
    case 1
    then show ?thesis using filter_tables(1,2)[OF Cons.prems(1-3)]
      by (simp only: psi_packets_def list.set insert_iff empty_iff) (metis list.set_intros(1) mem_Collect_eq set_filter)
  next
    case 2
    then show ?thesis using call_packets_conform(2)[OF Cons.prems(1) accepted_ok(2)[OF Cons.prems(4) ok]] by auto
  next
    case 3
    then show ?thesis using Cons.IH[OF w1(2) cfg 3] by auto
  qed
qed simp

section \<open>Clock references\<close>

lemma map_filter_append: "List.map_filter f (xs @ ys) = List.map_filter f xs @ List.map_filter f ys"
  by (simp add: List.map_filter_def)

lemma pes_packets_pcr:
  assumes "pid < 0x2000" "counter AND 0x0F = counter" "first \<Longrightarrow> r \<noteq> []"
  shows "List.map_filter pkt_pcr (pes_packets pid rai wp v counter first r) = (if wp \<and> first then [wire_pcr v] else [])"
  using assms
proof (induction pid rai wp v counter first r rule: pes_packets.induct)
  case (1 pid rai wp v counter first r)
  show ?case
  proof (cases "r = []")
    case True
    then have "\<not> first" using "1.prems"(3) by blast
    then show ?thesis using True by (simp add: pes_packets.simps)
  next
    case False
    define af where "af = pes_adaptation rai wp v first"
    have ps: "pes_packets pid rai wp v counter first r = pes_packet pid af counter first r
        # pes_packets pid rai wp v (cc_step counter) False (drop (pes_chunk af r) r)"
      using False by (subst pes_packets.simps) (simp add: Let_def af_def cc_step_def)
    have "pkt_pcr (pes_packet pid af counter first r) = (if wp \<and> first then Some (wire_pcr v) else None)"
      using view_pes_packet(2)[OF "1.prems"(1,2) False, of af first] by (simp add: af_def pes_adaptation_def)
    then show ?thesis using "1.IH"[OF _ af_def] False "1.prems"(1)
      by (auto simp: ps cc_step_def[symmetric])
  qed
qed

lemma psi_packets_pcr:
  assumes "writer_ok w" "patRaw w \<noteq> []" "pmtRaw w \<noteq> []"
  shows "List.map_filter pkt_pcr (psi_packets w) = []"
proof -
  have "pkt_pcr (psi_packet q (cc_of w q) sec) = None" if "q < 0x2000" "sec \<noteq> []" for q sec
    using psi_packet_view[OF _ that, of "cc_of w q"] assms(1) by (simp add: pkt_pcr_def writer_ok_def no_adaptation_def)
  then show ?thesis using assms(2,3) by (simp add: psi_packets_def pidPAT_def writerPMTPID_def)
qed

text \<open>The value on the wire: 300 ticks of the system clock for each of the 33 bits of the base.\<close>

definition clock_of :: "int \<Rightarrow> int" where
  "clock_of dts = max (dts - 63000) 0 mod 2 ^ 33 * 300"

lemma wire_pcr_base:
  assumes "0 \<le> x" "x < 2 ^ 55"
  shows "uint (wire_pcr (word_of_int x * 300)) = x mod 2 ^ 33 * 300"
proof -
  have u: "uint (word_of_int y * 300 :: u64) = y * 300" if "0 \<le> y" "y < 2 ^ 55" for y
    using that by (simp add: uint_word_ariths uint_word_of_int take_bit_int_eq_self)
  have "(word_of_int x * 300 :: u64) div 300 = word_of_int x" "(word_of_int x * 300 :: u64) mod 300 = 0"
    using u[OF assms] assms by (simp_all add: word_uint_eq_iff uint_div_distrib uint_mod_distrib uint_word_of_int)
  then have "wire_pcr (word_of_int x * 300) = word_of_int (x mod 2 ^ 33) * 300"
    by (simp add: wire_pcr_def take_bit_of_int) (simp add: take_bit_eq_mod)
  moreover have "x mod 2 ^ 33 < 2 ^ 55" using pos_mod_bound[of "2 ^ 33" x] by simp
  ultimately show ?thesis using u[of "x mod 2 ^ 33"] by simp
qed

lemma call_packets_pcr:
  assumes "writer_ok w" "call_pid c < 0x2000" "- (2 ^ 62) \<le> call_dts c" "call_dts c < 2 ^ 55"
  shows "map uint (List.map_filter pkt_pcr (call_packets w c)) = (if call_pid c = w_pcrPID w then [clock_of (call_dts c)] else [])"
proof -
  have m: "cc_of w (call_pid c) AND 0x0F = cc_of w (call_pid c)" using assms(1) by (simp add: writer_ok_def)
  have "i64 (call_dts c - 63000) = call_dts c - 63000" using assms(3,4) by simp
  moreover have "0 \<le> max (call_dts c - 63000) 0" "max (call_dts c - 63000) 0 < 2 ^ 55" using assms(4) by simp_all
  ultimately show ?thesis
    unfolding call_packets_def unit_packets_def pes_packets_pcr[OF assms(2) m call_bytes_nonempty]
    using wire_pcr_base[of "max (call_dts c - 63000) 0"] by (simp add: pcr_value_def pcrDelayTicks_def clock_of_def)
qed

lemma run_clock:
  assumes "writer_ok w" "patRaw w \<noteq> []" "pmtRaw w \<noteq> []" "tracks_ok w" "\<forall>c \<in> set cs. accepted w c"
    and "\<forall>c \<in> set cs. - (2 ^ 62) \<le> call_dts c \<and> call_dts c < 2 ^ 55"
  shows "map uint (List.map_filter pkt_pcr (run_packets w cs)) = map (\<lambda>c. clock_of (call_dts c)) (filter (\<lambda>c. call_pid c = w_pcrPID w) cs)"
  using assms
proof (induction cs arbitrary: w)
  case (Cons c cs)
  have ok: "accepted w c" using Cons.prems(5) by simp
  obtain w1 where w1: "run_call c w = Some (None, w1)" "writer_ok w1" "same_config w w1"
    using run_call_ok[OF Cons.prems(1) accepted_ok(1)[OF Cons.prems(4) ok]] by blast
  have cfg: "patRaw w1 \<noteq> []" "pmtRaw w1 \<noteq> []" "tracks_ok w1" "\<forall>c \<in> set cs. accepted w1 c" "w_pcrPID w1 = w_pcrPID w"
    using Cons.prems same_config_accepted[OF w1(3)] w1(3) by (simp_all add: same_config_def)
  have dts: "- (2 ^ 62) \<le> call_dts c" "call_dts c < 2 ^ 55" "\<forall>c \<in> set cs. - (2 ^ 62) \<le> call_dts c \<and> call_dts c < 2 ^ 55"
    using Cons.prems(6) by simp_all
  have "run_packets w (c # cs) = (if psi_due (call_dts c) w then psi_packets w else []) @ call_packets w c @ run_packets w1 cs"
    using w1(1) by simp
  then show ?case
    using call_packets_pcr[OF Cons.prems(1) accepted_ok(2)[OF Cons.prems(4) ok] dts(1,2)] Cons.IH[OF w1(2) cfg(1-4) dts(3)]
      psi_packets_pcr[OF Cons.prems(1-3)]
    by (simp add: map_filter_append cfg(5) del: run_packets.simps)
qed (simp add: List.map_filter_def)

section \<open>Conformance\<close>

text \<open>
  C3: The multiplexer writes conformant transport packets. Whatever tracks a writer was created with and
  whatever sequence of access units it accepts, its output is a sequence of packets of 188 bytes that
  parse without an error indicator, unscrambled and with a payload, on the PIDs of the association
  table, the map table and the tracks only; the tables come first, and on every single PID the
  continuity counters are 0, 1, ..., 15, 0, 1, ... without a gap. For decode times of the magnitude that fits the 64 bits of the
  computation (above \<open>-2^62\<close>, below \<open>2^55\<close>), the clock references in the stream are, in order, one for each
  access unit of the first track: its decode time less 700 ms, not below zero, modulo the 33 bits of the field, in units of 27 MHz.
\<close>

theorem ts_conformant:
  assumes "NewTsWriter dst (track_options specs) = Inr w" "healthy dst" "content dst = []"
    and "cs \<noteq> []" "\<forall>c \<in> set cs. accepted w c"
  shows "\<exists>w' ps. run_calls cs w = Some (None, w') \<and> content (w_dst w') = concat ps \<and> take 2 ps = psi_packets w \<and>
    (\<forall>p \<in> set ps. ts_packet (pidPAT # writerPMTPID # map track_PID (w_tracks w)) p) \<and>
    (\<forall>q. map pkt_counter (filter (on_pid q) ps) = map (\<lambda>i. of_nat (i mod 16)) [0..<length (filter (on_pid q) ps)]) \<and>
    ((\<forall>c \<in> set cs. - (2 ^ 62) \<le> call_dts c \<and> call_dts c < 2 ^ 55) \<longrightarrow>
      map uint (List.map_filter pkt_pcr ps) = map (\<lambda>c. clock_of (call_dts c)) (filter (\<lambda>c. call_pid c = track_PID (hd (w_tracks w))) cs))"
proof -
  note w = NewTsWriter_ok[OF assms(1,2)]
  have tok: "tracks_ok w" "\<And>p t. byPID w p = Some t \<longleftrightarrow> t \<in> set (w_tracks w) \<and> track_PID t = p"
    using w(2) unfolding registered_def by blast+
  have raw: "patRaw w \<noteq> []" "pmtRaw w \<noteq> []" unfolding w(8,9) by simp_all
  obtain w' ps where w': "run_calls cs w = Some (None, w')" "run_packets w cs = psi_packets w @ ps"
    "content (w_dst w') = concat (run_packets w cs)"
    using run_written[OF assms] by auto
  have len: "\<forall>p \<in> set (run_packets w cs). length p = packetSize" using run_calls_ok[OF w(1) tok(1) assms(5)] by blast
  have pid: "call_pid c \<in> set (map track_PID (w_tracks w))" if "c \<in> set cs" for c
  proof -
    have "accepted w c" using assms(5) that by blast
    then obtain t where "byPID w (call_pid c) = Some t" by (auto simp: accepted_def split: option.splits)
    then have "t \<in> set (w_tracks w)" "track_PID t = call_pid c" using tok(2) by blast+
    then show ?thesis by (metis imageI list.set_map)
  qed
  have "ts_packet (pidPAT # writerPMTPID # map track_PID (w_tracks w)) p" if p: "p \<in> set (run_packets w cs)" for p
  proof -
    obtain q where q: "on_pid q p" "q = pidPAT \<or> q = writerPMTPID \<or> (\<exists>c \<in> set cs. q = call_pid c)"
      using run_pids[OF w(1) raw tok(1) assms(5) p] by blast
    then have "q \<in> set (pidPAT # writerPMTPID # map track_PID (w_tracks w))" using pid by auto
    then show ?thesis using on_pid_ts_packet[OF q(1)] len p by blast
  qed
  moreover have "cc_of w q = 0" for q using w(11) by (simp add: cc_of_def)
  then have "map pkt_counter (filter (on_pid q) (run_packets w cs)) =
      map (\<lambda>i. of_nat (i mod 16)) [0..<length (filter (on_pid q) (run_packets w cs))]" for q
    using run_counters[OF w(1) raw tok(1) assms(5), of q] by (simp only: counters_zero)
  moreover have "take 2 (run_packets w cs) = psi_packets w" unfolding w'(2) by (simp add: psi_packets_def)
  moreover note run_clock[OF w(1) raw tok(1) assms(5), unfolded w(5)]
  ultimately show ?thesis using w'(1,3) by blast
qed

theorem ts_conformant_witness:
  "\<exists>w w' ps. NewTsWriter witness_sink (track_options [(CodecH264, 256), (CodecH265, 257)]) = Inr w \<and>
    run_calls witness_calls w = Some (None, w') \<and> content (w_dst w') = concat ps \<and> take 2 ps = psi_packets w \<and>
    (\<forall>p \<in> set ps. ts_packet [pidPAT, writerPMTPID, 256, 257] p) \<and>
    (\<forall>q. map pkt_counter (filter (on_pid q) ps) = map (\<lambda>i. of_nat (i mod 16)) [0..<length (filter (on_pid q) ps)]) \<and>
    map uint (List.map_filter pkt_pcr ps) = [27000 * 300, 30000 * 300]"
proof -
  obtain w where w: "NewTsWriter witness_sink (track_options [(CodecH264, 256), (CodecH265, 257)]) = Inr w"
    "\<forall>c \<in> set witness_calls. accepted w c" using witness_writer by blast
  have "witness_calls \<noteq> []" by (simp add: witness_calls_def)
  then obtain w' ps where c: "run_calls witness_calls w = Some (None, w')" "content (w_dst w') = concat ps" "take 2 ps = psi_packets w"
    "\<forall>p \<in> set ps. ts_packet (pidPAT # writerPMTPID # map track_PID (w_tracks w)) p"
    "\<forall>q. map pkt_counter (filter (on_pid q) ps) = map (\<lambda>i. of_nat (i mod 16)) [0..<length (filter (on_pid q) ps)]"
    "(\<forall>c \<in> set witness_calls. - (2 ^ 62) \<le> call_dts c \<and> call_dts c < 2 ^ 55) \<longrightarrow>
      map uint (List.map_filter pkt_pcr ps) = map (\<lambda>c. clock_of (call_dts c)) (filter (\<lambda>c. call_pid c = track_PID (hd (w_tracks w))) witness_calls)"
    using ts_conformant[OF w(1) witness_sink_healthy _ w(2)] by blast
  have t: "w_tracks w = [\<lparr>track_PID = 256, track_Codec = CodecH264\<rparr>, \<lparr>track_PID = 257, track_Codec = CodecH265\<rparr>]"
    using NewTsWriter_ok(3)[OF w(1) witness_sink_healthy(1)] by simp
  have "map uint (List.map_filter pkt_pcr ps) = [27000 * 300, 30000 * 300]"
    using c(6) by (simp add: t witness_calls_def clock_of_def)
  moreover have "\<forall>p \<in> set ps. ts_packet [pidPAT, writerPMTPID, 256, 257] p" using c(4) by (simp add: t)
  ultimately show ?thesis using w(1) c(1-3,5) by (intro exI[of _ w] exI[of _ w'] exI[of _ ps]) (simp only: simp_thms)
qed

end
