(* ===== verification/H264Reader.thy ===== *)
theory H264Reader
  imports Annexb
begin

text \<open>
  The H.264 reader, \<open>h264reader/h264reader.go\<close> with \<open>h264reader/nalunittype.go\<close>. It reads units
  from an Annex-B splitter, decodes the header byte and by default leaves out SEI units.
\<close>

section \<open>NAL unit types\<close>

type_synonym NalUnitType = u8

definition NalUnitTypeUnspecified :: NalUnitType where "NalUnitTypeUnspecified = 0"
definition NalUnitTypeCodedSliceNonIdr :: NalUnitType where "NalUnitTypeCodedSliceNonIdr = 1"
definition NalUnitTypeCodedSliceDataPartitionA :: NalUnitType where "NalUnitTypeCodedSliceDataPartitionA = 2"
definition NalUnitTypeCodedSliceDataPartitionB :: NalUnitType where "NalUnitTypeCodedSliceDataPartitionB = 3"
definition NalUnitTypeCodedSliceDataPartitionC :: NalUnitType where "NalUnitTypeCodedSliceDataPartitionC = 4"
definition NalUnitTypeCodedSliceIdr :: NalUnitType where "NalUnitTypeCodedSliceIdr = 5"
definition NalUnitTypeSEI :: NalUnitType where "NalUnitTypeSEI = 6"
definition NalUnitTypeSPS :: NalUnitType where "NalUnitTypeSPS = 7"
definition NalUnitTypePPS :: NalUnitType where "NalUnitTypePPS = 8"
definition NalUnitTypeAUD :: NalUnitType where "NalUnitTypeAUD = 9"
definition NalUnitTypeEndOfSequence :: NalUnitType where "NalUnitTypeEndOfSequence = 10"
definition NalUnitTypeEndOfStream :: NalUnitType where "NalUnitTypeEndOfStream = 11"
definition NalUnitTypeFiller :: NalUnitType where "NalUnitTypeFiller = 12"
definition NalUnitTypeSpsExt :: NalUnitType where "NalUnitTypeSpsExt = 13"
definition NalUnitTypeCodedSliceAux :: NalUnitType where "NalUnitTypeCodedSliceAux = 19"

text \<open>The \<open>switch\<close> of \<open>String\<close>, as the list of its cases.\<close>

definition nalUnitType_cases :: "(NalUnitType \<times> string) list" where
  "nalUnitType_cases =
    [(NalUnitTypeUnspecified, ''Unspecified''),
     (NalUnitTypeCodedSliceNonIdr, ''CodedSliceNonIdr''),
     (NalUnitTypeCodedSliceDataPartitionA, ''CodedSliceDataPartitionA''),
     (NalUnitTypeCodedSliceDataPartitionB, ''CodedSliceDataPartitionB''),
     (NalUnitTypeCodedSliceDataPartitionC, ''CodedSliceDataPartitionC''),
     (NalUnitTypeCodedSliceIdr, ''CodedSliceIdr''),
     (NalUnitTypeSEI, ''SEI''),
     (NalUnitTypeSPS, ''SPS''),
     (NalUnitTypePPS, ''PPS''),
     (NalUnitTypeAUD, ''AUD''),
     (NalUnitTypeEndOfSequence, ''EndOfSequence''),
     (NalUnitTypeEndOfStream, ''EndOfStream''),
     (NalUnitTypeFiller, ''Filler''),
     (NalUnitTypeSpsExt, ''SpsExt''),
     (NalUnitTypeCodedSliceAux, ''NalUnitTypeCodedSliceAux'')]"

definition nalUnitType_String :: "NalUnitType \<Rightarrow> string" where
  "nalUnitType_String n =
     (case map_of nalUnitType_cases n of Some s \<Rightarrow> s | None \<Rightarrow> ''Unknown'') @ ''('' @ FormatUint (unat n) @ '')''"

section \<open>The program\<close>

datatype h264_error = errNilReader | errDataIsNotH264Stream

record H264Reader =
  h264_reader :: "h264_error annexb_reader"
  includeSEI :: bool

text \<open>A nil \<open>io.Reader\<close> is \<open>None\<close>.\<close>

definition h264_NewReader :: "stream option \<Rightarrow> h264_error error + H264Reader" where
  "h264_NewReader input = (case input of
     None \<Rightarrow> Inl (Err errNilReader)
   | Some s \<Rightarrow> Inr \<lparr>h264_reader = annexb_New s (Err errDataIsNotH264Stream), includeSEI = False\<rparr>)"

type_synonym h264_option = "H264Reader \<Rightarrow> h264_error error option \<times> H264Reader"

fun h264_apply_options :: "h264_option list \<Rightarrow> H264Reader \<Rightarrow> h264_error error + H264Reader" where
  "h264_apply_options [] r = Inr r"
| "h264_apply_options (opt # opts) r = (case opt r of
     (Some e, _) \<Rightarrow> Inl e
   | (None, r1) \<Rightarrow> h264_apply_options opts r1)"

definition h264_NewReaderWithOptions :: "stream option \<Rightarrow> h264_option list \<Rightarrow> h264_error error + H264Reader" where
  "h264_NewReaderWithOptions input opts = (case h264_NewReader input of
     Inl e \<Rightarrow> Inl e | Inr r \<Rightarrow> h264_apply_options opts r)"

definition h264_WithIncludeSEI :: "bool \<Rightarrow> h264_option" where
  "h264_WithIncludeSEI include r = (None, r\<lparr>includeSEI := include\<rparr>)"

record NAL =
  PictureOrderCount :: u32
  ForbiddenZeroBit :: bool
  RefIdc :: u8
  UnitType :: NalUnitType
  Data :: bytes

definition newNal :: "bytes \<Rightarrow> NAL" where
  "newNal data = \<lparr>PictureOrderCount = 0, ForbiddenZeroBit = False, RefIdc = 0,
     UnitType = NalUnitTypeUnspecified, Data = data\<rparr>"

text \<open>\<open>Data[0]\<close> exists: the splitter never returns an empty unit.\<close>

definition parseHeader :: "NAL \<Rightarrow> NAL" where
  "parseHeader h =
     (let firstByte = Data h ! 0 in
      h\<lparr>ForbiddenZeroBit := (drop_bit 7 (firstByte AND 0x80) = 1),
        RefIdc := drop_bit 5 (firstByte AND 0x60),
        UnitType := drop_bit 0 (firstByte AND 0x1F)\<rparr>)"

text \<open>
  The loop of \<open>NextNAL\<close>. Each round takes at least one byte from the source, except a failing
  call of \<open>Next\<close>, which ends the loop.
\<close>

function h264_NextNAL_loop ::
  "bool \<Rightarrow> h264_error annexb_reader \<Rightarrow> (h264_error error + NAL) \<times> h264_error annexb_reader" where
  "h264_NextNAL_loop sei r = (case annexb_Next r of
     (Inl e, r1) \<Rightarrow> (Inl e, r1)
   | (Inr data, r1) \<Rightarrow>
       let nal = parseHeader (newNal data) in
       if \<not> sei \<and> UnitType nal = NalUnitTypeSEI then h264_NextNAL_loop sei r1
       else (Inr nal, r1))"
  by pat_completeness auto
termination
  by (relation "measure (\<lambda>(_, r). length (st_data (ab_stream r)))") (auto dest: annexb_Next_less[OF sym])

declare h264_NextNAL_loop.simps [simp del]

definition h264_NextNAL :: "H264Reader \<Rightarrow> (h264_error error + NAL) \<times> H264Reader" where
  "h264_NextNAL r = (case h264_NextNAL_loop (includeSEI r) (h264_reader r) of
     (res, a) \<Rightarrow> (res, r\<lparr>h264_reader := a\<rparr>))"

section \<open>The units it returns\<close>

definition h264_nal :: "bytes \<Rightarrow> NAL" where
  "h264_nal data = parseHeader (newNal data)"

lemma h264_nal_fields:
  "Data (h264_nal d) = d" "UnitType (h264_nal d) = d ! 0 AND 0x1F"
  "ForbiddenZeroBit (h264_nal d) = bit (d ! 0) 7" "RefIdc (h264_nal d) = drop_bit 5 (d ! 0) AND 0x03"
proof -
  have "drop_bit 7 (b AND 0x80) = (1 :: byte) \<longleftrightarrow> bit b 7" for b
  proof -
    have "drop_bit 7 (b AND 0x80) = of_bool (bit b 7)"
      using bit_pos_cases[of 7] by (intro bit_word_eqI) (auto simp: bit_simps numeral_eq_Suc)
    then show ?thesis by simp
  qed
  then show "ForbiddenZeroBit (h264_nal d) = bit (d ! 0) 7" by (simp add: h264_nal_def parseHeader_def newNal_def Let_def)
  have m: "(0x60 :: byte) = push_bit 5 (mask 2)" by (simp add: mask_eq_exp_minus_1)
  have "drop_bit 5 (b AND 0x60) = drop_bit 5 b AND (0x03 :: byte)" for b
    unfolding m byte_masks by (rule bit_word_eqI) (auto simp: bit_simps simp del: push_bit_Suc)
  then show "RefIdc (h264_nal d) = drop_bit 5 (d ! 0) AND 0x03" by (simp add: h264_nal_def parseHeader_def newNal_def Let_def)
  show "Data (h264_nal d) = d" "UnitType (h264_nal d) = d ! 0 AND 0x1F"
    by (simp_all add: h264_nal_def parseHeader_def newNal_def Let_def)
qed

interpretation h264: filtering_client annexb_Next h264_nal "\<lambda>n. \<not> sei \<and> UnitType n = NalUnitTypeSEI" "h264_NextNAL_loop sei"
  for sei
  by unfold_locales (subst h264_NextNAL_loop.simps, simp add: h264_nal_def Let_def split: prod.split sum.split)

lemma reads_h264_NextNAL:
  "reads (h264_NextNAL_loop (includeSEI r)) (h264_reader r) xs a \<Longrightarrow>
     reads h264_NextNAL r xs (r\<lparr>h264_reader := a\<rparr>)"
proof (induction xs arbitrary: r)
  case (Cons x xs)
  then obtain a1 where "h264_NextNAL_loop (includeSEI r) (h264_reader r) = (Inr x, a1)"
    "reads (h264_NextNAL_loop (includeSEI r)) a1 xs a" by (auto split: prod.splits sum.splits)
  then show ?case using Cons.IH[of "r\<lparr>h264_reader := a1\<rparr>"] by (simp add: h264_NextNAL_def)
qed simp

lemma h264_NextNAL_end: "h264_NextNAL_loop (includeSEI r) (h264_reader r) = (Inl e, a) \<Longrightarrow> fst (h264_NextNAL r) = Inl e"
  by (simp add: h264_NextNAL_def)

lemma h264_reads_stream:
  assumes "xs \<noteq> []" "\<forall>x \<in> set xs. nal_ok (snd x)"
  shows "\<exists>r r'. h264_NewReaderWithOptions (Some \<lparr>st_data = annexb_bytes xs, st_end = None\<rparr>) [h264_WithIncludeSEI sei] = Inr r \<and>
    reads h264_NextNAL r (map h264_nal (filter (\<lambda>d. sei \<or> d ! 0 AND 0x1F \<noteq> NalUnitTypeSEI) (map snd xs))) r' \<and>
    fst (h264_NextNAL r') = Inl EOF"
proof -
  define a where "a = (annexb_New \<lparr>st_data = annexb_bytes xs, st_end = None\<rparr> (Err errDataIsNotH264Stream))"
  define r where "r = \<lparr>h264_reader = a, includeSEI = sei\<rparr>"
  obtain b where b: "reads annexb_Next a (map snd xs) b" "annexb_Next b = (Inl EOF, b)"
    using annexb_reads_back[OF assms] unfolding a_def by blast
  obtain c where c: "reads (h264_NextNAL_loop sei) a (filter (\<lambda>n. \<not> (\<not> sei \<and> UnitType n = NalUnitTypeSEI)) (map h264_nal (map snd xs))) c"
    "h264_NextNAL_loop sei c = h264_NextNAL_loop sei b"
    using h264.client_reads[OF b(1), of sei] by blast
  have f: "filter (\<lambda>n. \<not> (\<not> sei \<and> UnitType n = NalUnitTypeSEI)) (map h264_nal (map snd xs)) =
      map h264_nal (filter (\<lambda>d. sei \<or> d ! 0 AND 0x1F \<noteq> NalUnitTypeSEI) (map snd xs))"
    by (simp add: filter_map comp_def h264_nal_fields)
  have "reads h264_NextNAL r (map h264_nal (filter (\<lambda>d. sei \<or> d ! 0 AND 0x1F \<noteq> NalUnitTypeSEI) (map snd xs))) (r\<lparr>h264_reader := c\<rparr>)"
    using reads_h264_NextNAL[of r] c(1) unfolding f by (simp add: r_def)
  moreover have "fst (h264_NextNAL (r\<lparr>h264_reader := c\<rparr>)) = Inl EOF"
    using c(2) h264.client_end[OF b(2), of sei] by (intro h264_NextNAL_end[of _ _ b]) (simp add: r_def)
  moreover have "h264_NewReaderWithOptions (Some \<lparr>st_data = annexb_bytes xs, st_end = None\<rparr>) [h264_WithIncludeSEI sei] = Inr r"
    by (simp add: h264_NewReaderWithOptions_def h264_NewReader_def h264_WithIncludeSEI_def r_def a_def)
  ultimately show ?thesis by blast
qed

text \<open>
  C26: The H.264 reader returns a whole Annex-B stream. For every stream of non-empty NAL units behind
  start codes of three or four bytes, \<open>NextNAL\<close> returns each unit with its header fields decoded, in
  order, SEI units left out unless \<open>WithIncludeSEI(true)\<close> was given, and then \<open>io.EOF\<close>.
\<close>

theorem h264_stream:
  assumes "xs \<noteq> []" "\<forall>x \<in> set xs. nal_ok (snd x)"
  shows "\<exists>r r'. h264_NewReaderWithOptions (Some \<lparr>st_data = annexb_bytes xs, st_end = None\<rparr>) [h264_WithIncludeSEI sei] = Inr r \<and>
    reads h264_NextNAL r (map h264_nal (filter (\<lambda>d. sei \<or> d ! 0 AND 0x1F \<noteq> NalUnitTypeSEI) (map snd xs))) r' \<and>
    fst (h264_NextNAL r') = Inl EOF"
  by (rule h264_reads_stream[OF assms])

theorem h264_stream_witness:
  "\<exists>r r'. h264_NewReaderWithOptions (Some \<lparr>st_data = [0, 0, 0, 1, 0x67, 0x42, 0, 0, 1, 0x06, 5, 0, 0, 1, 0x65, 0x88], st_end = None\<rparr>)
      [h264_WithIncludeSEI False] = Inr r \<and>
    reads h264_NextNAL r (map h264_nal [[0x67, 0x42], [0x65, 0x88]]) r' \<and> fst (h264_NextNAL r') = Inl EOF"
proof -
  let ?xs = "[(True, [0x67, 0x42]), (False, [0x06, 5]), (False, [0x65, 0x88])] :: (bool \<times> bytes) list"
  have "\<forall>x \<in> set ?xs. nal_ok (snd x)" by (simp add: nal_ok_def)
  from h264_stream[OF _ this, of False] show ?thesis
    by (simp add: start_code_def NalUnitTypeSEI_def)
qed

end
