(* ===== verification/H265Reader.thy ===== *)
theory H265Reader
  imports Annexb
begin

text \<open>
  The H.265 reader, \<open>h265reader/h265reader.go\<close> with \<open>h265reader/nalunittype.go\<close>. The header has two
  bytes; a unit of one byte keeps the zero values, with type \<open>TrailN\<close>.
\<close>

section \<open>NAL unit types\<close>

type_synonym NalUnitType265 = u8

definition NalUnitTypeTrailN :: NalUnitType265 where "NalUnitTypeTrailN = 0"
definition NalUnitTypeTrailR :: NalUnitType265 where "NalUnitTypeTrailR = 1"
definition NalUnitTypeTsaN :: NalUnitType265 where "NalUnitTypeTsaN = 2"
definition NalUnitTypeTsaR :: NalUnitType265 where "NalUnitTypeTsaR = 3"
definition NalUnitTypeStsaN :: NalUnitType265 where "NalUnitTypeStsaN = 4"
definition NalUnitTypeStsaR :: NalUnitType265 where "NalUnitTypeStsaR = 5"
definition NalUnitTypeRadlN :: NalUnitType265 where "NalUnitTypeRadlN = 6"
definition NalUnitTypeRadlR :: NalUnitType265 where "NalUnitTypeRadlR = 7"
definition NalUnitTypeRaslN :: NalUnitType265 where "NalUnitTypeRaslN = 8"
definition NalUnitTypeRaslR :: NalUnitType265 where "NalUnitTypeRaslR = 9"
definition NalUnitTypeBlaWLp :: NalUnitType265 where "NalUnitTypeBlaWLp = 16"
definition NalUnitTypeBlaWRadl :: NalUnitType265 where "NalUnitTypeBlaWRadl = 17"
definition NalUnitTypeBlaNLp :: NalUnitType265 where "NalUnitTypeBlaNLp = 18"
definition NalUnitTypeIdrWRadl :: NalUnitType265 where "NalUnitTypeIdrWRadl = 19"
definition NalUnitTypeIdrNLp :: NalUnitType265 where "NalUnitTypeIdrNLp = 20"
definition NalUnitTypeCraNut :: NalUnitType265 where "NalUnitTypeCraNut = 21"
definition NalUnitTypeVps :: NalUnitType265 where "NalUnitTypeVps = 32"
definition NalUnitTypeSps :: NalUnitType265 where "NalUnitTypeSps = 33"
definition NalUnitTypePps :: NalUnitType265 where "NalUnitTypePps = 34"
definition NalUnitTypeAud :: NalUnitType265 where "NalUnitTypeAud = 35"
definition NalUnitTypeEos :: NalUnitType265 where "NalUnitTypeEos = 36"
definition NalUnitTypeEob :: NalUnitType265 where "NalUnitTypeEob = 37"
definition NalUnitTypeFd :: NalUnitType265 where "NalUnitTypeFd = 38"
definition NalUnitTypePrefixSei :: NalUnitType265 where "NalUnitTypePrefixSei = 39"
definition NalUnitTypeSuffixSei :: NalUnitType265 where "NalUnitTypeSuffixSei = 40"
definition NalUnitTypeReserved41 :: NalUnitType265 where "NalUnitTypeReserved41 = 41"
definition NalUnitTypeReserved47 :: NalUnitType265 where "NalUnitTypeReserved47 = 47"
definition NalUnitTypeUnspec48 :: NalUnitType265 where "NalUnitTypeUnspec48 = 48"
definition NalUnitTypeUnspec63 :: NalUnitType265 where "NalUnitTypeUnspec63 = 63"

text \<open>The \<open>switch\<close> of \<open>String\<close>, as the list of its cases, and its default.\<close>

definition nalUnitType265_cases :: "(NalUnitType265 \<times> string) list" where
  "nalUnitType265_cases =
    [(NalUnitTypeTrailN, ''TrailN''),
     (NalUnitTypeTrailR, ''TrailR''),
     (NalUnitTypeTsaN, ''TsaN''),
     (NalUnitTypeTsaR, ''TsaR''),
     (NalUnitTypeStsaN, ''StsaN''),
     (NalUnitTypeStsaR, ''StsaR''),
     (NalUnitTypeRadlN, ''RadlN''),
     (NalUnitTypeRadlR, ''RadlR''),
     (NalUnitTypeRaslN, ''RaslN''),
     (NalUnitTypeRaslR, ''RaslR''),
     (NalUnitTypeBlaWLp, ''BlaWLp''),
     (NalUnitTypeBlaWRadl, ''BlaWRadl''),
     (NalUnitTypeBlaNLp, ''BlaNLp''),
     (NalUnitTypeIdrWRadl, ''IdrWRadl''),
     (NalUnitTypeIdrNLp, ''IdrNLp''),
     (NalUnitTypeCraNut, ''CraNut''),
     (NalUnitTypeVps, ''VPS''),
     (NalUnitTypeSps, ''SPS''),
     (NalUnitTypePps, ''PPS''),
     (NalUnitTypeAud, ''AUD''),
     (NalUnitTypeEos, ''EOS''),
     (NalUnitTypeEob, ''EOB''),
     (NalUnitTypeFd, ''FD''),
     (NalUnitTypePrefixSei, ''PrefixSEI''),
     (NalUnitTypeSuffixSei, ''SuffixSEI'')]"

definition nalUnitType265_String :: "NalUnitType265 \<Rightarrow> string" where
  "nalUnitType265_String n =
     (case map_of nalUnitType265_cases n of
        Some s \<Rightarrow> s
      | None \<Rightarrow>
          if n \<ge> NalUnitTypeReserved41 \<and> n \<le> NalUnitTypeReserved47 then ''Reserved''
          else if n \<ge> NalUnitTypeUnspec48 \<and> n \<le> NalUnitTypeUnspec63 then ''Unspecified''
          else ''Unknown'') @ ''('' @ FormatUint (unat n) @ '')''"

section \<open>The program\<close>

datatype h265_error = errNilReader265 | errDataIsNotH265Stream

record H265Reader =
  h265_reader :: "h265_error annexb_reader"
  includeSEI265 :: bool

text \<open>A nil \<open>io.Reader\<close> is \<open>None\<close>.\<close>

definition h265_NewReader :: "stream option \<Rightarrow> h265_error error + H265Reader" where
  "h265_NewReader input = (case input of
     None \<Rightarrow> Inl (Err errNilReader265)
   | Some s \<Rightarrow> Inr \<lparr>h265_reader = annexb_New s (Err errDataIsNotH265Stream), includeSEI265 = False\<rparr>)"

type_synonym h265_option = "H265Reader \<Rightarrow> h265_error error option \<times> H265Reader"

fun h265_apply_options :: "h265_option list \<Rightarrow> H265Reader \<Rightarrow> h265_error error + H265Reader" where
  "h265_apply_options [] r = Inr r"
| "h265_apply_options (opt # opts) r = (case opt r of
     (Some e, _) \<Rightarrow> Inl e
   | (None, r1) \<Rightarrow> h265_apply_options opts r1)"

definition h265_NewReaderWithOptions :: "stream option \<Rightarrow> h265_option list \<Rightarrow> h265_error error + H265Reader" where
  "h265_NewReaderWithOptions input opts = (case h265_NewReader input of
     Inl e \<Rightarrow> Inl e | Inr r \<Rightarrow> h265_apply_options opts r)"

definition h265_WithIncludeSEI :: "bool \<Rightarrow> h265_option" where
  "h265_WithIncludeSEI include r = (None, r\<lparr>includeSEI265 := include\<rparr>)"

record NAL265 =
  PictureOrderCount265 :: u32
  ForbiddenZeroBit265 :: bool
  UnitType265 :: NalUnitType265
  LayerID :: u8
  TemporalIDPlus1 :: u8
  Data265 :: bytes

definition newNal265 :: "bytes \<Rightarrow> NAL265" where
  "newNal265 data = \<lparr>PictureOrderCount265 = 0, ForbiddenZeroBit265 = False, UnitType265 = NalUnitTypeTrailN,
     LayerID = 0, TemporalIDPlus1 = 0, Data265 = data\<rparr>"

definition parseHeader265 :: "NAL265 \<Rightarrow> NAL265" where
  "parseHeader265 h =
     (if length (Data265 h) < 2 then h
      else let firstByte = Data265 h ! 0; secondByte = Data265 h ! 1 in
      h\<lparr>ForbiddenZeroBit265 := (firstByte AND 0x80 \<noteq> 0),
        UnitType265 := drop_bit 1 (firstByte AND 0x7E),
        LayerID := push_bit 5 (firstByte AND 0x01) OR drop_bit 3 (secondByte AND 0xF8),
        TemporalIDPlus1 := secondByte AND 0x07\<rparr>)"

text \<open>
  The loop of \<open>NextNAL\<close>. Each round takes at least one byte from the source, except a failing
  call of \<open>Next\<close>, which ends the loop.
\<close>

function h265_NextNAL_loop ::
  "bool \<Rightarrow> h265_error annexb_reader \<Rightarrow> (h265_error error + NAL265) \<times> h265_error annexb_reader" where
  "h265_NextNAL_loop sei r = (case annexb_Next r of
     (Inl e, r1) \<Rightarrow> (Inl e, r1)
   | (Inr data, r1) \<Rightarrow>
       let nal = parseHeader265 (newNal265 data) in
       if \<not> sei \<and> (UnitType265 nal = NalUnitTypePrefixSei \<or> UnitType265 nal = NalUnitTypeSuffixSei) then h265_NextNAL_loop sei r1
       else (Inr nal, r1))"
  by pat_completeness auto
termination
  by (relation "measure (\<lambda>(_, r). length (st_data (ab_stream r)))") (auto dest: annexb_Next_less[OF sym])

declare h265_NextNAL_loop.simps [simp del]

definition h265_NextNAL :: "H265Reader \<Rightarrow> (h265_error error + NAL265) \<times> H265Reader" where
  "h265_NextNAL r = (case h265_NextNAL_loop (includeSEI265 r) (h265_reader r) of
     (res, a) \<Rightarrow> (res, r\<lparr>h265_reader := a\<rparr>))"

section \<open>The units it returns\<close>

definition h265_nal :: "bytes \<Rightarrow> NAL265" where
  "h265_nal data = parseHeader265 (newNal265 data)"

text \<open>The fields of a header, as RFC 7798 lays them out over the two bytes.\<close>

lemma h265_nal_fields:
  assumes "2 \<le> length d"
  shows "Data265 (h265_nal d) = d" "ForbiddenZeroBit265 (h265_nal d) = bit (d ! 0) 7"
    "UnitType265 (h265_nal d) = drop_bit 1 (d ! 0) AND 0x3F"
    "LayerID (h265_nal d) = to8 (drop_bit 3 (get_be16 d) AND 0x3F)"
    "TemporalIDPlus1 (h265_nal d) = d ! 1 AND 0x07"
proof -
  obtain a b r where d: "d = a # b # r" using assms by (auto simp: numeral_eq_Suc Suc_le_length_iff)
  have m: "(0x7E :: byte) = push_bit 1 (mask 6)" "(0xF8 :: byte) = push_bit 3 (mask 5)" "(1 :: byte) = mask 1" "(0x3F :: u16) = mask 6"
    by (simp_all add: mask_eq_exp_minus_1)
  have 1: "drop_bit 1 (a AND 0x7E) = drop_bit 1 a AND 0x3F"
    unfolding m byte_masks by (rule bit_word_eqI) (auto simp: bit_simps simp del: push_bit_Suc)
  have 2: "push_bit 5 (a AND 0x01) OR drop_bit 3 (b AND 0xF8) = to8 (drop_bit 3 (get_be16 (a # b # r)) AND 0x3F)"
  proof (rule bit_word_eqI)
    fix n assume "n < LENGTH(8)"
    then consider "n < 5" | "n = 5" | "n = 6" | "n = 7" by fastforce
    then show "bit (push_bit 5 (a AND 0x01) OR drop_bit 3 (b AND 0xF8)) n = bit (to8 (drop_bit 3 (get_be16 (a # b # r)) AND 0x3F)) n"
      unfolding m get_be16_def by cases (auto simp: bit_simps simp del: push_bit_Suc)
  qed
  show "Data265 (h265_nal d) = d" "ForbiddenZeroBit265 (h265_nal d) = bit (d ! 0) 7"
    "UnitType265 (h265_nal d) = drop_bit 1 (d ! 0) AND 0x3F"
    "LayerID (h265_nal d) = to8 (drop_bit 3 (get_be16 d) AND 0x3F)"
    "TemporalIDPlus1 (h265_nal d) = d ! 1 AND 0x07"
    using 1 2 unfolding h265_nal_def parseHeader265_def newNal265_def d Let_def by simp_all
qed

definition h265_SEI :: "bool \<Rightarrow> NAL265 \<Rightarrow> bool" where
  "h265_SEI sei n \<longleftrightarrow> \<not> sei \<and> (UnitType265 n = NalUnitTypePrefixSei \<or> UnitType265 n = NalUnitTypeSuffixSei)"

interpretation h265: filtering_client annexb_Next h265_nal "h265_SEI sei" "h265_NextNAL_loop sei"
  for sei
  by unfold_locales
    (subst h265_NextNAL_loop.simps, simp add: h265_nal_def h265_SEI_def Let_def split: prod.split sum.split)

lemma reads_h265_NextNAL:
  "reads (h265_NextNAL_loop (includeSEI265 r)) (h265_reader r) xs a \<Longrightarrow>
     reads h265_NextNAL r xs (r\<lparr>h265_reader := a\<rparr>)"
proof (induction xs arbitrary: r)
  case (Cons x xs)
  then obtain a1 where "h265_NextNAL_loop (includeSEI265 r) (h265_reader r) = (Inr x, a1)"
    "reads (h265_NextNAL_loop (includeSEI265 r)) a1 xs a" by (auto split: prod.splits sum.splits)
  then show ?case using Cons.IH[of "r\<lparr>h265_reader := a1\<rparr>"] by (simp add: h265_NextNAL_def)
qed simp

lemma h265_kept: "\<not> h265_SEI sei (h265_nal d) \<longleftrightarrow> sei \<or> length d < 2 \<or> drop_bit 1 (d ! 0) AND 0x3F \<notin> {39, 40}"
proof (cases "length d < 2")
  case True
  then show ?thesis by (simp add: h265_nal_def parseHeader265_def newNal265_def h265_SEI_def NalUnitTypeTrailN_def
      NalUnitTypePrefixSei_def NalUnitTypeSuffixSei_def)
next
  case False
  then show ?thesis using h265_nal_fields(3)[of d] by (simp add: h265_SEI_def NalUnitTypePrefixSei_def NalUnitTypeSuffixSei_def)
qed

lemma h265_NextNAL_end: "h265_NextNAL_loop (includeSEI265 r) (h265_reader r) = (Inl e, a) \<Longrightarrow> fst (h265_NextNAL r) = Inl e"
  by (simp add: h265_NextNAL_def)

lemma h265_reads_stream:
  assumes "xs \<noteq> []" "\<forall>x \<in> set xs. nal_ok (snd x)"
  shows "\<exists>r r'. h265_NewReaderWithOptions (Some \<lparr>st_data = annexb_bytes xs, st_end = None\<rparr>) [h265_WithIncludeSEI sei] = Inr r \<and>
    reads h265_NextNAL r (map h265_nal (filter (\<lambda>d. sei \<or> length d < 2 \<or> drop_bit 1 (d ! 0) AND 0x3F \<notin> {39, 40}) (map snd xs))) r' \<and>
    fst (h265_NextNAL r') = Inl EOF"
proof -
  define a where "a = (annexb_New \<lparr>st_data = annexb_bytes xs, st_end = None\<rparr> (Err errDataIsNotH265Stream))"
  define r where "r = \<lparr>h265_reader = a, includeSEI265 = sei\<rparr>"
  obtain b where b: "reads annexb_Next a (map snd xs) b" "annexb_Next b = (Inl EOF, b)"
    using annexb_reads_back[OF assms] unfolding a_def by blast
  obtain c where c: "reads (h265_NextNAL_loop sei) a (filter (\<lambda>n. \<not> h265_SEI sei n) (map h265_nal (map snd xs))) c"
    "h265_NextNAL_loop sei c = h265_NextNAL_loop sei b"
    using h265.client_reads[OF b(1), of sei] by blast
  have f: "filter (\<lambda>n. \<not> h265_SEI sei n) (map h265_nal (map snd xs)) =
      map h265_nal (filter (\<lambda>d. sei \<or> length d < 2 \<or> drop_bit 1 (d ! 0) AND 0x3F \<notin> {39, 40}) (map snd xs))"
    using h265_kept by (simp add: filter_map comp_def)
  have "reads h265_NextNAL r (map h265_nal (filter (\<lambda>d. sei \<or> length d < 2 \<or> drop_bit 1 (d ! 0) AND 0x3F \<notin> {39, 40}) (map snd xs))) (r\<lparr>h265_reader := c\<rparr>)"
    using reads_h265_NextNAL[of r] c(1) unfolding f by (simp add: r_def)
  moreover have "fst (h265_NextNAL (r\<lparr>h265_reader := c\<rparr>)) = Inl EOF"
    using c(2) h265.client_end[OF b(2), of sei] by (intro h265_NextNAL_end[of _ _ b]) (simp add: r_def)
  moreover have "h265_NewReaderWithOptions (Some \<lparr>st_data = annexb_bytes xs, st_end = None\<rparr>) [h265_WithIncludeSEI sei] = Inr r"
    by (simp add: h265_NewReaderWithOptions_def h265_NewReader_def h265_WithIncludeSEI_def r_def a_def)
  ultimately show ?thesis by blast
qed

text \<open>
  C27: The H.265 reader returns a whole Annex-B stream. For every stream of non-empty NAL units behind
  start codes of three or four bytes, \<open>NextNAL\<close> returns each unit with its header fields decoded, in
  order, prefix and suffix SEI units (types 39 and 40) left out unless \<open>WithIncludeSEI(true)\<close> was given, and then \<open>io.EOF\<close>.
\<close>

theorem h265_stream:
  assumes "xs \<noteq> []" "\<forall>x \<in> set xs. nal_ok (snd x)"
  shows "\<exists>r r'. h265_NewReaderWithOptions (Some \<lparr>st_data = annexb_bytes xs, st_end = None\<rparr>) [h265_WithIncludeSEI sei] = Inr r \<and>
    reads h265_NextNAL r (map h265_nal (filter (\<lambda>d. sei \<or> length d < 2 \<or> drop_bit 1 (d ! 0) AND 0x3F \<notin> {39, 40}) (map snd xs))) r' \<and>
    fst (h265_NextNAL r') = Inl EOF"
  by (rule h265_reads_stream[OF assms])

theorem h265_stream_witness:
  "\<exists>r r'. h265_NewReaderWithOptions (Some \<lparr>st_data = [0, 0, 0, 1, 0x40, 0x01, 0, 0, 1, 0x4E, 0x01, 5, 0, 0, 1, 0x26, 0x01, 7], st_end = None\<rparr>)
      [h265_WithIncludeSEI False] = Inr r \<and>
    reads h265_NextNAL r (map h265_nal [[0x40, 0x01], [0x26, 0x01, 7]]) r' \<and> fst (h265_NextNAL r') = Inl EOF"
proof -
  let ?xs = "[(True, [0x40, 0x01]), (False, [0x4E, 0x01, 5]), (False, [0x26, 0x01, 7])] :: (bool \<times> bytes) list"
  have "\<forall>x \<in> set ?xs. nal_ok (snd x)" by (simp add: nal_ok_def)
  from h265_stream[OF _ this, of False] show ?thesis
    by (simp add: start_code_def)
qed

end
