(* ===== verification/Outputs.thy ===== *)
theory Outputs
  imports GoIO "HOL-Library.Sublist"
begin

text \<open>
  Outputs that fail, and files that end too early. A writer that stops at the first error leaves a
  prefix of the file it would have written, and a reader of a prefix returns the whole items in it.
  Each is a contract (\<open>append_writer\<close>, \<open>append_only\<close> for code in pieces, \<open>cut_stream\<close>) with its
  consequence for sequences of calls; together they say what survives of a recording when the disk is full.
\<close>

section \<open>Writers that append\<close>

text \<open>\<open>heal w\<close> is the same output with no failure to come.\<close>

definition appending :: "sink \<Rightarrow> bool" where
  "appending w \<longleftrightarrow> pos w = length (content w)"

definition heal :: "sink \<Rightarrow> sink" where
  "heal w = w\<lparr>plan := []\<rparr>"

lemma heal_simps [simp]:
  "content (heal w) = content w" "pos (heal w) = pos w" "plan (heal w) = []" "can_seek (heal w) = can_seek w"
  "can_close (heal w) = can_close w" "closed (heal w) = closed w" "heal (heal w) = heal w" "appending (heal w) = appending w"
  by (simp_all add: heal_def appending_def)

lemma healthy_heal: "appending w \<Longrightarrow> healthy (heal w)"
  by (simp add: healthy_def appending_def)

lemma Write_appending:
  assumes "appending w" "Write p w = (e, w')"
  shows "appending w'" "\<exists>q. content w' = content w @ q \<and> prefix q p" "e = None \<Longrightarrow> content w' = content w @ p"
    "e = None \<Longrightarrow> Write p (heal w) = (None, heal w')"
    "Write p (heal w) = (None, (heal w)\<lparr>content := content w @ p, pos := pos w + length p\<rparr>)"
    "can_seek w' = can_seek w" "can_close w' = can_close w"
  using assms by (auto simp: Write_def appending_def overwrite_end Let_def heal_def take_is_prefix split: option.splits)

lemma Write_torn:
  assumes "appending w" "Write p w = (e, w')"
  shows "prefix (content w) (content w')" "prefix (content w') (content w @ p)"
  using Write_appending(2)[OF assms] by auto

fun until_error :: "('a \<Rightarrow> 's \<Rightarrow> 'e option \<times> 's) \<Rightarrow> 'a list \<Rightarrow> 's \<Rightarrow> 'e option \<times> 's" where
  "until_error op [] s = (None, s)"
| "until_error op (x # xs) s = (case op x s of
     (Some e, s1) \<Rightarrow> (Some e, s1)
   | (None, s1) \<Rightarrow> until_error op xs s1)"

lemma until_error_append:
  "until_error op (xs @ ys) s = (case until_error op xs s of (Some e, s1) \<Rightarrow> (Some e, s1) | (None, s1) \<Rightarrow> until_error op ys s1)"
  by (induction xs arbitrary: s) (auto split: prod.splits option.splits)

text \<open>
  A call that succeeds does what it does on a healed output; one that fails leaves at most what it
  would have written there.
\<close>

locale append_writer =
  fixes out :: "'s \<Rightarrow> sink"
    and healed :: "'s \<Rightarrow> 's"
    and op :: "'a \<Rightarrow> 's \<Rightarrow> 'e error option \<times> 's"
  assumes out_healed: "out (healed s) = heal (out s)"
    and op_appends: "appending (out s) \<Longrightarrow> op x s = (e, s') \<Longrightarrow> appending (out s') \<and> prefix (content (out s)) (content (out s'))"
    and op_healed: "appending (out s) \<Longrightarrow> op x s = (None, s') \<Longrightarrow> op x (healed s) = (None, healed s')"
    and op_torn: "appending (out s) \<Longrightarrow> op x s = (Some f, s') \<Longrightarrow> op x (healed s) = (e2, t) \<Longrightarrow>
      prefix (content (out s')) (content (out t))"
begin

lemma run_appends:
  "appending (out s) \<Longrightarrow> until_error op xs s = (e, s') \<Longrightarrow> appending (out s') \<and> prefix (content (out s)) (content (out s'))"
proof (induction xs arbitrary: s)
  case (Cons x xs)
  obtain e1 s1 where s1: "op x s = (e1, s1)" by fastforce
  then have "appending (out s1)" "prefix (content (out s)) (content (out s1))" using op_appends Cons.prems(1) by blast+
  then show ?case using Cons s1 by (cases e1) (auto intro: prefix_order.trans)
qed simp

lemma run_healed:
  "appending (out s) \<Longrightarrow> until_error op xs s = (None, s') \<Longrightarrow> until_error op xs (healed s) = (None, healed s')"
proof (induction xs arbitrary: s)
  case (Cons x xs)
  obtain s1 where s1: "op x s = (None, s1)" "until_error op xs s1 = (None, s')"
    using Cons.prems(2) by (auto split: prod.splits option.splits)
  then show ?case using Cons.IH[OF _ s1(2)] op_appends[OF Cons.prems(1) s1(1)] op_healed[OF Cons.prems(1) s1(1)] by simp
qed simp

lemma run_torn:
  "appending (out s) \<Longrightarrow> until_error op xs s = (e, s') \<Longrightarrow> until_error op xs (healed s) = (e2, t) \<Longrightarrow>
     prefix (content (out s')) (content (out t))"
proof (induction xs arbitrary: s)
  case Nil
  then show ?case by (auto simp: out_healed)
next
  case (Cons x xs)
  obtain e1 s1 where s1: "op x s = (e1, s1)" by fastforce
  note ap = op_appends[OF Cons.prems(1) s1]
  show ?case
  proof (cases e1)
    case None
    then show ?thesis using Cons.IH[of s1] Cons.prems(2,3) s1 ap op_healed[OF Cons.prems(1)] by simp
  next
    case (Some e')
    obtain e3 t1 where t1: "op x (healed s) = (e3, t1)" by fastforce
    have "appending (out t1)" using op_appends[OF _ t1] Cons.prems(1) by (simp add: out_healed)
    then have "prefix (content (out t1)) (content (out t))"
      using run_appends[of t1 xs e2 t] Cons.prems(3) t1 by (cases e3) auto
    moreover have "prefix (content (out s1)) (content (out t1))" using op_torn[OF Cons.prems(1) s1[unfolded Some] t1] .
    ultimately show ?thesis using Cons.prems(2) s1 Some by (auto intro: prefix_order.trans)
  qed
qed

text \<open>What was written when the first calls had succeeded is still there at the end.\<close>

lemma run_acknowledged:
  assumes "appending (out s)" "until_error op (take k xs) s = (None, sk)" "until_error op xs s = (e, s')"
  shows "prefix (content (out sk)) (content (out s'))"
proof -
  have "until_error op (take k xs @ drop k xs) s = (e, s')" using assms(3) by simp
  then have r: "until_error op (drop k xs) sk = (e, s')" using assms(2) unfolding until_error_append by simp
  show ?thesis using run_appends[OF _ r] run_appends[OF assms(1,2)] by simp
qed

end

section \<open>Code that only appends\<close>

text \<open>
  The same contract for a piece of code that takes the output and returns an error, a value and the
  output. It holds for a single \<open>Write\<close> and is kept by running one piece after another, so it follows for a whole
  writer from the way its functions are put together.
\<close>

definition append_only :: "(sink \<Rightarrow> 'e option \<times> 't \<times> sink) \<Rightarrow> bool" where
  "append_only f \<longleftrightarrow> (\<forall>d. appending d \<longrightarrow> (case f d of (e, t, d1) \<Rightarrow> case f (heal d) of (e2, t2, d2) \<Rightarrow>
     appending d1 \<and> prefix (content d) (content d1) \<and> prefix (content d1) (content d2) \<and>
     (e = None \<longrightarrow> e2 = None \<and> t2 = t \<and> d2 = heal d1)))"

named_theorems append_intros \<open>code that only appends\<close>

lemma append_onlyD:
  assumes "append_only f" "appending d" "f d = (e, t, d1)"
  shows "appending d1" "prefix (content d) (content d1)" "e = None \<Longrightarrow> f (heal d) = (None, t, heal d1)"
    "f (heal d) = (e2, t2, d2) \<Longrightarrow> prefix (content d1) (content d2)"
proof -
  obtain e3 t3 d3 where h: "f (heal d) = (e3, t3, d3)" by (metis prod_cases3)
  have "appending d1 \<and> prefix (content d) (content d1) \<and> prefix (content d1) (content d3) \<and> (e = None \<longrightarrow> e3 = None \<and> t3 = t \<and> d3 = heal d1)"
    using assms h unfolding append_only_def by fastforce
  then show "appending d1" "prefix (content d) (content d1)" "e = None \<Longrightarrow> f (heal d) = (None, t, heal d1)"
    "f (heal d) = (e2, t2, d2) \<Longrightarrow> prefix (content d1) (content d2)" using h by auto
qed

lemma append_only_return [append_intros]: "append_only (\<lambda>d. (e, t, d))"
  by (simp add: append_only_def)

lemma append_only_Write [append_intros]:
  fixes p :: bytes
  shows "append_only (\<lambda>d. case Write p d of (e :: 'e error option, d1) \<Rightarrow> (e, t, d1))"
  unfolding append_only_def
proof (intro allI impI)
  fix d assume a: "appending d"
  obtain e d1 where w: "(Write p d :: 'e error option \<times> sink) = (e, d1)" by fastforce
  note wa = Write_appending[OF a w] Write_torn[OF a w]
  have h: "(Write p (heal d) :: 'e error option \<times> sink) = (None, (heal d)\<lparr>content := content d @ p, pos := pos d + length p\<rparr>)"
    by (rule wa(5))
  have "e = None \<Longrightarrow> snd (Write p (heal d) :: 'e error option \<times> sink) = heal d1" by (simp add: wa(4))
  then have "e = None \<Longrightarrow> (heal d)\<lparr>content := content d @ p, pos := pos d + length p\<rparr> = heal d1" unfolding h by simp
  then show "case case Write p d of (e :: 'e error option, d1) \<Rightarrow> (e, t, d1) of (e, ta, d1) \<Rightarrow>
      case case Write p (heal d) of (e :: 'e error option, d1) \<Rightarrow> (e, t, d1) of (e2, t2, d2) \<Rightarrow>
        appending d1 \<and> prefix (content d) (content d1) \<and> prefix (content d1) (content d2) \<and> (e = None \<longrightarrow> e2 = None \<and> t2 = ta \<and> d2 = heal d1)"
    unfolding w h using wa by simp
qed

lemma append_only_bind [append_intros]:
  assumes "append_only f" "\<And>t. append_only (g t)"
  shows "append_only (\<lambda>d. case f d of (Some e, t, d1) \<Rightarrow> (Some e, k t, d1) | (None, t, d1) \<Rightarrow> g t d1)"
  unfolding append_only_def
proof (intro allI impI)
  fix d assume a: "appending d"
  obtain e t d1 e2 t2 d2 where f: "f d = (e, t, d1)" "f (heal d) = (e2, t2, d2)" by (metis prod_cases3)
  note p = append_onlyD[OF assms(1) a f(1)]
  have a2: "appending d2" using append_onlyD(1)[OF assms(1) _ f(2)] a by simp
  obtain e3 t3 d3 where g: "g t d1 = (e3, t3, d3)" by (metis prod_cases3)
  obtain e4 t4 d4 where g2: "g t2 d2 = (e4, t4, d4)" by (metis prod_cases3)
  have grow2: "prefix (content d2) (content d4)" using append_onlyD(2)[OF assms(2) a2 g2] .
  show "case case f d of (None, t, d1) \<Rightarrow> g t d1 | (Some e, t, d1) \<Rightarrow> (Some e, k t, d1) of (e, t, d1) \<Rightarrow>
      case case f (heal d) of (None, t, d1) \<Rightarrow> g t d1 | (Some e, t, d1) \<Rightarrow> (Some e, k t, d1) of (e2, t2, d2) \<Rightarrow>
        appending d1 \<and> prefix (content d) (content d1) \<and> prefix (content d1) (content d2) \<and> (e = None \<longrightarrow> e2 = None \<and> t2 = t \<and> d2 = heal d1)"
  proof (cases e)
    case (Some x)
    have "prefix (content d1) (content d2)" using p(4)[OF f(2)] .
    then show ?thesis using Some p(1,2) grow2 f g2 by (cases e2) (auto intro: prefix_order.trans)
  next
    case None
    then have h: "e2 = None" "t2 = t" "d2 = heal d1" using p(3) f(2) by simp_all
    note q = append_onlyD[OF assms(2) p(1) g]
    have "prefix (content d3) (content d4)" using q(4) g2 unfolding h by blast
    moreover have "e3 = None \<Longrightarrow> e4 = None \<and> t4 = t3 \<and> d4 = heal d3" using q(3) g2 unfolding h by simp
    ultimately show ?thesis using None h f g g2 q(1,2) p(2) by (auto intro: prefix_order.trans)
  qed
qed

text \<open>\<open>Seek(0, io.SeekCurrent)\<close> does not touch the content.\<close>

lemma append_only_seek [append_intros]:
  assumes "\<And>n. append_only (g n)"
  shows "append_only (\<lambda>d. case SeekCurrent d of (Inl (e :: 'e error), d1) \<Rightarrow> (Some e, t, d1) | (Inr n, d1) \<Rightarrow> g n d1)"
  unfolding append_only_def
proof (intro allI impI)
  fix d assume a: "appending d"
  let ?d = "d\<lparr>plan := tl (plan d)\<rparr>"
  have s: "(SeekCurrent (heal d) :: ('e error + nat) \<times> sink) = (Inr (pos d), heal d)" by (simp add: SeekCurrent_def heal_def)
  have h: "heal ?d = heal d" "appending ?d" using a by (simp_all add: heal_def appending_def)
  obtain e4 t4 d4 where g2: "g (pos d) (heal d) = (e4, t4, d4)" by (metis prod_cases3)
  have "prefix (content d) (content d4)" using append_onlyD(2)[OF assms _ g2] a by simp
  moreover obtain e3 t3 d3 where g: "g (pos d) ?d = (e3, t3, d3)" by (metis prod_cases3)
  moreover note append_onlyD[OF assms h(2) g, unfolded h(1)]
  ultimately show "case case SeekCurrent d of (Inl (e :: 'e error), d1) \<Rightarrow> (Some e, t, d1) | (Inr n, d1) \<Rightarrow> g n d1 of (e, t', d1) \<Rightarrow>
      case case SeekCurrent (heal d) of (Inl (e :: 'e error), d1) \<Rightarrow> (Some e, t, d1) | (Inr n, d1) \<Rightarrow> g n d1 of (e2, t2, d2) \<Rightarrow>
        appending d1 \<and> prefix (content d) (content d1) \<and> prefix (content d1) (content d2) \<and> (e = None \<longrightarrow> e2 = None \<and> t2 = t' \<and> d2 = heal d1)"
    unfolding s using a g2 by (auto simp: SeekCurrent_def appending_def split: option.split)
qed

lemma append_only_Write_then [append_intros]:
  fixes p :: bytes
  assumes "append_only g"
  shows "append_only (\<lambda>d. case Write p d of (Some (e :: 'e error), d1) \<Rightarrow> (Some e, t, d1) | (None, d1) \<Rightarrow> g d1)"
proof -
  have "append_only (\<lambda>d. case (case Write p d of (e :: 'e error option, d1) \<Rightarrow> (e, t, d1)) of
      (Some e, t', d1) \<Rightarrow> (Some e, t', d1) | (None, t', d1) \<Rightarrow> g d1)"
    by (rule append_only_bind[OF append_only_Write assms])
  moreover have "(case (case Write p d of (e :: 'e error option, d1) \<Rightarrow> (e, t, d1)) of
      (Some e, t', d1) \<Rightarrow> (Some e, t', d1) | (None, t', d1) \<Rightarrow> g d1) =
    (case Write p d of (Some (e :: 'e error), d1) \<Rightarrow> (Some e, t, d1) | (None, d1) \<Rightarrow> g d1)" for d
    by (simp split: prod.split option.split)
  ultimately show ?thesis by simp
qed

section \<open>Files that end too early\<close>

text \<open>
  A framed stream whose reader refuses a cut item. \<open>ends\<close> says that the source of the reader reports
  \<open>io.EOF\<close> behind its last byte, \<open>cut x k\<close> is the error when only the first \<open>k\<close> bytes of \<open>x\<close> are there.
\<close>

locale cut_stream = framed_stream enc valid step out with_data after
  for enc :: "'a \<Rightarrow> bytes"
    and valid :: "'s \<Rightarrow> 'a \<Rightarrow> bool"
    and step :: "'s \<Rightarrow> ('e error + 'b) \<times> 's"
    and out :: "'s \<Rightarrow> 'a \<Rightarrow> 'b"
    and with_data :: "bytes \<Rightarrow> 's \<Rightarrow> 's"
    and after :: "'a \<Rightarrow> 's \<Rightarrow> 's" +
  fixes ends :: "'s \<Rightarrow> bool"
    and cut :: "'a \<Rightarrow> nat \<Rightarrow> 'e error"
  assumes ends_after: "ends (after x s) = ends s"
    and step_end: "ends s \<Longrightarrow> fst (step (with_data [] s)) = Inl EOF"
    and step_cut: "ends s \<Longrightarrow> valid s x \<Longrightarrow> k < length (enc x) \<Longrightarrow> fst (step (with_data (take k (enc x)) s)) = Inl (cut x k)"
begin

lemma reads_cut:
  assumes "ends s" "list_all (valid s) xs" "prefix b (concat (map enc xs))"
  shows "\<exists>m k s'. m \<le> length xs \<and> reads step (with_data b s) (map (out s) (take m xs)) s' \<and>
    length b = length (concat (map enc (take m xs))) + k \<and>
    (if m = length xs then k = 0 \<and> fst (step s') = Inl EOF
     else k < length (enc (xs ! m)) \<and> fst (step s') = Inl (cut (xs ! m) k))"
  using assms
proof (induction xs arbitrary: s b)
  case Nil
  then show ?case using step_end[of s] by (intro exI[of _ 0] exI[of _ "with_data [] s"]) simp
next
  case (Cons x xs)
  show ?case
  proof (cases "length b < length (enc x)")
    case True
    have "b = take (length b) (enc x @ concat (map enc xs))" using Cons.prems(3) by (metis prefixE append_eq_conv_conj list.simps(9) concat.simps(2))
    then have b: "b = take (length b) (enc x)" using True by simp
    have "fst (step (with_data b s)) = Inl (cut x (length b))"
      using step_cut[OF Cons.prems(1) _ True] Cons.prems(2) b by simp
    then show ?thesis using True by (intro exI[of _ 0] exI[of _ "length b"] exI[of _ "with_data b s"]) simp
  next
    case False
    then obtain b1 where b1: "b = enc x @ b1" "prefix b1 (concat (map enc xs))"
      using Cons.prems(3) by (auto simp: prefix_append prefix_def append_eq_append_conv2)
    have st: "step (with_data b s) = (Inr (out s x), with_data b1 (after x s))"
      unfolding b1(1) using step_enc[of s x b1] Cons.prems(2) by simp
    have "ends (after x s)" "list_all (valid (after x s)) xs" using Cons.prems by (simp_all add: ends_after valid_after list_all_iff)
    from Cons.IH[OF this b1(2)] obtain m k s' where m: "m \<le> length xs"
      "reads step (with_data b1 (after x s)) (map (out s) (take m xs)) s'" "length b1 = length (concat (map enc (take m xs))) + k"
      "if m = length xs then k = 0 \<and> fst (step s') = Inl EOF
       else k < length (enc (xs ! m)) \<and> fst (step s') = Inl (cut (xs ! m) k)"
      by (auto simp: out_after)
    then show ?thesis using st
      by (intro exI[of _ "Suc m"] exI[of _ k] exI[of _ s']) (simp add: b1(1))
  qed
qed

text \<open>Every item that is there as a whole is returned.\<close>

lemma whole_items:
  assumes "m < length xs" "k < length (enc (xs ! m))" "length b = length (concat (map enc (take m xs))) + k"
    and "j \<le> length xs" "length (concat (map enc (take j xs))) \<le> length b"
  shows "j \<le> m"
proof (rule ccontr)
  assume "\<not> j \<le> m"
  then have "take j xs = take (Suc m) xs @ drop (Suc m) (take j xs)"
    by (metis append_take_drop_id min.absorb1 not_less_eq_eq take_take)
  then have "length (concat (map enc (take j xs))) \<ge> length (concat (map enc (take (Suc m) xs)))"
    by (metis concat_append length_append le_add1 map_append)
  then show False using assms by (simp add: take_Suc_conv_app_nth)
qed

lemma reads_prefix:
  assumes "ends s" "list_all (valid s) xs" "prefix b (concat (map enc xs))"
  shows "\<exists>m k s'. m \<le> length xs \<and> reads step (with_data b s) (map (out s) (take m xs)) s' \<and>
    length b = length (concat (map enc (take m xs))) + k \<and>
    (if m = length xs then k = 0 \<and> fst (step s') = Inl EOF
     else k < length (enc (xs ! m)) \<and> fst (step s') = Inl (cut (xs ! m) k)) \<and>
    (\<forall>j \<le> length xs. length (concat (map enc (take j xs))) \<le> length b \<longrightarrow> j \<le> m)"
proof -
  obtain m k s' where m: "m \<le> length xs" "reads step (with_data b s) (map (out s) (take m xs)) s'"
    "length b = length (concat (map enc (take m xs))) + k"
    "if m = length xs then k = 0 \<and> fst (step s') = Inl EOF
     else k < length (enc (xs ! m)) \<and> fst (step s') = Inl (cut (xs ! m) k)"
    using reads_cut[OF assms] by blast
  have "j \<le> m" if "j \<le> length xs" "length (concat (map enc (take j xs))) \<le> length b" for j
    using that m(1,4) whole_items[of m xs k b j, OF _ _ m(3) that] by (cases "m = length xs") auto
  then show ?thesis using m by blast
qed

end

end
