(* ===== verification/RtpDump.thy ===== *)
theory RtpDump
  imports Outputs "HOL-Library.Signed_Division"
begin

text \<open>
  The RTPDump container, \<open>rtpdump/rtpdump.go\<close>, \<open>rtpdump/reader.go\<close> and \<open>rtpdump/writer.go\<close>. A
  \<open>time.Time\<close> is its nanoseconds since the Unix epoch and a \<open>time.Duration\<close> its nanoseconds;
  Go's \<open>/\<close> and \<open>%\<close> truncate towards zero, as \<open>sdiv\<close> and \<open>smod\<close> do. A \<open>net.IP\<close> is its bytes,
  \<open>[]\<close> for nil. The mutexes only order concurrent calls and are not part of the model.
\<close>

section \<open>The standard library it uses\<close>

definition time_Second :: int where "time_Second = 1000000000"
definition time_Millisecond :: int where "time_Millisecond = 1000000"
definition time_Microsecond :: int where "time_Microsecond = 1000"

definition v4InV6Prefix :: bytes where
  "v4InV6Prefix = [0, 0, 0, 0, 0, 0, 0, 0, 0, 0, 0xFF, 0xFF]"

definition To4 :: "bytes \<Rightarrow> bytes" where
  "To4 ip = (if length ip = 4 then ip
     else if length ip = 16 \<and> take 12 ip = v4InV6Prefix then drop 12 ip else [])"

definition net_IPv4 :: "byte \<Rightarrow> byte \<Rightarrow> byte \<Rightarrow> byte \<Rightarrow> bytes" where
  "net_IPv4 a b c d = v4InV6Prefix @ [a, b, c, d]"

text \<open>\<open>IP.String\<close> on the results of \<open>To4\<close>: a nil address or four bytes.\<close>

definition ip_String :: "bytes \<Rightarrow> string" where
  "ip_String ip = (if ip = [] then ''<nil>''
     else FormatUint (unat (ip ! 0)) @ ''.'' @ FormatUint (unat (ip ! 1)) @ ''.''
        @ FormatUint (unat (ip ! 2)) @ ''.'' @ FormatUint (unat (ip ! 3)))"

section \<open>rtpdump.go\<close>

definition pktHeaderLen :: nat where "pktHeaderLen = 8"
definition headerLen :: nat where "headerLen = 16"
definition preambleLen :: nat where "preambleLen = 36"

datatype rtpdump_error = errMalformed

type_synonym rd_error = "rtpdump_error error"

record Header =
  Start :: int
  Source :: bytes
  Port :: u16

definition header_Marshal :: "Header \<Rightarrow> rd_error + bytes" where
  "header_Marshal h =
     (let startNano = i64 (Start h);
          startSec = word_of_int (startNano sdiv time_Second) :: u32;
          startUsec = word_of_int ((startNano smod time_Second) sdiv time_Microsecond) :: u32;
          source = To4 (Source h)
      in Inr (be32 startSec @ be32 startUsec @ take 4 (source @ [0, 0, 0, 0]) @ be16 (Port h) @ [0, 0]))"

definition header_Unmarshal :: "bytes \<Rightarrow> Header \<Rightarrow> rd_error option \<times> Header" where
  "header_Unmarshal data h =
     (if length data < headerLen then (Some (Err errMalformed), h)
      else let startSec = get_be32 data; startUsec = get_be32 (drop 4 data) in
        (None, h\<lparr>Start := uint startSec * time_Second + uint startUsec * 1000,
                 Source := net_IPv4 (data ! 8) (data ! 9) (data ! 10) (data ! 11),
                 Port := get_be16 (drop 12 data)\<rparr>))"

record Packet =
  Offset :: int
  IsRTCP :: bool
  Payload :: bytes

record rtpPacketHeader =
  hdr_Length :: u16
  hdr_PacketLength :: u16
  hdr_Offset :: u32

definition rtpPacketHeader_Marshal :: "rtpPacketHeader \<Rightarrow> rd_error + bytes" where
  "rtpPacketHeader_Marshal p = Inr (be16 (hdr_Length p) @ be16 (hdr_PacketLength p) @ be32 (hdr_Offset p))"

definition rtpPacketHeader_Unmarshal :: "bytes \<Rightarrow> rtpPacketHeader \<Rightarrow> rd_error option \<times> rtpPacketHeader" where
  "rtpPacketHeader_Unmarshal d p =
     (if length d < pktHeaderLen then (Some (Err errMalformed), p)
      else (None, p\<lparr>hdr_Length := get_be16 d, hdr_PacketLength := get_be16 (drop 2 d),
                    hdr_Offset := get_be32 (drop 4 d)\<rparr>))"

definition zero_packetHeader :: rtpPacketHeader where
  "zero_packetHeader = \<lparr>hdr_Length = 0, hdr_PacketLength = 0, hdr_Offset = 0\<rparr>"

definition header_offset :: "rtpPacketHeader \<Rightarrow> int" where
  "header_offset p = uint (hdr_Offset p) * time_Millisecond"

definition offsetMs :: "Packet \<Rightarrow> u32" where
  "offsetMs p = word_of_int (Offset p sdiv time_Millisecond)"

definition packet_Marshal :: "Packet \<Rightarrow> rd_error + bytes" where
  "packet_Marshal p =
     (if length (Payload p) > 65535 - pktHeaderLen then Inl (Err errMalformed)
      else let packetLength = (if IsRTCP p then 0 else length (Payload p));
               hdr = \<lparr>hdr_Length = of_nat (length (Payload p)) + 8, hdr_PacketLength = of_nat packetLength,
                      hdr_Offset = offsetMs p\<rparr>
           in (case rtpPacketHeader_Marshal hdr of
                 Inl e \<Rightarrow> Inl e
               | Inr hdrData \<Rightarrow> Inr (hdrData @ Payload p)))"

definition packet_Unmarshal :: "bytes \<Rightarrow> Packet \<Rightarrow> rd_error option \<times> Packet" where
  "packet_Unmarshal data p = (case rtpPacketHeader_Unmarshal data zero_packetHeader of
     (Some e, _) \<Rightarrow> (Some e, p)
   | (None, hdr) \<Rightarrow>
       let p1 = p\<lparr>Offset := header_offset hdr, IsRTCP := (hdr_Length hdr \<noteq> 0 \<and> hdr_PacketLength hdr = 0)\<rparr> in
       if hdr_Length hdr < 8 then (Some (Err errMalformed), p1)
       else if length data < unat (hdr_Length hdr) then (Some (Err errMalformed), p1)
       else (None, p1\<lparr>Payload := slice 8 (unat (hdr_Length hdr)) data\<rparr>))"

section \<open>reader.go\<close>

text \<open>
  The preamble pattern. Every run of digits in it is followed by a byte that is not a digit, so
  the run that a match takes is the longest one.
\<close>

definition is_digit :: "byte \<Rightarrow> bool" where
  "is_digit b \<longleftrightarrow> 48 \<le> b \<and> b \<le> 57"

definition match_lit :: "bytes \<Rightarrow> bytes \<Rightarrow> bytes option" where
  "match_lit lit xs = (if take (length lit) xs = lit then Some (drop (length lit) xs) else None)"

definition match_digits :: "nat \<Rightarrow> bytes \<Rightarrow> bytes option" where
  "match_digits n xs =
     (let k = length (takeWhile is_digit xs) in if 1 \<le> k \<and> k \<le> n then Some (drop k xs) else None)"

fun match_seq :: "(bytes \<Rightarrow> bytes option) list \<Rightarrow> bytes \<Rightarrow> bytes option" where
  "match_seq [] xs = Some xs"
| "match_seq (m # ms) xs = (case m xs of None \<Rightarrow> None | Some ys \<Rightarrow> match_seq ms ys)"

definition match_preamble :: "bytes \<Rightarrow> bytes option" where
  "match_preamble xs = match_seq [match_lit (str ''#!rtpplay1.0 ''), match_digits 3, match_lit (str ''.''),
     match_digits 3, match_lit (str ''.''), match_digits 3, match_lit (str ''.''), match_digits 3,
     match_lit (str ''/''), match_digits 5, match_lit [10]] xs"

text \<open>\<open>Regexp.Match\<close> looks for a match that starts anywhere in the bytes.\<close>

fun preamble_Match :: "bytes \<Rightarrow> bool" where
  "preamble_Match [] \<longleftrightarrow> match_preamble [] \<noteq> None"
| "preamble_Match (b # bs) \<longleftrightarrow> match_preamble (b # bs) \<noteq> None \<or> preamble_Match bs"

record rd_reader =
  rd_stream :: stream

definition zero_Header :: Header where
  "zero_Header = \<lparr>Start = 0, Source = [], Port = 0\<rparr>"

definition malformed_at_end :: "rd_error \<Rightarrow> rd_error" where
  "malformed_at_end e = (if e = ErrUnexpectedEOF \<or> e = EOF then Err errMalformed else e)"

definition rd_NewReader :: "stream \<Rightarrow> rd_error + rd_reader \<times> Header" where
  "rd_NewReader r = (case Peek preambleLen r of
     Inl e \<Rightarrow> Inl (if e = EOF then Err errMalformed else e)
   | Inr peek \<Rightarrow>
       if \<not> preamble_Match peek then Inl (Err errMalformed)
       else (case ReadLine r of
           (Some e, _) \<Rightarrow> Inl (if e = EOF then Err errMalformed else e)
         | (None, s1) \<Rightarrow> (case ReadFull headerLen s1 of
             (Inl e, _) \<Rightarrow> Inl (malformed_at_end e)
           | (Inr hBuf, s2) \<Rightarrow> (case header_Unmarshal hBuf zero_Header of
               (Some e, _) \<Rightarrow> Inl e
             | (None, hdr) \<Rightarrow> Inr (\<lparr>rd_stream = s2\<rparr>, hdr)))))"

definition rd_Next :: "rd_reader \<Rightarrow> (rd_error + Packet) \<times> rd_reader" where
  "rd_Next r = (case ReadFull pktHeaderLen (rd_stream r) of
     (Inl e, s1) \<Rightarrow> (Inl (if e = ErrUnexpectedEOF then Err errMalformed else e), r\<lparr>rd_stream := s1\<rparr>)
   | (Inr hBuf, s1) \<Rightarrow> (case rtpPacketHeader_Unmarshal hBuf zero_packetHeader of
       (Some e, _) \<Rightarrow> (Inl e, r\<lparr>rd_stream := s1\<rparr>)
     | (None, header) \<Rightarrow>
         if hdr_Length header < of_nat pktHeaderLen then (Inl (Err errMalformed), r\<lparr>rd_stream := s1\<rparr>)
         else (case ReadFull (unat (hdr_Length header - of_nat pktHeaderLen)) s1 of
             (Inl e, s2) \<Rightarrow> (Inl (if e = ErrUnexpectedEOF then Err errMalformed else e), r\<lparr>rd_stream := s2\<rparr>)
           | (Inr payload, s2) \<Rightarrow>
               (Inr \<lparr>Offset = header_offset header, IsRTCP = (hdr_PacketLength header = 0), Payload = payload\<rparr>,
                r\<lparr>rd_stream := s2\<rparr>))))"

section \<open>writer.go\<close>

record rd_writer =
  rd_sink :: sink

definition preamble_bytes :: "Header \<Rightarrow> bytes" where
  "preamble_bytes hdr =
     str ''#!rtpplay1.0 '' @ str (ip_String (To4 (Source hdr))) @ str ''/'' @ str (FormatUint (unat (Port hdr))) @ [10]"

text \<open>The second component is the output as the call leaves it, also when it fails.\<close>

definition rd_NewWriter :: "sink \<Rightarrow> Header \<Rightarrow> (rd_error + rd_writer) \<times> sink" where
  "rd_NewWriter w hdr = (case Write (preamble_bytes hdr) w of
     (Some e, w1) \<Rightarrow> (Inl e, w1)
   | (None, w1) \<Rightarrow> (case header_Marshal hdr of
       Inl e \<Rightarrow> (Inl e, w1)
     | Inr hData \<Rightarrow> (case Write hData w1 of
         (Some e, w2) \<Rightarrow> (Inl e, w2)
       | (None, w2) \<Rightarrow> (Inr \<lparr>rd_sink = w2\<rparr>, w2))))"

definition WritePacket :: "Packet \<Rightarrow> rd_writer \<Rightarrow> rd_error option \<times> rd_writer" where
  "WritePacket p w = (case packet_Marshal p of
     Inl e \<Rightarrow> (Some e, w)
   | Inr data \<Rightarrow> (case Write data (rd_sink w) of (err, d) \<Rightarrow> (err, w\<lparr>rd_sink := d\<rparr>)))"

section \<open>Packets round-trip\<close>

text \<open>
  What comes back of a packet: the offset in whole milliseconds modulo \<open>2^32\<close>, and the RTCP mark,
  which the format shares with an empty payload.
\<close>

definition stored_packet :: "Packet \<Rightarrow> Packet" where
  "stored_packet p = \<lparr>Offset = uint (offsetMs p) * time_Millisecond,
     IsRTCP = (IsRTCP p \<or> Payload p = []), Payload = Payload p\<rparr>"

definition packet_bytes :: "Packet \<Rightarrow> bytes" where
  "packet_bytes p = be16 (of_nat (length (Payload p)) + 8)
     @ be16 (of_nat (if IsRTCP p then 0 else length (Payload p))) @ be32 (offsetMs p) @ Payload p"

definition storable :: "Packet \<Rightarrow> bool" where
  "storable p \<longleftrightarrow> length (Payload p) \<le> 65527"

lemma packet_Marshal_eq:
  "packet_Marshal p = (if storable p then Inr (packet_bytes p) else Inl (Err errMalformed))"
  by (simp add: packet_Marshal_def rtpPacketHeader_Marshal_def packet_bytes_def pktHeaderLen_def storable_def Let_def)

lemma stored_lengths:
  assumes "storable p"
  shows "unat (of_nat (length (Payload p)) + 8 :: u16) = length (Payload p) + 8"
    "\<not> (of_nat (length (Payload p)) + 8 :: u16) < 8"
    "(of_nat (length (Payload p)) :: u16) = 0 \<longleftrightarrow> Payload p = []"
proof -
  have l: "length (Payload p) + 8 < 2 ^ 16" using assms by (simp add: storable_def)
  have e: "(of_nat (length (Payload p)) + 8 :: u16) = of_nat (length (Payload p) + 8)" by simp
  show u: "unat (of_nat (length (Payload p)) + 8 :: u16) = length (Payload p) + 8"
    unfolding e using l by (simp only: unat_of_nat take_bit_nat_eq_self len_of_numeral_defs) simp
  show "\<not> (of_nat (length (Payload p)) + 8 :: u16) < 8" by (simp add: word_less_nat_alt u)
  show "(of_nat (length (Payload p)) :: u16) = 0 \<longleftrightarrow> Payload p = []"
    using l by (simp add: word_unat_eq_iff unat_of_nat take_bit_nat_eq_self)
qed

lemma get_packet_header:
  "get_be16 (be16 a @ be16 b @ be32 c @ r) = a" "get_be16 (drop 2 (be16 a @ be16 b @ be32 c @ r)) = b"
  "get_be32 (drop 4 (be16 a @ be16 b @ be32 c @ r)) = c"
proof -
  have l: "length (be16 a) = 2" "length (be16 a @ be16 b) = 4" by (simp_all add: be16_def)
  show "get_be16 (be16 a @ be16 b @ be32 c @ r) = a" by simp
  show "get_be16 (drop 2 (be16 a @ be16 b @ be32 c @ r)) = b" using l(1) by simp
  show "get_be32 (drop 4 (be16 a @ be16 b @ be32 c @ r)) = c" using l by simp
qed

lemma packet_roundtrip:
  assumes "storable p"
  shows "packet_Unmarshal (packet_bytes p @ r) q = (None, stored_packet p)"
proof -
  note l = stored_lengths[OF assms]
  have nz: "(of_nat (length (Payload p)) + 8 :: u16) \<noteq> 0" using l(1) by (metis unat_0 add_is_0 zero_neq_numeral)
  have sl: "slice 8 (length (Payload p) + 8) (packet_bytes p @ r) = Payload p"
    by (simp add: slice_def packet_bytes_def be16_def be32_def)
  have "packet_bytes p @ r = be16 (of_nat (length (Payload p)) + 8)
     @ be16 (of_nat (if IsRTCP p then 0 else length (Payload p))) @ be32 (offsetMs p) @ Payload p @ r"
    by (simp add: packet_bytes_def)
  note g = get_packet_header[of "of_nat (length (Payload p)) + 8" "of_nat (if IsRTCP p then 0 else length (Payload p))"
      "offsetMs p" "Payload p @ r", folded this]
  have len: "length (packet_bytes p @ r) = 8 + length (Payload p) + length r" by (simp add: packet_bytes_def)
  have "rtpPacketHeader_Unmarshal (packet_bytes p @ r) zero_packetHeader = (None,
      \<lparr>hdr_Length = of_nat (length (Payload p)) + 8, hdr_PacketLength = of_nat (if IsRTCP p then 0 else length (Payload p)),
       hdr_Offset = offsetMs p\<rparr>)"
    unfolding rtpPacketHeader_Unmarshal_def g len by (simp add: pktHeaderLen_def zero_packetHeader_def)
  then show ?thesis using l nz sl len
    by (cases q) (simp add: packet_Unmarshal_def Let_def stored_packet_def header_offset_def)
qed

text \<open>
  Packets the format can hold: the offset is within \<open>2^32\<close> milliseconds, and an RTP packet has a payload. They come
  back unchanged but for the offset, which has the resolution of the format, the whole millisecond.
\<close>

definition recordable :: "Packet \<Rightarrow> bool" where
  "recordable p \<longleftrightarrow> storable p \<and> (IsRTCP p \<or> Payload p \<noteq> []) \<and> 0 \<le> Offset p \<and> Offset p < 2 ^ 32 * time_Millisecond"

definition in_milliseconds :: "Packet \<Rightarrow> Packet" where
  "in_milliseconds p = p\<lparr>Offset := Offset p - Offset p mod time_Millisecond\<rparr>"

lemma stored_recordable:
  assumes "recordable p" shows "stored_packet p = in_milliseconds p"
proof -
  have "0 \<le> Offset p" "Offset p div time_Millisecond < 2 ^ 32"
    using assms by (auto simp: recordable_def time_Millisecond_def)
  then have "uint (offsetMs p) = Offset p div time_Millisecond"
    by (auto simp: offsetMs_def time_Millisecond_def signed_divide_int_def sgn_if uint_word_of_int)
  then show ?thesis using assms
    by (cases p) (auto simp: stored_packet_def in_milliseconds_def recordable_def minus_mod_eq_div_mult)
qed

lemma recordable_list:
  assumes "list_all recordable ps"
  shows "list_all storable ps" "map stored_packet ps = map in_milliseconds ps"
    "map stored_packet (take m ps) = map in_milliseconds (take m ps)"
  using assms in_set_takeD[of _ m ps] by (auto simp: list_all_iff stored_recordable) (simp add: recordable_def)

text \<open>An RTP packet without a payload has the length field of RTCP, and reads back as RTCP.\<close>

lemma empty_rtp_reads_as_rtcp:
  "packet_Marshal \<lparr>Offset = 0, IsRTCP = False, Payload = []\<rparr> = Inr (packet_bytes \<lparr>Offset = 0, IsRTCP = False, Payload = []\<rparr>)"
  "snd (packet_Unmarshal (packet_bytes \<lparr>Offset = 0, IsRTCP = False, Payload = []\<rparr>) q) = \<lparr>Offset = 0, IsRTCP = True, Payload = []\<rparr>"
  using packet_roundtrip[of "\<lparr>Offset = 0, IsRTCP = False, Payload = []\<rparr>" "[]" q]
  by (simp_all add: packet_Marshal_eq storable_def stored_packet_def offsetMs_def)

abbreviation rd_ReadFull :: "nat \<Rightarrow> stream \<Rightarrow> (rd_error + bytes) \<times> stream" where
  "rd_ReadFull \<equiv> ReadFull"

interpretation rtpdump: framed_stream packet_bytes "\<lambda>_. storable" rd_Next "\<lambda>_. stored_packet"
  "\<lambda>d s. s\<lparr>rd_stream := (rd_stream s)\<lparr>st_data := d\<rparr>\<rparr>" "\<lambda>_ s. s"
proof unfold_locales
  fix p r and s :: rd_reader
  assume p: "storable p"
  note l = stored_lengths[OF p]
  let ?hdr = "be16 (of_nat (length (Payload p)) + 8) @ be16 (of_nat (if IsRTCP p then 0 else length (Payload p))) @ be32 (offsetMs p)"
  let ?s = "(rd_stream s)\<lparr>st_data := Payload p @ r\<rparr>"
  have 1: "rd_ReadFull pktHeaderLen ((rd_stream s)\<lparr>st_data := packet_bytes p @ r\<rparr>) = (Inr ?hdr, ?s)"
    by (subst ReadFull_append[where a = ?hdr and r = "Payload p @ r"]) (simp_all add: packet_bytes_def pktHeaderLen_def)
  note g = get_packet_header[where r = "[]", unfolded append_Nil2]
  have 2: "rtpPacketHeader_Unmarshal ?hdr zero_packetHeader = (None,
      \<lparr>hdr_Length = of_nat (length (Payload p)) + 8, hdr_PacketLength = of_nat (if IsRTCP p then 0 else length (Payload p)),
       hdr_Offset = offsetMs p\<rparr>)"
    unfolding rtpPacketHeader_Unmarshal_def g by (simp add: pktHeaderLen_def zero_packetHeader_def)
  have "unat (of_nat (length (Payload p)) + 8 - of_nat pktHeaderLen :: u16) = length (Payload p)"
    using p by (simp add: pktHeaderLen_def storable_def unat_of_nat take_bit_nat_eq_self)
  then have 3: "rd_ReadFull (unat (of_nat (length (Payload p)) + 8 - of_nat pktHeaderLen :: u16)) ?s =
      (Inr (Payload p), (rd_stream s)\<lparr>st_data := r\<rparr>)"
    by (subst ReadFull_append[where a = "Payload p" and r = r]) simp_all
  have n: "\<not> (of_nat (length (Payload p)) + 8 :: u16) < of_nat pktHeaderLen" using l(2) by (simp add: pktHeaderLen_def)
  show "rd_Next (s\<lparr>rd_stream := (rd_stream s)\<lparr>st_data := packet_bytes p @ r\<rparr>\<rparr>) =
      (Inr (stored_packet p), s\<lparr>rd_stream := (rd_stream s)\<lparr>st_data := r\<rparr>\<rparr>)"
    unfolding rd_Next_def using 1 2 3 n l(3)
    by (simp add: stored_packet_def header_offset_def)
qed simp_all


section \<open>The preamble\<close>

lemma unat_u16_less: "unat (w :: u16) < 65536"
  using unsigned_less[of w, where ?'a = nat] by simp

lemma FormatUint_digits: "b \<in> set (str (FormatUint n)) \<Longrightarrow> is_digit b"
proof (induction n rule: FormatUint.induct)
  case (1 n)
  have d: "is_digit (of_char (digit k))" if "k < 10" for k
  proof -
    have "(of_char (digit k) :: nat) = 48 + k" using that by (simp add: digit_def)
    then have "of_char (digit k) = (of_nat (48 + k) :: byte)" by (metis of_nat_of_char)
    moreover have "unat (of_nat (48 + k) :: byte) = 48 + k"
      using that by (simp only: unat_of_nat) (simp add: take_bit_nat_eq_self)
    ultimately show ?thesis using that by (simp only: is_digit_def word_le_nat_alt) simp
  qed
  then show ?case using 1 by (subst (asm) (2) FormatUint.simps) (auto simp: str_def split: if_splits)
qed

lemma FormatUint_length: "n < 10 ^ Suc k \<Longrightarrow> 1 \<le> length (FormatUint n) \<and> length (FormatUint n) \<le> Suc k"
proof (induction k arbitrary: n)
  case 0
  then show ?case by (simp add: FormatUint.simps[of n])
next
  case (Suc k)
  show ?case
  proof (cases "n < 10")
    case True
    then show ?thesis by (simp add: FormatUint.simps[of n])
  next
    case False
    have "n div 10 < 10 ^ Suc k" using Suc.prems by simp
    from Suc.IH[OF this] show ?thesis using False by (simp add: FormatUint.simps[of n])
  qed
qed

lemma match_digits_FormatUint:
  assumes "n < 10 ^ k" "0 < k" "\<not> is_digit x"
  shows "match_digits k (str (FormatUint n) @ x # r) = Some (x # r)"
proof -
  have "takeWhile is_digit (str (FormatUint n) @ x # r) = str (FormatUint n)"
    using FormatUint_digits[of _ n] assms(3) by (simp add: takeWhile_append2)
  moreover have "1 \<le> length (FormatUint n) \<and> length (FormatUint n) \<le> k"
    using FormatUint_length[of n "k - 1"] assms(1,2) by simp
  ultimately show ?thesis by (simp add: match_digits_def str_def)
qed

lemma match_lit_append [simp]: "match_lit lit (lit @ r) = Some r"
  by (simp add: match_lit_def)

lemma str_dot: "str ''.'' = [46]" "str ''/'' = [47]" "\<not> is_digit 46" "\<not> is_digit 47" "\<not> is_digit 10"
  by (simp_all add: str_def is_digit_def)

lemma str_append: "str (a @ b) = str a @ str b"
  by (simp add: str_def)

lemma match_lit_Cons [simp]: "match_lit [x] (x # r) = Some r"
  by (simp add: match_lit_def)

lemma match_preamble_bytes:
  assumes "length (To4 (Source h)) = 4"
  shows "match_preamble (preamble_bytes h @ r) = Some r"
proof -
  obtain a b c d where ip: "To4 (Source h) = [a, b, c, d]" using assms by (auto simp: numeral_eq_Suc length_Suc_conv)
  have u: "unat (x :: byte) < 10 ^ 3" for x by (rule less_trans[OF unat_byte_less(1)]) simp
  have p: "unat (Port h) < 10 ^ 5" by (rule less_trans[OF unat_u16_less]) simp
  have e: "preamble_bytes h @ r = str ''#!rtpplay1.0 '' @ str (FormatUint (unat a)) @ 46 # str (FormatUint (unat b))
      @ 46 # str (FormatUint (unat c)) @ 46 # str (FormatUint (unat d)) @ 47 # str (FormatUint (unat (Port h))) @ 10 # r"
    by (simp add: preamble_bytes_def ip ip_String_def str_def)
  note m = match_digits_FormatUint[OF u _ str_dot(3)] match_digits_FormatUint[OF u _ str_dot(4)] match_digits_FormatUint[OF p _ str_dot(5)]
  show ?thesis unfolding e match_preamble_def str_dot(1,2) match_seq.simps
    by (simp add: m[simplified] del: One_nat_def)
qed

lemma preamble_Match_bytes:
  assumes "length (To4 (Source h)) = 4"
  shows "preamble_Match (preamble_bytes h @ r)"
  using match_preamble_bytes[OF assms, of r] by (cases "preamble_bytes h @ r") simp_all

lemma preamble_length:
  assumes "length (To4 (Source h)) = 4"
  shows "23 \<le> length (preamble_bytes h)" "length (preamble_bytes h) \<le> 35"
proof -
  obtain a b c d where ip: "To4 (Source h) = [a, b, c, d]" using assms by (auto simp: numeral_eq_Suc length_Suc_conv)
  have l: "1 \<le> length (FormatUint (unat x)) \<and> length (FormatUint (unat x)) \<le> 3" for x :: byte
    using FormatUint_length[of "unat x" 2] less_trans[OF unat_byte_less(1)[of x], of 1000] by simp
  have p: "1 \<le> length (FormatUint (unat (Port h))) \<and> length (FormatUint (unat (Port h))) \<le> 5"
    using FormatUint_length[of "unat (Port h)" 4] less_trans[OF unat_u16_less[of "Port h"], of 100000] by simp
  show "23 \<le> length (preamble_bytes h)" "length (preamble_bytes h) \<le> 35"
    using l[of a] l[of b] l[of c] l[of d] p by (simp_all add: preamble_bytes_def ip ip_String_def str_def)
qed

lemma preamble_line:
  assumes "length (To4 (Source h)) = 4"
  shows "takeWhile (\<lambda>b. b \<noteq> 10) (preamble_bytes h @ r) = butlast (preamble_bytes h)"
    "preamble_bytes h = butlast (preamble_bytes h) @ [10]"
proof -
  define p where "p = str ''#!rtpplay1.0 '' @ str (ip_String (To4 (Source h))) @ str ''/'' @ str (FormatUint (unat (Port h)))"
  have e: "preamble_bytes h = p @ [10]" by (simp add: preamble_bytes_def p_def)
  then show "preamble_bytes h = butlast (preamble_bytes h) @ [10]" by simp
  obtain a b c d where ip: "To4 (Source h) = [a, b, c, d]" using assms by (auto simp: numeral_eq_Suc length_Suc_conv)
  have n: "10 \<notin> set (str (FormatUint k))" for k using FormatUint_digits[of 10 k] str_dot(5) by blast
  have "10 \<notin> set p" unfolding p_def ip ip_String_def using n by (simp add: str_append str_dot) (simp add: str_def)
  then show "takeWhile (\<lambda>b. b \<noteq> 10) (preamble_bytes h @ r) = butlast (preamble_bytes h)"
    unfolding e by (subst append_assoc, subst takeWhile_append2) auto
qed

section \<open>The file header\<close>

text \<open>What comes back of a header: the start in whole microseconds, the address in 16-byte form.\<close>

definition stored_header :: "Header \<Rightarrow> Header" where
  "stored_header h = \<lparr>Start = Start h - Start h mod 1000, Source = v4InV6Prefix @ To4 (Source h), Port = Port h\<rparr>"

definition header_bytes_of :: "Header \<Rightarrow> bytes" where
  "header_bytes_of h = (case header_Marshal h of Inr b \<Rightarrow> b | Inl _ \<Rightarrow> [])"

lemma sdiv_nonneg: "0 \<le> x \<Longrightarrow> 0 < k \<Longrightarrow> x sdiv k = x div k" "0 \<le> x \<Longrightarrow> 0 < k \<Longrightarrow> x smod k = x mod k" for x k :: int
  by (cases "x = 0"; simp add: signed_divide_int_def signed_modulo_int_def minus_div_mult_eq_mod)+

lemma header_roundtrip:
  assumes "length (To4 (Source h)) = 4" "0 \<le> Start h" "Start h < 2 ^ 32 * time_Second"
  shows "\<exists>b. header_Marshal h = Inr b \<and> length b = headerLen \<and> header_Unmarshal b h0 = (None, stored_header h)"
proof -
  let ?sec = "Start h div time_Second" and ?us = "Start h mod time_Second div 1000"
  define b where "b = be32 (word_of_int ?sec) @ be32 (word_of_int ?us) @ To4 (Source h) @ be16 (Port h) @ [0, 0]"
  obtain p q r s where ip: "To4 (Source h) = [p, q, r, s]" using assms(1) by (auto simp: numeral_eq_Suc length_Suc_conv)
  have i: "i64 (Start h) = Start h" using assms(2,3) by (intro i64_id) (simp_all add: time_Second_def)
  have m: "header_Marshal h = Inr b"
    using assms(1,2) by (simp add: header_Marshal_def i Let_def b_def sdiv_nonneg time_Second_def time_Microsecond_def)
  have len: "length b = headerLen" using assms(1) by (simp add: b_def headerLen_def)
  have sec: "0 \<le> ?sec" "?sec < 2 ^ 32" "0 \<le> ?us" "?us < 2 ^ 32"
    using assms(2,3) by (auto simp: time_Second_def div_less_iff_less_mult intro: pos_imp_zdiv_nonneg_iff[THEN iffD2])
  have u: "uint (word_of_int ?sec :: u32) = ?sec" "uint (word_of_int ?us :: u32) = ?us"
    using sec by (simp_all add: uint_word_of_int_eq take_bit_int_eq_self)
  have "Start h = ?sec * time_Second + Start h mod time_Second" by simp
  moreover have "Start h mod time_Second mod 1000 = Start h mod 1000"
    by (simp add: time_Second_def mod_mod_cancel)
  ultimately have st: "?sec * time_Second + ?us * 1000 = Start h - Start h mod 1000"
    using div_mult_mod_eq[of "Start h mod time_Second" 1000] by linarith
  have g: "get_be32 b = word_of_int ?sec" "get_be32 (drop 4 b) = word_of_int ?us" "get_be16 (drop 12 b) = Port h"
    "b ! 8 = p" "b ! 9 = q" "b ! 10 = r" "b ! 11 = s"
    by (simp_all add: b_def ip nth_append)
  have "header_Unmarshal b h0 = (None, stored_header h)"
    unfolding header_Unmarshal_def g u Let_def st using len
    by (cases h0) (simp add: stored_header_def net_IPv4_def ip headerLen_def)
  with m len show ?thesis by blast
qed

section \<open>Whole files\<close>

fun write_packets :: "Packet list \<Rightarrow> rd_writer \<Rightarrow> rd_error option \<times> rd_writer" where
  "write_packets [] w = (None, w)"
| "write_packets (p # ps) w = (case WritePacket p w of
     (Some e, w1) \<Rightarrow> (Some e, w1)
   | (None, w1) \<Rightarrow> write_packets ps w1)"

lemma write_packets_healthy:
  assumes "healthy (rd_sink w)" "list_all storable ps"
  shows "\<exists>w'. write_packets ps w = (None, w') \<and> content (rd_sink w') = content (rd_sink w) @ concat (map packet_bytes ps)"
  using assms
proof (induction ps arbitrary: w)
  case (Cons p ps)
  define d where "d = (rd_sink w)\<lparr>content := content (rd_sink w) @ packet_bytes p,
      pos := pos (rd_sink w) + length (packet_bytes p), plan := tl (plan (rd_sink w))\<rparr>"
  have "WritePacket p w = (None, w\<lparr>rd_sink := d\<rparr>)"
    using Cons.prems by (simp add: WritePacket_def packet_Marshal_eq Write_healthy d_def)
  moreover have "healthy (rd_sink (w\<lparr>rd_sink := d\<rparr>))"
    using healthy_after_Write[of "rd_sink w"] Cons.prems(1) by (simp add: d_def)
  from Cons.IH[OF this] Cons.prems(2) obtain w' where "write_packets ps (w\<lparr>rd_sink := d\<rparr>) = (None, w')"
    "content (rd_sink w') = content d @ concat (map packet_bytes ps)" by auto
  ultimately show ?case by (auto simp: d_def)
qed simp

abbreviation rd_Write :: "bytes \<Rightarrow> sink \<Rightarrow> rd_error option \<times> sink" where
  "rd_Write \<equiv> Write"

lemma ReadLine_preamble:
  assumes "length (To4 (Source h)) = 4"
  shows "ReadLine \<lparr>st_data = preamble_bytes h @ r, st_end = e\<rparr> = (None, \<lparr>st_data = r, st_end = e\<rparr>)"
proof -
  note l = preamble_line(1)[OF assms, of r] preamble_line(2)[OF assms]
  have "length (butlast (preamble_bytes h)) < 4096" "Suc (length (butlast (preamble_bytes h))) = length (preamble_bytes h)"
    using preamble_length[OF assms] by simp_all
  then show ?thesis unfolding ReadLine_def by (simp add: l(1) Let_def) (use l(2) in auto)
qed

lemma rd_NewReader_opens:
  assumes "length (To4 (Source h)) = 4" "header_Marshal h = Inr b" "length b = headerLen"
    and "header_Unmarshal b zero_Header = (None, h')"
  shows "rd_NewReader \<lparr>st_data = preamble_bytes h @ b @ d, st_end = e\<rparr> = Inr (\<lparr>rd_stream = \<lparr>st_data = d, st_end = e\<rparr>\<rparr>, h')"
proof -
  let ?d = "preamble_bytes h @ b @ d"
  note len = preamble_length[OF assms(1)]
  have "take preambleLen ?d = preamble_bytes h @ take (preambleLen - length (preamble_bytes h)) (b @ d)"
    using len by (simp add: preambleLen_def)
  then have "preamble_Match (take preambleLen ?d)" using preamble_Match_bytes[OF assms(1)] by simp
  moreover have "preambleLen \<le> length ?d" using len assms(3) by (simp add: preambleLen_def headerLen_def)
  moreover have "rd_ReadFull headerLen \<lparr>st_data = b @ d, st_end = e\<rparr> = (Inr b, \<lparr>st_data = d, st_end = e\<rparr>)"
    using ReadFull_append[of "\<lparr>st_data = b @ d, st_end = e\<rparr>" b d headerLen] assms(3) by simp
  ultimately show ?thesis using assms(4)
    by (simp add: rd_NewReader_def Peek_def ReadLine_preamble[OF assms(1)])
qed

text \<open>
  C6: A whole rtpdump file round-trips. A file written with \<open>NewWriter\<close> and \<open>WritePacket\<close> opens with the
  header it was given (the start in whole microseconds, the IPv4 source in 16-byte form) and \<open>Next\<close>
  returns the packets with their kind and payload, in order, then \<open>io.EOF\<close>. Offsets are below \<open>2^32\<close> milliseconds and come back
  in whole milliseconds, the resolution of the format. RTP packets have a payload: the format marks RTCP by a length of zero, and an
  RTP packet without one comes back as RTCP (\<open>empty_rtp_reads_as_rtcp\<close>).
\<close>

theorem rtpdump_file:
  assumes "healthy w" "content w = []" "length (To4 (Source h)) = 4" "0 \<le> Start h" "Start h < 2 ^ 32 * time_Second"
    and "list_all recordable ps"
  shows "\<exists>wr w1 wr' r r'. rd_NewWriter w h = (Inr wr, w1) \<and> write_packets ps wr = (None, wr') \<and>
    rd_NewReader \<lparr>st_data = content (rd_sink wr'), st_end = None\<rparr> = Inr (r, stored_header h) \<and>
    reads rd_Next r (map in_milliseconds ps) r' \<and> fst (rd_Next r') = Inl EOF"
proof -
  note ps = recordable_list(1,2)[OF assms(6)]
  obtain b where b: "header_Marshal h = Inr b" "length b = headerLen" "header_Unmarshal b zero_Header = (None, stored_header h)"
    using header_roundtrip[OF assms(3-5)] by blast
  define w1 where "w1 = w\<lparr>content := content w @ preamble_bytes h, pos := pos w + length (preamble_bytes h), plan := tl (plan w)\<rparr>"
  define w2 where "w2 = w1\<lparr>content := content w1 @ b, pos := pos w1 + length b, plan := tl (plan w1)\<rparr>"
  have h1: "healthy w1" "healthy w2" using healthy_after_Write assms(1) unfolding w1_def w2_def by blast+
  have "rd_Write (preamble_bytes h) w = (None, w1)" "rd_Write b w1 = (None, w2)"
    unfolding w1_def w2_def using Write_healthy[OF assms(1)] Write_healthy[OF h1(1)] by (simp_all only: w1_def)
  then have nw: "rd_NewWriter w h = (Inr \<lparr>rd_sink = w2\<rparr>, w2)" using b(1) by (simp add: rd_NewWriter_def)
  obtain wr' where wr': "write_packets ps \<lparr>rd_sink = w2\<rparr> = (None, wr')"
      "content (rd_sink wr') = preamble_bytes h @ b @ concat (map packet_bytes ps)"
    using write_packets_healthy[of "\<lparr>rd_sink = w2\<rparr>" ps] h1(2) assms(2) ps(1) by (auto simp: w1_def w2_def)
  have "fold (\<lambda>_ s. s) ps s = s" for s :: rd_reader by (induction ps) simp_all
  note fold_same = this
  let ?r = "\<lambda>d. \<lparr>rd_stream = \<lparr>st_data = d, st_end = None\<rparr>\<rparr>"
  have "rd_NewReader \<lparr>st_data = content (rd_sink wr'), st_end = None\<rparr> = Inr (?r (concat (map packet_bytes ps)), stored_header h)"
    unfolding wr'(2) using rd_NewReader_opens[OF assms(3) b] by simp
  moreover have "reads rd_Next (?r (concat (map packet_bytes ps))) (map in_milliseconds ps) (?r [])"
    using rtpdump.reads_all[OF ps(1), of "[]" "?r []"] by (simp add: fold_same ps(2))
  moreover have "fst (rd_Next (?r [])) = Inl EOF" by (simp add: rd_Next_def ReadFull_end pktHeaderLen_def end_error_def)
  ultimately show ?thesis using nw wr'(1) by blast
qed

section \<open>Outputs that fail\<close>

lemma rd_Next_cut:
  assumes "storable p" "k < length (packet_bytes p)"
  shows "fst (rd_Next (s\<lparr>rd_stream := \<lparr>st_data = take k (packet_bytes p), st_end = None\<rparr>\<rparr>)) =
    Inl (if k = 0 \<or> k = 8 then EOF else Err errMalformed)"
proof (cases "k < 8")
  case True
  then show ?thesis using assms(2) by (auto simp: rd_Next_def ReadFull_def pktHeaderLen_def end_error_def)
next
  case False
  note l = stored_lengths[OF assms(1)]
  let ?hdr = "be16 (of_nat (length (Payload p)) + 8) @ be16 (of_nat (if IsRTCP p then 0 else length (Payload p))) @ be32 (offsetMs p)"
  have tk: "take k (packet_bytes p) = ?hdr @ take (k - 8) (Payload p)" using False by (simp add: packet_bytes_def)
  have 1: "rd_ReadFull pktHeaderLen \<lparr>st_data = take k (packet_bytes p), st_end = None\<rparr> =
      (Inr ?hdr, \<lparr>st_data = take (k - 8) (Payload p), st_end = None\<rparr>)"
    unfolding tk by (subst ReadFull_append[where a = ?hdr and r = "take (k - 8) (Payload p)"]) (simp_all add: pktHeaderLen_def)
  note g = get_packet_header[where r = "[]", unfolded append_Nil2]
  have 2: "rtpPacketHeader_Unmarshal ?hdr zero_packetHeader = (None,
      \<lparr>hdr_Length = of_nat (length (Payload p)) + 8, hdr_PacketLength = of_nat (if IsRTCP p then 0 else length (Payload p)),
       hdr_Offset = offsetMs p\<rparr>)"
    unfolding rtpPacketHeader_Unmarshal_def g by (simp add: pktHeaderLen_def zero_packetHeader_def)
  have n: "unat (of_nat (length (Payload p)) + 8 - of_nat pktHeaderLen :: u16) = length (Payload p)"
    using assms(1) by (simp add: pktHeaderLen_def storable_def unat_of_nat take_bit_nat_eq_self)
  have short: "k - 8 < length (Payload p)" using assms(2) False by (simp add: packet_bytes_def)
  have 3: "fst (rd_ReadFull (length (Payload p)) \<lparr>st_data = take (k - 8) (Payload p), st_end = None\<rparr>) =
      Inl (if k = 8 then EOF else ErrUnexpectedEOF)"
    using short False by (auto simp: ReadFull_def end_error_def)
  have m: "\<not> (of_nat (length (Payload p)) + 8 :: u16) < of_nat pktHeaderLen" using l(2) by (simp add: pktHeaderLen_def)
  show ?thesis unfolding rd_Next_def using 1 2 3 n m False
    by (cases "rd_ReadFull (length (Payload p)) \<lparr>st_data = take (k - 8) (Payload p), st_end = None\<rparr>") auto
qed

interpretation rtpdump_cut: cut_stream packet_bytes "\<lambda>_. storable" rd_Next "\<lambda>_. stored_packet"
  "\<lambda>d s. s\<lparr>rd_stream := (rd_stream s)\<lparr>st_data := d\<rparr>\<rparr>" "\<lambda>_ s. s"
  "\<lambda>s. st_end (rd_stream s) = None" "\<lambda>p k. if k = 0 \<or> k = 8 then EOF else Err errMalformed"
proof unfold_locales
  fix s :: rd_reader and p k
  assume a: "st_end (rd_stream s) = None"
  then show "fst (rd_Next (s\<lparr>rd_stream := (rd_stream s)\<lparr>st_data := []\<rparr>\<rparr>)) = Inl EOF"
    by (simp add: rd_Next_def ReadFull_end pktHeaderLen_def end_error_def)
  have "(rd_stream s)\<lparr>st_data := d\<rparr> = \<lparr>st_data = d, st_end = None\<rparr>" for d using a by (cases "rd_stream s") simp
  moreover assume "storable p" "k < length (packet_bytes p)"
  ultimately show "fst (rd_Next (s\<lparr>rd_stream := (rd_stream s)\<lparr>st_data := take k (packet_bytes p)\<rparr>\<rparr>)) =
      Inl (if k = 0 \<or> k = 8 then EOF else Err errMalformed)"
    using rd_Next_cut[of p k s] by simp
qed simp

interpretation rtpdump_out: append_writer rd_sink "\<lambda>w. w\<lparr>rd_sink := heal (rd_sink w)\<rparr>" WritePacket
proof unfold_locales
  fix s s' t :: rd_writer and p e f e2
  assume a: "appending (rd_sink s)"
  have w: "WritePacket p s = (case packet_Marshal p of Inl e \<Rightarrow> (Some e, s)
      | Inr b \<Rightarrow> (fst (rd_Write b (rd_sink s)), s\<lparr>rd_sink := snd (rd_Write b (rd_sink s))\<rparr>))" for s
    by (simp add: WritePacket_def split: sum.split prod.split)
  note wa = Write_appending[OF a prod.collapse[symmetric]] and wt = Write_torn[OF a prod.collapse[symmetric]]
  show "WritePacket p s = (e, s') \<Longrightarrow> appending (rd_sink s') \<and> prefix (content (rd_sink s)) (content (rd_sink s'))"
    using a by (auto simp: w wa(1) wt(1) split: sum.splits)
  show "WritePacket p s = (None, s') \<Longrightarrow> WritePacket p (s\<lparr>rd_sink := heal (rd_sink s)\<rparr>) = (None, s'\<lparr>rd_sink := heal (rd_sink s')\<rparr>)"
    by (auto simp: w wa(4) split: sum.splits)
  show "WritePacket p s = (Some f, s') \<Longrightarrow> WritePacket p (s\<lparr>rd_sink := heal (rd_sink s)\<rparr>) = (e2, t) \<Longrightarrow>
      prefix (content (rd_sink s')) (content (rd_sink t))"
    by (auto simp: w wa(5) wt(2) split: sum.splits)
qed simp

lemma write_packets_until: "write_packets ps w = until_error WritePacket ps w"
  by (induction ps arbitrary: w) (auto split: prod.splits option.splits)

lemma rd_NewWriter_content:
  assumes "rd_NewWriter w h = (Inr wr, w1)" "appending w" "content w = []" "header_Marshal h = Inr b"
  shows "appending (rd_sink wr)" "content (rd_sink wr) = preamble_bytes h @ b"
proof -
  obtain w2 where w2: "rd_Write (preamble_bytes h) w = (None, w2)" "rd_Write b w2 = (None, rd_sink wr)"
    using assms(1,4) by (auto simp: rd_NewWriter_def split: prod.splits option.splits)
  note p = Write_appending(1,3)[OF assms(2) w2(1)]
  show "appending (rd_sink wr)" "content (rd_sink wr) = preamble_bytes h @ b"
    using Write_appending(1,3)[OF p(1) w2(2)] p(2) assms(3) by simp_all
qed

text \<open>
  C10: A recording survives a failing output. Whatever the output does (any write may fail after any number of
  bytes), when the caller stops at the first error of \<open>WritePacket\<close> the file opens with the header, \<open>Next\<close> returns
  the first packets with their kind and payload and the offset in whole milliseconds (as for a complete file, RTP packets have a
  payload and offsets are below \<open>2^32\<close> milliseconds), and every packet whose \<open>WritePacket\<close> returned no error is
  among them. Reading ends with \<open>io.EOF\<close> where the file has no torn packet, and with a malformed file otherwise, except
  that a packet torn right behind its eight byte header is taken for the end.
\<close>

theorem rtpdump_durable:
  assumes "appending w" "content w = []" "length (To4 (Source h)) = 4" "0 \<le> Start h" "Start h < 2 ^ 32 * time_Second"
    and "list_all recordable ps" "rd_NewWriter w h = (Inr wr, w1)" "write_packets ps wr = (err, wr')"
  shows "\<exists>m k r r'. m \<le> length ps \<and> rd_NewReader \<lparr>st_data = content (rd_sink wr'), st_end = None\<rparr> = Inr (r, stored_header h) \<and>
    reads rd_Next r (map in_milliseconds (take m ps)) r' \<and>
    length (content (rd_sink wr')) = length (content (rd_sink wr)) + length (concat (map packet_bytes (take m ps))) + k \<and>
    (if m = length ps then k = 0 \<and> fst (rd_Next r') = Inl EOF
     else k < length (packet_bytes (ps ! m)) \<and> fst (rd_Next r') = Inl (if k = 0 \<or> k = 8 then EOF else Err errMalformed)) \<and>
    (\<forall>j wj. j \<le> length ps \<and> write_packets (take j ps) wr = (None, wj) \<longrightarrow> j \<le> m)"
proof -
  note ps = recordable_list[OF assms(6)]
  obtain b where b: "header_Marshal h = Inr b" "length b = headerLen" "header_Unmarshal b zero_Header = (None, stored_header h)"
    using header_roundtrip[OF assms(3-5)] by blast
  note wr = rd_NewWriter_content[OF assms(7,1,2) b(1)]
  let ?hd = "preamble_bytes h @ b" and ?heal = "\<lambda>w. w\<lparr>rd_sink := heal (rd_sink w)\<rparr>"
  have full: "\<exists>t. until_error WritePacket qs (?heal wr) = (None, t) \<and> content (rd_sink t) = ?hd @ concat (map packet_bytes qs)"
    if "list_all storable qs" for qs
    using write_packets_healthy[of "?heal wr" qs] that wr healthy_heal by (simp add: write_packets_until)
  have run: "until_error WritePacket ps wr = (err, wr')" using assms(8) by (simp add: write_packets_until)
  obtain b1 where b1: "content (rd_sink wr') = ?hd @ b1"
    using rtpdump_out.run_appends[OF wr(1) run] wr(2) by (auto simp: prefix_def)
  have pre: "prefix b1 (concat (map packet_bytes ps))"
    using full[OF ps(1)] rtpdump_out.run_torn[OF wr(1) run] by (auto simp: b1)
  let ?r = "\<lparr>rd_stream = \<lparr>st_data = b1, st_end = None\<rparr>\<rparr>"
  obtain m k r' where m: "m \<le> length ps" "reads rd_Next ?r (map in_milliseconds (take m ps)) r'"
    "length b1 = length (concat (map packet_bytes (take m ps))) + k"
    "if m = length ps then k = 0 \<and> fst (rd_Next r') = Inl EOF
     else k < length (packet_bytes (ps ! m)) \<and> fst (rd_Next r') = Inl (if k = 0 \<or> k = 8 then EOF else Err errMalformed)"
    and all: "\<forall>j \<le> length ps. length (concat (map packet_bytes (take j ps))) \<le> length b1 \<longrightarrow> j \<le> m"
    using rtpdump_cut.reads_prefix[of ?r ps b1] ps(1) pre unfolding ps(3) by auto
  have "j \<le> m" if j: "j \<le> length ps" "write_packets (take j ps) wr = (None, wj)" for j wj
  proof -
    have run_j: "until_error WritePacket (take j ps) wr = (None, wj)" using j(2) by (simp add: write_packets_until)
    have "list_all storable (take j ps)" using ps(1) by (auto simp: list_all_iff dest: in_set_takeD)
    from full[OF this] have "content (rd_sink wj) = ?hd @ concat (map packet_bytes (take j ps))"
      using rtpdump_out.run_healed[OF wr(1) run_j] by auto
    then have "length (concat (map packet_bytes (take j ps))) \<le> length b1"
      using prefix_length_le[OF rtpdump_out.run_acknowledged[OF wr(1) run_j run]] by (simp add: b1)
    then show "j \<le> m" using all j(1) by blast
  qed
  then show ?thesis using m(1,2,4) m(3) rd_NewReader_opens[OF assms(3) b, of b1 None] wr(2)
    by (intro exI[of _ m] exI[of _ k] exI[of _ ?r] exI[of _ r']) (simp add: b1)
qed

definition witness_header :: Header where
  "witness_header = \<lparr>Start = 1700000000123456000, Source = [192, 168, 0, 1], Port = 5004\<rparr>"

definition witness_packets :: "Packet list" where
  "witness_packets = [\<lparr>Offset = 0, IsRTCP = False, Payload = [0x80, 96, 1]\<rparr>, \<lparr>Offset = 20000000, IsRTCP = True, Payload = [0x81, 200]\<rparr>]"

theorem rtpdump_file_witness:
  "\<exists>wr w1 wr' r r'. rd_NewWriter \<lparr>content = [], pos = 0, plan = [], can_seek = False, can_close = False, closed = False\<rparr> witness_header = (Inr wr, w1) \<and>
     write_packets witness_packets wr = (None, wr') \<and>
     rd_NewReader \<lparr>st_data = content (rd_sink wr'), st_end = None\<rparr> = Inr (r, stored_header witness_header) \<and>
     reads rd_Next r (map in_milliseconds witness_packets) r' \<and> fst (rd_Next r') = Inl EOF"
proof (rule rtpdump_file)
  show "length (To4 (Source witness_header)) = 4" by code_simp
qed (simp_all add: healthy_def witness_header_def witness_packets_def recordable_def storable_def time_Second_def time_Millisecond_def)

definition witness_failing :: sink where
  "witness_failing = \<lparr>content = [], pos = 0, plan = [None, None, None, Some (5, 7)], can_seek = False, can_close = False, closed = False\<rparr>"

text \<open>The second packet is torn inside its header; the first is read back.\<close>

theorem rtpdump_durable_witness:
  "\<exists>wr w1 err wr' m r r'. rd_NewWriter witness_failing witness_header = (Inr wr, w1) \<and> write_packets witness_packets wr = (Some err, wr') \<and> 1 \<le> m \<and>
     rd_NewReader \<lparr>st_data = content (rd_sink wr'), st_end = None\<rparr> = Inr (r, stored_header witness_header) \<and>
     reads rd_Next r (map in_milliseconds (take m witness_packets)) r'"
proof -
  have h: "appending witness_failing" "content witness_failing = []" "length (To4 (Source witness_header)) = 4"
    "0 \<le> Start witness_header" "Start witness_header < 2 ^ 32 * time_Second" "list_all recordable witness_packets" "1 \<le> length witness_packets"
    by (simp_all add: appending_def witness_failing_def witness_header_def witness_packets_def recordable_def storable_def time_Second_def time_Millisecond_def To4_def)
  obtain b where b: "header_Marshal witness_header = Inr b" using header_roundtrip[OF h(3-5)] by blast
  obtain wr w1 where new: "rd_NewWriter witness_failing witness_header = (Inr wr, w1)" and pl: "plan (rd_sink wr) = [None, Some (5, 7)]"
    by (simp add: rd_NewWriter_def b Write_def witness_failing_def)
  obtain wr' w2 where w: "write_packets witness_packets wr = (Some (IOErr 7), wr')" "write_packets (take 1 witness_packets) wr = (None, w2)"
    using pl by (simp add: witness_packets_def WritePacket_def packet_Marshal_eq storable_def Write_def)
  obtain m r r' where m: "rd_NewReader \<lparr>st_data = content (rd_sink wr'), st_end = None\<rparr> = Inr (r, stored_header witness_header)"
    "reads rd_Next r (map in_milliseconds (take m witness_packets)) r'"
    "\<forall>j wj. j \<le> length witness_packets \<and> write_packets (take j witness_packets) wr = (None, wj) \<longrightarrow> j \<le> m"
    using rtpdump_durable[OF h(1-6) new w(1)] by blast
  then have "1 \<le> m" using w(2) h(7) by blast
  then show ?thesis using new w(1) m(1,2) by blast
qed

text \<open>
  The expression that looks for the preamble is not anchored: a file that does not start with it is
  accepted, its first line is skipped and the text of the preamble is read as the binary header.
\<close>

lemma preamble_not_anchored:
  "case rd_NewReader \<lparr>st_data = 10 # str ''#!rtpplay1.0 1.2.3.4/5'' @ [10] @ replicate 20 0, st_end = None\<rparr> of
     Inl _ \<Rightarrow> False | Inr (_, h) \<Rightarrow> Port h = 0x2031"
  by code_simp

text \<open>A source that is not an IPv4 address gives a file that the reader refuses.\<close>

lemma no_ipv4_source:
  "case fst (rd_NewWriter \<lparr>content = [], pos = 0, plan = [], can_seek = False, can_close = False, closed = False\<rparr>
       \<lparr>Start = 0, Source = [], Port = 5\<rparr>) of
     Inl _ \<Rightarrow> False
   | Inr wr \<Rightarrow> (case rd_NewReader \<lparr>st_data = content (rd_sink wr), st_end = None\<rparr> of Inl e \<Rightarrow> e = Err errMalformed | Inr _ \<Rightarrow> False)"
  by code_simp

end
