(* ===== verification/IvfReader.thy ===== *)
theory IvfReader
  imports Outputs
begin

text \<open>
  The IVF reader, \<open>ivfreader/ivfreader.go\<close>. \<open>int\<close> has 64 bits. The stream a caller hands over can be
  nil, \<open>None\<close> here; the function given to \<open>ResetReader\<close> is an argument.
\<close>

section \<open>The program\<close>

definition ivfFileHeaderSignature :: bytes where "ivfFileHeaderSignature = str ''DKIF''"
definition ivfFileHeaderSize :: nat where "ivfFileHeaderSize = 32"
definition ivfFrameHeaderSize :: nat where "ivfFrameHeaderSize = 12"

datatype ivfreader_error =
    errFrameTooLarge | errNilStream | errIncompleteFrameHeader | errIncompleteFrameData
  | errIncompleteFileHeader | errSignatureMismatch | errUnknownIVFVersion | errInvalidMediaTimebase

type_synonym ivf_error = "ivfreader_error error"

record IVFFileHeader =
  ivf_signature :: bytes
  ivf_version :: u16
  ivf_headerSize :: u16
  FourCC :: bytes
  Width :: u16
  Height :: u16
  TimebaseDenominator :: u32
  TimebaseNumerator :: u32
  NumFrames :: u32
  ivf_unused :: u32

record IVFFrameHeader =
  FrameSize :: u32
  ivf_Timestamp :: u64

record IVFReader =
  ivf_stream :: stream
  bytesReadSuccesfully :: int
  timebaseDenominator :: u32
  timebaseNumerator :: u32
  maxFrameSize :: u32

type_synonym ivf_option = "IVFReader \<Rightarrow> IVFReader"

definition WithMaxFrameSize :: "u32 \<Rightarrow> ivf_option" where
  "WithMaxFrameSize n r = r\<lparr>maxFrameSize := n\<rparr>"

definition parseFileHeader :: "IVFReader \<Rightarrow> (ivf_error + IVFFileHeader) \<times> IVFReader" where
  "parseFileHeader i = (case ReadFull ivfFileHeaderSize (ivf_stream i) of
     (Inl e, s) \<Rightarrow> (Inl (if e = ErrUnexpectedEOF then Err errIncompleteFileHeader else e), i\<lparr>ivf_stream := s\<rparr>)
   | (Inr buffer, s) \<Rightarrow>
       let header = \<lparr>ivf_signature = take 4 buffer,
             ivf_version = get_le16 (slice 4 6 buffer), ivf_headerSize = get_le16 (slice 6 8 buffer),
             FourCC = slice 8 12 buffer,
             Width = get_le16 (slice 12 14 buffer), Height = get_le16 (slice 14 16 buffer),
             TimebaseDenominator = get_le32 (slice 16 20 buffer), TimebaseNumerator = get_le32 (slice 20 24 buffer),
             NumFrames = get_le32 (slice 24 28 buffer), ivf_unused = get_le32 (slice 28 32 buffer)\<rparr>;
           i1 = i\<lparr>ivf_stream := s\<rparr> in
       if ivf_signature header \<noteq> ivfFileHeaderSignature then (Inl (Err errSignatureMismatch), i1)
       else if ivf_version header \<noteq> 0 then (Inl (Errorf errUnknownIVFVersion ''%w: expected(0) got(%d)''), i1)
       else (Inr header, i1\<lparr>bytesReadSuccesfully := i64 (bytesReadSuccesfully i1 + int (length buffer))\<rparr>))"

definition ivf_NewWith :: "stream option \<Rightarrow> ivf_option list \<Rightarrow> ivf_error + IVFReader \<times> IVFFileHeader" where
  "ivf_NewWith input opts = (case input of
     None \<Rightarrow> Inl (Err errNilStream)
   | Some s \<Rightarrow>
       let reader = \<lparr>ivf_stream = s, bytesReadSuccesfully = 0, timebaseDenominator = 0, timebaseNumerator = 0,
                     maxFrameSize = push_bit 20 64\<rparr>;
           reader1 = fold (\<lambda>opt r. opt r) opts reader in
       (case parseFileHeader reader1 of
          (Inl e, _) \<Rightarrow> Inl e
        | (Inr header, reader2) \<Rightarrow>
            if TimebaseDenominator header = 0 \<or> TimebaseNumerator header = 0 then Inl (Err errInvalidMediaTimebase)
            else Inr (reader2\<lparr>timebaseDenominator := TimebaseDenominator header,
                              timebaseNumerator := TimebaseNumerator header\<rparr>, header)))"

definition ResetReader :: "(int \<Rightarrow> stream) \<Rightarrow> IVFReader \<Rightarrow> IVFReader" where
  "ResetReader reset i = i\<lparr>ivf_stream := reset (bytesReadSuccesfully i)\<rparr>"

definition ptsToTimestamp :: "IVFReader \<Rightarrow> u64 \<Rightarrow> u64" where
  "ptsToTimestamp i pts = pts * to64 (timebaseDenominator i) div to64 (timebaseNumerator i)"

definition ParseNextFrame :: "IVFReader \<Rightarrow> (ivf_error + bytes \<times> IVFFrameHeader) \<times> IVFReader" where
  "ParseNextFrame i = (case ReadFull ivfFrameHeaderSize (ivf_stream i) of
     (Inl e, s) \<Rightarrow> (Inl (if e = ErrUnexpectedEOF then Err errIncompleteFrameHeader else e), i\<lparr>ivf_stream := s\<rparr>)
   | (Inr buffer, s) \<Rightarrow>
       let pts = get_le64 (slice 4 12 buffer);
           header = \<lparr>FrameSize = get_le32 (take 4 buffer), ivf_Timestamp = ptsToTimestamp i pts\<rparr> in
       if FrameSize header > maxFrameSize i \<or> to64 (FrameSize header) > 0x7FFFFFFFFFFFFFFF
       then (Inl (Err errFrameTooLarge), i\<lparr>ivf_stream := s\<rparr>)
       else (case ReadFull (unat (FrameSize header)) s of
           (Inl e, s1) \<Rightarrow> (Inl (if e = ErrUnexpectedEOF then Err errIncompleteFrameData else e), i\<lparr>ivf_stream := s1\<rparr>)
         | (Inr payload, s1) \<Rightarrow>
             (Inr (payload, header),
              i\<lparr>ivf_stream := s1,
                bytesReadSuccesfully := i64 (bytesReadSuccesfully i + i64 (int (length buffer) + int (length payload)))\<rparr>)))"

section \<open>Frames\<close>

text \<open>A frame as the file holds it: its bytes and its presentation time in units of the time base.\<close>

definition frame_bytes :: "bytes \<times> u64 \<Rightarrow> bytes" where
  "frame_bytes f = le32 (of_nat (length (fst f))) @ le64 (snd f) @ fst f"

definition frame_out :: "IVFReader \<Rightarrow> bytes \<times> u64 \<Rightarrow> bytes \<times> IVFFrameHeader" where
  "frame_out i f = (fst f, \<lparr>FrameSize = of_nat (length (fst f)), ivf_Timestamp = ptsToTimestamp i (snd f)\<rparr>)"

definition frame_fits :: "IVFReader \<Rightarrow> bytes \<times> u64 \<Rightarrow> bool" where
  "frame_fits i f \<longleftrightarrow> length (fst f) \<le> unat (maxFrameSize i)"

definition frame_after :: "bytes \<times> u64 \<Rightarrow> IVFReader \<Rightarrow> IVFReader" where
  "frame_after f i = i\<lparr>bytesReadSuccesfully := i64 (bytesReadSuccesfully i + int (length (frame_bytes f)))\<rparr>"

definition at_data :: "bytes \<Rightarrow> IVFReader \<Rightarrow> IVFReader" where
  "at_data d i = i\<lparr>ivf_stream := (ivf_stream i)\<lparr>st_data := d\<rparr>\<rparr>"

abbreviation ivf_ReadFull :: "nat \<Rightarrow> stream \<Rightarrow> (ivf_error + bytes) \<times> stream" where
  "ivf_ReadFull \<equiv> ReadFull"

lemma length_frame_bytes: "length (frame_bytes f) = 12 + length (fst f)"
  by (simp add: frame_bytes_def)

lemma frame_header_fields:
  "take 4 (le32 a @ le64 b) = le32 a" "slice 4 12 (le32 a @ le64 b) = le64 b"
  by (simp_all add: slice_def)

lemma frame_fits_size:
  assumes "frame_fits i f"
  shows "unat (of_nat (length (fst f)) :: u32) = length (fst f)" "\<not> (of_nat (length (fst f)) :: u32) > maxFrameSize i"
    "\<not> (to64 (of_nat (length (fst f)) :: u32)) > 0x7FFFFFFFFFFFFFFF"
proof -
  have "unat (maxFrameSize i) < 2 ^ 32" using unsigned_less[of "maxFrameSize i", where ?'a = nat] by simp
  then have l: "length (fst f) < 2 ^ 32" using assms by (simp add: frame_fits_def)
  show u: "unat (of_nat (length (fst f)) :: u32) = length (fst f)"
    using l by (simp add: unat_of_nat take_bit_nat_eq_self)
  show "\<not> (of_nat (length (fst f)) :: u32) > maxFrameSize i" using assms by (simp add: word_less_nat_alt u frame_fits_def)
  show "\<not> (to64 (of_nat (length (fst f)) :: u32)) > 0x7FFFFFFFFFFFFFFF"
  proof -
    have "unat (to64 (of_nat (length (fst f)) :: u32)) = length (fst f)"
      using l by (simp add: unsigned_ucast_eq u take_bit_nat_eq_self)
    then show ?thesis using l by (simp add: word_less_nat_alt)
  qed
qed

lemma ReadFull_frame_header:
  "ivf_ReadFull ivfFrameHeaderSize (s\<lparr>st_data := le32 a @ le64 b @ r\<rparr>) = (Inr (le32 a @ le64 b), s\<lparr>st_data := r\<rparr>)"
  by (subst ReadFull_append[where a = "le32 a @ le64 b" and r = r]) (simp_all add: ivfFrameHeaderSize_def)

interpretation ivf: framed_stream frame_bytes frame_fits ParseNextFrame frame_out at_data frame_after
proof unfold_locales
  fix i f r
  assume fits: "frame_fits i f"
  note sz = frame_fits_size[OF fits]
  let ?n = "of_nat (length (fst f)) :: u32"
  have 1: "ivf_ReadFull ivfFrameHeaderSize ((ivf_stream i)\<lparr>st_data := frame_bytes f @ r\<rparr>) =
      (Inr (le32 ?n @ le64 (snd f)), (ivf_stream i)\<lparr>st_data := fst f @ r\<rparr>)"
    using ReadFull_frame_header[where s = "ivf_stream i" and a = ?n and b = "snd f" and r = "fst f @ r"] by (simp add: frame_bytes_def)
  have 2: "ivf_ReadFull (length (fst f)) ((ivf_stream i)\<lparr>st_data := fst f @ r\<rparr>) = (Inr (fst f), (ivf_stream i)\<lparr>st_data := r\<rparr>)"
    by (subst ReadFull_append[where a = "fst f" and r = r]) simp_all
  have b: "i64 (12 + int (length (fst f))) = 12 + int (length (fst f))"
  proof -
    have "unat (maxFrameSize i) < 2 ^ 32" using unsigned_less[of "maxFrameSize i", where ?'a = nat] by simp
    then show ?thesis using fits by (intro i64_id) (simp_all add: frame_fits_def)
  qed
  have hd: "get_le32 (le32 ?n) = ?n" "get_le64 (le64 (snd f)) = snd f"
    using get_le32_le32[of ?n "[]"] get_le64_le64[of "snd f" "[]"] by simp_all
  show "ParseNextFrame (at_data (frame_bytes f @ r) i) = (Inr (frame_out i f), at_data r (frame_after f i))"
    unfolding ParseNextFrame_def at_data_def
    using sz 1 2 b
    by (simp add: frame_header_fields hd Let_def frame_out_def frame_after_def ptsToTimestamp_def length_frame_bytes)
qed (simp_all add: frame_out_def frame_after_def frame_fits_def ptsToTimestamp_def)

section \<open>The file header\<close>

definition file_header_bytes :: "bytes \<Rightarrow> u16 \<Rightarrow> u16 \<Rightarrow> u32 \<Rightarrow> u32 \<Rightarrow> u32 \<Rightarrow> bytes" where
  "file_header_bytes fourcc w h den num frames =
     str ''DKIF'' @ le16 0 @ le16 32 @ fourcc @ le16 w @ le16 h @ le32 den @ le32 num @ le32 frames @ le32 0"

lemma parse_file_header:
  assumes "length fourcc = 4" "den \<noteq> 0" "num \<noteq> 0"
  shows "ivf_NewWith (Some \<lparr>st_data = file_header_bytes fourcc w h den num frames @ d, st_end = e\<rparr>) [] =
    Inr (\<lparr>ivf_stream = \<lparr>st_data = d, st_end = e\<rparr>, bytesReadSuccesfully = 32, timebaseDenominator = den,
          timebaseNumerator = num, maxFrameSize = 0x4000000\<rparr>,
         \<lparr>ivf_signature = str ''DKIF'', ivf_version = 0, ivf_headerSize = 32, FourCC = fourcc, Width = w, Height = h,
          TimebaseDenominator = den, TimebaseNumerator = num, NumFrames = frames, ivf_unused = 0\<rparr>)"
proof -
  let ?b = "file_header_bytes fourcc w h den num frames"
  have len: "length ?b = 32" using assms(1) by (simp add: file_header_bytes_def str_def)
  have 1: "ivf_ReadFull ivfFileHeaderSize \<lparr>st_data = ?b @ d, st_end = e\<rparr> = (Inr ?b, \<lparr>st_data = d, st_end = e\<rparr>)"
    using ReadFull_append[of "\<lparr>st_data = ?b @ d, st_end = e\<rparr>" ?b d 32] len by (simp add: ivfFileHeaderSize_def)
  have f: "take 4 ?b = str ''DKIF''" "slice 4 6 ?b = le16 0" "slice 6 8 ?b = le16 32" "slice 8 12 ?b = fourcc"
    "slice 12 14 ?b = le16 w" "slice 14 16 ?b = le16 h" "slice 16 20 ?b = le32 den" "slice 20 24 ?b = le32 num"
    "slice 24 28 ?b = le32 frames" "slice 28 32 ?b = le32 0"
    using assms(1) by (simp_all add: file_header_bytes_def slice_def str_def)
  have g: "get_le16 (le16 x) = x" "get_le32 (le32 y) = y" for x y
    using get_le16_le16[of x "[]"] get_le32_le32[of y "[]"] by simp_all
  show ?thesis
    unfolding ivf_NewWith_def option.case fold_simps Let_def parseFileHeader_def IVFReader.simps 1 prod.case sum.case f g
    using assms len by (simp add: ivfFileHeaderSignature_def)
qed

section \<open>Truncated and growing files\<close>

lemma ParseNextFrame_fails:
  assumes "ParseNextFrame i = (Inl e, i')"
  shows "i' = i\<lparr>ivf_stream := ivf_stream i'\<rparr>"
  using assms by (auto simp: ParseNextFrame_def Let_def split: prod.splits sum.splits if_splits)

lemma ParseNextFrame_truncated:
  assumes "frame_fits i f" "k < length (frame_bytes f)"
  shows "fst (ParseNextFrame (i\<lparr>ivf_stream := \<lparr>st_data = take k (frame_bytes f), st_end = None\<rparr>\<rparr>)) =
    Inl (if k = 0 \<or> k = 12 then EOF else if k < 12 then Err errIncompleteFrameHeader else Err errIncompleteFrameData)"
proof (cases "k < 12")
  case True
  then show ?thesis using assms(2) by (auto simp: ParseNextFrame_def ReadFull_def ivfFrameHeaderSize_def end_error_def)
next
  case False
  note sz = frame_fits_size[OF assms(1)]
  let ?n = "of_nat (length (fst f)) :: u32"
  have tk: "take k (frame_bytes f) = le32 ?n @ le64 (snd f) @ take (k - 12) (fst f)" using False by (simp add: frame_bytes_def)
  have 1: "ivf_ReadFull ivfFrameHeaderSize \<lparr>st_data = take k (frame_bytes f), st_end = None\<rparr> =
      (Inr (le32 ?n @ le64 (snd f)), \<lparr>st_data = take (k - 12) (fst f), st_end = None\<rparr>)"
    unfolding tk using ReadFull_frame_header[where s = "\<lparr>st_data = [], st_end = None\<rparr>" and a = ?n and b = "snd f" and r = "take (k - 12) (fst f)"]
    by simp
  have short: "k - 12 < length (fst f)" using assms(2) False by (simp add: length_frame_bytes)
  have 2: "fst (ivf_ReadFull (length (fst f)) \<lparr>st_data = take (k - 12) (fst f), st_end = None\<rparr>) =
      Inl (if k = 12 then EOF else ErrUnexpectedEOF)"
    using short False by (auto simp: ReadFull_def end_error_def)
  have hd: "get_le32 (le32 ?n) = ?n" using get_le32_le32[of ?n "[]"] by simp
  show ?thesis unfolding ParseNextFrame_def using 1 2 sz False
    by (cases "ivf_ReadFull (length (fst f)) \<lparr>st_data = take (k - 12) (fst f), st_end = None\<rparr>")
       (auto simp: frame_header_fields hd Let_def)
qed

interpretation ivf_cut: cut_stream frame_bytes frame_fits ParseNextFrame frame_out at_data frame_after
  "\<lambda>i. st_end (ivf_stream i) = None"
  "\<lambda>_ k. if k = 0 \<or> k = 12 then EOF else if k < 12 then Err errIncompleteFrameHeader else Err errIncompleteFrameData"
proof unfold_locales
  fix i :: IVFReader and f k
  show "(st_end (ivf_stream (frame_after f i)) = None) = (st_end (ivf_stream i) = None)" by (simp add: frame_after_def)
  assume a: "st_end (ivf_stream i) = None"
  then show "fst (ParseNextFrame (at_data [] i)) = Inl EOF"
    by (simp add: ParseNextFrame_def at_data_def ReadFull_end ivfFrameHeaderSize_def end_error_def)
  have "at_data d i = i\<lparr>ivf_stream := \<lparr>st_data = d, st_end = None\<rparr>\<rparr>" for d using a by (cases "ivf_stream i") (simp add: at_data_def)
  moreover assume "frame_fits i f" "k < length (frame_bytes f)"
  ultimately show "fst (ParseNextFrame (at_data (take k (frame_bytes f)) i)) =
      Inl (if k = 0 \<or> k = 12 then EOF else if k < 12 then Err errIncompleteFrameHeader else Err errIncompleteFrameData)"
    using ParseNextFrame_truncated[of i f k] by simp
qed

lemma bytesRead_fold:
  assumes "0 \<le> bytesReadSuccesfully i" "bytesReadSuccesfully i + int (length (concat (map frame_bytes fs))) < 2 ^ 63"
  shows "fold frame_after fs i =
    i\<lparr>bytesReadSuccesfully := bytesReadSuccesfully i + int (length (concat (map frame_bytes fs)))\<rparr>"
  using assms
proof (induction fs arbitrary: i)
  case (Cons f fs)
  have e: "frame_after f i = i\<lparr>bytesReadSuccesfully := bytesReadSuccesfully i + int (length (frame_bytes f))\<rparr>"
    using Cons.prems unfolding frame_after_def by (subst i64_id) simp_all
  then have "fold frame_after fs (frame_after f i) = (frame_after f i)\<lparr>bytesReadSuccesfully :=
      bytesReadSuccesfully (frame_after f i) + int (length (concat (map frame_bytes fs)))\<rparr>"
    using Cons.prems by (intro Cons.IH) simp_all
  then show ?case by (simp add: e)
qed simp

text \<open>
  C34: A growing file can be followed. The reader returns the complete frames, fails at the incomplete one,
  and after \<open>ResetReader\<close> with a source positioned at the offset it is given goes on with exactly that
  frame, from any cut inside it.
\<close>

theorem ivf_resume:
  assumes "bytesReadSuccesfully i = int (length pre)" "list_all (frame_fits i) fs" "frame_fits i f"
    and "k < length (frame_bytes f)" "int (length (pre @ concat (map frame_bytes fs))) < 2 ^ 63"
    and "ivf_stream i = \<lparr>st_data = concat (map frame_bytes fs) @ take k (frame_bytes f), st_end = None\<rparr>"
    and "file = pre @ concat (map frame_bytes fs) @ frame_bytes f @ rest"
  shows "\<exists>i1 e i2 i3. reads ParseNextFrame i (map (frame_out i) fs) i1 \<and> ParseNextFrame i1 = (Inl e, i2) \<and>
    ParseNextFrame (ResetReader (\<lambda>n. \<lparr>st_data = drop (nat n) file, st_end = None\<rparr>) i2) = (Inr (frame_out i f), i3)"
proof -
  let ?all = "concat (map frame_bytes fs)"
  define j where "j = fold frame_after fs i"
  have j: "j = i\<lparr>bytesReadSuccesfully := int (length (pre @ ?all))\<rparr>"
    using bytesRead_fold[of i fs] assms(1,5) by (simp add: j_def)
  define i1 where "i1 = at_data (take k (frame_bytes f)) j"
  have "at_data (?all @ take k (frame_bytes f)) i = i" using assms(6) by (simp add: at_data_def)
  then have r: "reads ParseNextFrame i (map (frame_out i) fs) i1"
    using ivf.reads_all[OF assms(2), of "take k (frame_bytes f)"] by (simp add: i1_def j_def)
  have "i1 = j\<lparr>ivf_stream := \<lparr>st_data = take k (frame_bytes f), st_end = None\<rparr>\<rparr>"
    using assms(6) by (simp add: i1_def at_data_def j)
  moreover have "frame_fits j f" using assms(3) by (simp add: j frame_fits_def)
  ultimately obtain e i2 where fail: "ParseNextFrame i1 = (Inl e, i2)"
    using ParseNextFrame_truncated[of j f k] assms(4) by (cases "ParseNextFrame i1") auto
  have i2: "i2 = i1\<lparr>ivf_stream := ivf_stream i2\<rparr>" using ParseNextFrame_fails[OF fail] .
  then have b: "bytesReadSuccesfully i2 = int (length (pre @ ?all))"
    by (metis IVFReader.select_convs(2) IVFReader.surjective IVFReader.update_convs(1) at_data_def i1_def j IVFReader.update_convs(2))
  have "drop (nat (int (length (pre @ ?all)))) file = frame_bytes f @ rest" by (simp add: assms(7))
  then have "ResetReader (\<lambda>n. \<lparr>st_data = drop (nat n) file, st_end = None\<rparr>) i2 = at_data (frame_bytes f @ rest) (at_data [] j)"
    using assms(6) unfolding ResetReader_def b by (subst i2) (simp add: i1_def at_data_def j)
  moreover have "frame_fits (at_data [] j) f" "frame_out (at_data [] j) f = frame_out i f"
    using assms(3) by (simp_all add: j frame_fits_def frame_out_def ptsToTimestamp_def at_data_def)
  ultimately show ?thesis using r fail ivf.step_enc[of "at_data [] j" f rest] by metis
qed

end
