(* ===== verification/IvfWriter.thy ===== *)
theory IvfWriter
  imports IvfReader
begin

text \<open>
  The IVF writer, \<open>ivfwriter/ivfwriter.go\<close>. The RTP payload formats it takes apart live in
  \<open>github.com/pion/rtp\<close>; they are an argument of the model, the record \<open>ivf_codecs\<close>. The field
  \<open>ioWriter\<close> is nil after \<open>Close\<close>; here the flag \<open>is_open\<close> says so, and the output is kept so that
  its content can be spoken about. A nil slice and an empty one are both \<open>[]\<close>: \<open>append\<close> makes
  \<open>currentFrame\<close> non-nil exactly when it has bytes. Packets are not nil.
\<close>

section \<open>The payload formats\<close>

text \<open>
  \<open>vp8_Unmarshal\<close> gives the payload and the \<open>S\<close> bit, \<open>vp9_Unmarshal\<close> the payload and the bits \<open>P\<close> and
  \<open>B\<close>; an AV1 depacketizer has a state of type \<open>'d\<close>. A failure is an error number of that package.
\<close>

record 'd ivf_codecs =
  vp8_Unmarshal :: "bytes \<Rightarrow> nat + bytes \<times> u8"
  vp9_Unmarshal :: "bytes \<Rightarrow> nat + bytes \<times> bool \<times> bool"
  av1_New :: 'd
  av1_Unmarshal :: "bytes \<Rightarrow> 'd \<Rightarrow> (nat + bytes) \<times> 'd"
  av1_N :: "'d \<Rightarrow> bool"
  OBUSequenceHeader :: u8
  delimiter_Marshal :: bytes

record rtp_packet =
  pkt_Timestamp :: u32
  pkt_Marker :: bool
  pkt_Payload :: bytes

section \<open>State and options\<close>

datatype ivfwriter_error =
    errFileNotOpened | errInvalidNilPacket | errCodecUnset | errCodecAlreadySet | errNoSuchCodec
  | errInvalidMediaTimebase_w | errCodecs nat

type_synonym ivfw_error = "ivfwriter_error error"

datatype ivf_codec = codecUnset | codecVP8 | codecVP9 | codecAV1

definition mimeTypeVP8 :: string where "mimeTypeVP8 = ''video/VP8''"
definition mimeTypeVP9 :: string where "mimeTypeVP9 = ''video/VP9''"
definition mimeTypeAV1 :: string where "mimeTypeAV1 = ''video/AV1''"

record 'd IVFWriter =
  ioWriter :: sink
  is_open :: bool
  frame_count :: u64
  seenKeyFrame :: bool
  iw_codec :: ivf_codec
  w_timebaseDenominator :: u32
  w_timebaseNumerator :: u32
  firstFrameTimestamp :: u32
  clockRate :: u64
  videoWidth :: u16
  videoHeight :: u16
  directPTS :: bool
  currentFrame :: bytes
  av1Depacketizer :: "'d option"

type_synonym 'd ivfw_option = "'d IVFWriter \<Rightarrow> ivfw_error option \<times> 'd IVFWriter"

definition WithCodec :: "string \<Rightarrow> 'd ivfw_option" where
  "WithCodec mimeType i =
     (if iw_codec i \<noteq> codecUnset then (Some (Err errCodecAlreadySet), i)
      else if mimeType = mimeTypeVP8 then (None, i\<lparr>iw_codec := codecVP8\<rparr>)
      else if mimeType = mimeTypeVP9 then (None, i\<lparr>iw_codec := codecVP9\<rparr>)
      else if mimeType = mimeTypeAV1 then (None, i\<lparr>iw_codec := codecAV1\<rparr>)
      else (Some (Err errNoSuchCodec), i))"

definition WithWidthAndHeight :: "u16 \<Rightarrow> u16 \<Rightarrow> 'd ivfw_option" where
  "WithWidthAndHeight width height i = (None, i\<lparr>videoWidth := width, videoHeight := height\<rparr>)"

definition WithFrameRate :: "u32 \<Rightarrow> u32 \<Rightarrow> 'd ivfw_option" where
  "WithFrameRate numerator denominator i =
     (None, i\<lparr>w_timebaseNumerator := numerator, w_timebaseDenominator := denominator\<rparr>)"

definition WithDirectPTS :: "'d ivfw_option" where
  "WithDirectPTS i = (None, i\<lparr>directPTS := True\<rparr>)"

fun ivfw_apply_options :: "'d ivfw_option list \<Rightarrow> 'd IVFWriter \<Rightarrow> ivfw_error option \<times> 'd IVFWriter" where
  "ivfw_apply_options [] i = (None, i)"
| "ivfw_apply_options (opt # opts) i = (case opt i of
     (Some e, i1) \<Rightarrow> (Some e, i1)
   | (None, i1) \<Rightarrow> ivfw_apply_options opts i1)"

section \<open>Construction\<close>

definition fourCC :: "ivf_codec \<Rightarrow> bytes option" where
  "fourCC c = (case c of
     codecVP8 \<Rightarrow> Some (str ''VP80'') | codecVP9 \<Rightarrow> Some (str ''VP90'') | codecAV1 \<Rightarrow> Some (str ''AV01'')
   | codecUnset \<Rightarrow> None)"

definition writeHeader :: "'d IVFWriter \<Rightarrow> ivfw_error option \<times> 'd IVFWriter" where
  "writeHeader i = (case fourCC (iw_codec i) of
     None \<Rightarrow> (Some (Err errCodecUnset), i)
   | Some cc \<Rightarrow>
       let header = str ''DKIF'' @ le16 0 @ le16 32 @ cc @ le16 (videoWidth i) @ le16 (videoHeight i)
             @ le32 (w_timebaseDenominator i) @ le32 (w_timebaseNumerator i) @ le32 900 @ le32 0 in
       (case Write header (ioWriter i) of (err, d) \<Rightarrow> (err, i\<lparr>ioWriter := d\<rparr>)))"

definition initial_ivfwriter :: "sink \<Rightarrow> 'd IVFWriter" where
  "initial_ivfwriter out = \<lparr>ioWriter = out, is_open = True, frame_count = 0, seenKeyFrame = False, iw_codec = codecUnset,
     w_timebaseDenominator = 30, w_timebaseNumerator = 1, firstFrameTimestamp = 0, clockRate = 90000,
     videoWidth = 640, videoHeight = 480, directPTS = False, currentFrame = [], av1Depacketizer = None\<rparr>"

text \<open>On failure the caller has no writer; the output is returned all the same.\<close>

definition ivfw_NewWith :: "sink option \<Rightarrow> 'd ivfw_option list \<Rightarrow> (ivfw_error \<times> sink option) + 'd IVFWriter" where
  "ivfw_NewWith out opts = (case out of
     None \<Rightarrow> Inl (Err errFileNotOpened, None)
   | Some d \<Rightarrow> (case ivfw_apply_options opts (initial_ivfwriter d) of
       (Some e, i) \<Rightarrow> Inl (e, Some (ioWriter i))
     | (None, i) \<Rightarrow>
         let i1 = (if iw_codec i = codecUnset then i\<lparr>iw_codec := codecVP8\<rparr> else i) in
         if w_timebaseDenominator i1 = 0 \<or> w_timebaseNumerator i1 = 0
         then Inl (Err errInvalidMediaTimebase_w, Some (ioWriter i1))
         else (case writeHeader i1 of
             (Some e, i2) \<Rightarrow> Inl (e, Some (ioWriter i2))
           | (None, i2) \<Rightarrow> Inr i2)))"

text \<open>\<open>New\<close> with the result of \<open>os.Create\<close> as its argument.\<close>

definition ivfw_New :: "ivfw_error + sink \<Rightarrow> 'd ivfw_option list \<Rightarrow> ivfw_error + 'd IVFWriter" where
  "ivfw_New created opts = (case created of
     Inl e \<Rightarrow> Inl e
   | Inr file \<Rightarrow> (case ivfw_NewWith (Some file) opts of
       Inl (e, d) \<Rightarrow>
         (case errors_Join (Some e) (case d of None \<Rightarrow> None | Some f \<Rightarrow> fst (Close f)) of
            Some j \<Rightarrow> Inl j | None \<Rightarrow> Inl e)
     | Inr w \<Rightarrow> Inr w))"

section \<open>Frames\<close>

definition timestampToPts :: "'d IVFWriter \<Rightarrow> u64 \<Rightarrow> u64" where
  "timestampToPts i timestamp = timestamp * to64 (w_timebaseNumerator i) div to64 (w_timebaseDenominator i)"

definition writeFrame :: "bytes \<Rightarrow> u64 \<Rightarrow> 'd IVFWriter \<Rightarrow> ivfw_error option \<times> 'd IVFWriter" where
  "writeFrame frame timestamp i =
     (let pts = (if directPTS i then timestamp else timestampToPts i timestamp);
          frameHeader = le32 (of_nat (length frame)) @ le64 pts;
          i1 = i\<lparr>frame_count := frame_count i + 1\<rparr> in
      case Write frameHeader (ioWriter i1) of
        (Some e, d) \<Rightarrow> (Some e, i1\<lparr>ioWriter := d\<rparr>)
      | (None, d) \<Rightarrow> (case Write frame d of (err, d1) \<Rightarrow> (err, i1\<lparr>ioWriter := d1\<rparr>)))"

definition writeVP8 :: "'d ivf_codecs \<Rightarrow> rtp_packet \<Rightarrow> u64 \<Rightarrow> 'd IVFWriter \<Rightarrow> ivfw_error option \<times> 'd IVFWriter" where
  "writeVP8 c packet timestamp i = (case vp8_Unmarshal c (pkt_Payload packet) of
     Inl e \<Rightarrow> (Some (Err (errCodecs e)), i)
   | Inr (payload, S) \<Rightarrow>
       if length payload = 0 then (None, i)
       else let isKeyFrame = (payload ! 0 AND 0x01 = 0) in
       if \<not> seenKeyFrame i \<and> \<not> isKeyFrame then (None, i)
       else if currentFrame i = [] \<and> S \<noteq> 1 then (None, i)
       else let i1 = i\<lparr>seenKeyFrame := True, currentFrame := currentFrame i @ payload\<rparr> in
       if \<not> pkt_Marker packet then (None, i1)
       else if length (currentFrame i1) = 0 then (None, i1)
       else (case writeFrame (currentFrame i1) timestamp i1 of
           (Some e, i2) \<Rightarrow> (Some e, i2)
         | (None, i2) \<Rightarrow> (None, i2\<lparr>currentFrame := []\<rparr>)))"

definition writeVP9 :: "'d ivf_codecs \<Rightarrow> rtp_packet \<Rightarrow> u64 \<Rightarrow> 'd IVFWriter \<Rightarrow> ivfw_error option \<times> 'd IVFWriter" where
  "writeVP9 c packet timestamp i = (case vp9_Unmarshal c (pkt_Payload packet) of
     Inl e \<Rightarrow> (Some (Err (errCodecs e)), i)
   | Inr (payload, P, B) \<Rightarrow>
       if \<not> seenKeyFrame i \<and> P then (None, i)
       else if currentFrame i = [] \<and> \<not> B then (None, i)
       else let i1 = i\<lparr>seenKeyFrame := True, currentFrame := currentFrame i @ payload\<rparr> in
       if \<not> pkt_Marker packet then (None, i1)
       else if length (currentFrame i1) = 0 then (None, i1)
       else (case writeFrame (currentFrame i1) timestamp i1 of
           (Some e, i2) \<Rightarrow> (Some e, i2)
         | (None, i2) \<Rightarrow> (None, i2\<lparr>currentFrame := []\<rparr>)))"

definition writeAV1 :: "'d ivf_codecs \<Rightarrow> rtp_packet \<Rightarrow> u64 \<Rightarrow> 'd IVFWriter \<Rightarrow> ivfw_error option \<times> 'd IVFWriter" where
  "writeAV1 c packet timestamp i =
     (let dep0 = (case av1Depacketizer i of None \<Rightarrow> av1_New c | Some d \<Rightarrow> d) in
      case av1_Unmarshal c (pkt_Payload packet) dep0 of
        (Inl e, dep) \<Rightarrow> (Some (Err (errCodecs e)), i\<lparr>av1Depacketizer := Some dep\<rparr>)
      | (Inr payload, dep) \<Rightarrow>
          let i1 = i\<lparr>av1Depacketizer := Some dep\<rparr>;
              isKeyFrame = (av1_N c dep \<or>
                (length payload > 0 \<and> drop_bit 3 (payload ! 0 AND 0x78) = OBUSequenceHeader c)) in
          if \<not> seenKeyFrame i1 \<and> \<not> isKeyFrame then (None, i1)
          else let i2 = i1\<lparr>seenKeyFrame := True, currentFrame := currentFrame i1 @ payload\<rparr> in
          if \<not> pkt_Marker packet then (None, i2)
          else (case writeFrame (delimiter_Marshal c @ [0] @ currentFrame i2) timestamp i2 of
              (Some e, i3) \<Rightarrow> (Some e, i3)
            | (None, i3) \<Rightarrow> (None, i3\<lparr>currentFrame := []\<rparr>)))"

definition ivfw_WriteRTP :: "'d ivf_codecs \<Rightarrow> rtp_packet \<Rightarrow> 'd IVFWriter \<Rightarrow> ivfw_error option \<times> 'd IVFWriter" where
  "ivfw_WriteRTP c packet i =
     (if \<not> is_open i then (Some (Err errFileNotOpened), i)
      else if length (pkt_Payload packet) = 0 then (None, i)
      else let
        i1 = (if frame_count i = 0 then i\<lparr>firstFrameTimestamp := pkt_Timestamp packet\<rparr> else i);
        diff = to64 (pkt_Timestamp packet - firstFrameTimestamp i1);
        timestamp = (if directPTS i1 then diff else 1000 * diff div clockRate i1) in
      (case iw_codec i1 of
         codecVP8 \<Rightarrow> writeVP8 c packet timestamp i1
       | codecVP9 \<Rightarrow> writeVP9 c packet timestamp i1
       | codecAV1 \<Rightarrow> writeAV1 c packet timestamp i1
       | codecUnset \<Rightarrow> (Some (Err errCodecUnset), i1)))"

section \<open>Closing\<close>

text \<open>The frame count that \<open>Close\<close> puts into the header of an output that can seek.\<close>

definition update_frame_count :: "u64 \<Rightarrow> sink \<Rightarrow> ivfw_error option \<times> sink" where
  "update_frame_count n d =
     (if \<not> can_seek d then (None, d)
      else (case SeekStart 24 d of
          (Some e, d1) \<Rightarrow> (Some e, d1)
        | (None, d1) \<Rightarrow> Write (le32 (to32 n)) d1))"

definition ivfw_Close :: "'d IVFWriter \<Rightarrow> ivfw_error option \<times> 'd IVFWriter" where
  "ivfw_Close i =
     (if \<not> is_open i then (None, i)
      else (case update_frame_count (frame_count i) (ioWriter i) of (err, d) \<Rightarrow>
        if can_close d
        then (case Close d of (cerr, d1) \<Rightarrow> (errors_Join err cerr, i\<lparr>ioWriter := d1, is_open := False\<rparr>))
        else (err, i\<lparr>ioWriter := d, is_open := False\<rparr>)))"

section \<open>Frames from packets\<close>

fun run_rtp :: "'d ivf_codecs \<Rightarrow> rtp_packet list \<Rightarrow> 'd IVFWriter \<Rightarrow> ivfw_error option \<times> 'd IVFWriter" where
  "run_rtp c [] i = (None, i)"
| "run_rtp c (p # ps) i = (case ivfw_WriteRTP c p i of
     (Some e, i1) \<Rightarrow> (Some e, i1)
   | (None, i1) \<Rightarrow> run_rtp c ps i1)"

lemma run_rtp_append:
  "run_rtp c (ps @ qs) i = (case run_rtp c ps i of (Some e, i1) \<Rightarrow> (Some e, i1) | (None, i1) \<Rightarrow> run_rtp c qs i1)"
  by (induction ps arbitrary: i) (auto split: prod.splits option.splits)

text \<open>The time origin and the time a packet has, as \<open>WriteRTP\<close> computes them.\<close>

definition stamp :: "rtp_packet \<Rightarrow> 'd IVFWriter \<Rightarrow> 'd IVFWriter" where
  "stamp p i = (if frame_count i = 0 then i\<lparr>firstFrameTimestamp := pkt_Timestamp p\<rparr> else i)"

definition rtp_time :: "bool \<Rightarrow> u64 \<Rightarrow> u32 \<Rightarrow> u32 \<Rightarrow> u64" where
  "rtp_time direct rate base t = (if direct then to64 (t - base) else 1000 * to64 (t - base) div rate)"

definition frame_pts :: "'d IVFWriter \<Rightarrow> u32 \<Rightarrow> u32 \<Rightarrow> u64" where
  "frame_pts i base t = (let ts = rtp_time (directPTS i) (clockRate i) base t in
     if directPTS i then ts else timestampToPts i ts)"

definition same_format :: "'d IVFWriter \<Rightarrow> 'd IVFWriter \<Rightarrow> bool" where
  "same_format i j \<longleftrightarrow> directPTS j = directPTS i \<and> clockRate j = clockRate i \<and>
     w_timebaseNumerator j = w_timebaseNumerator i \<and> w_timebaseDenominator j = w_timebaseDenominator i \<and>
     iw_codec j = iw_codec i \<and> is_open j = is_open i \<and> can_seek (ioWriter j) = can_seek (ioWriter i) \<and>
     can_close (ioWriter j) = can_close (ioWriter i)"

lemma same_format_trans: "same_format a b \<Longrightarrow> same_format b c \<Longrightarrow> same_format a c"
  by (simp add: same_format_def)

lemma same_format_pts: "same_format i j \<Longrightarrow> frame_pts j base t = frame_pts i base t"
  by (simp add: same_format_def frame_pts_def timestampToPts_def Let_def)

abbreviation ivfw_Write :: "bytes \<Rightarrow> sink \<Rightarrow> ivfw_error option \<times> sink" where
  "ivfw_Write \<equiv> Write"

lemma writeFrame_healthy:
  assumes "healthy (ioWriter i)"
  shows "\<exists>d. writeFrame frame ts i = (None, i\<lparr>frame_count := frame_count i + 1, ioWriter := d\<rparr>) \<and> healthy d \<and>
    content d = content (ioWriter i) @ frame_bytes (frame, if directPTS i then ts else timestampToPts i ts) \<and>
    can_seek d = can_seek (ioWriter i) \<and> can_close d = can_close (ioWriter i)"
proof -
  let ?h = "le32 (of_nat (length frame)) @ le64 (if directPTS i then ts else timestampToPts i ts)"
  define d1 where "d1 = (ioWriter i)\<lparr>content := content (ioWriter i) @ ?h, pos := pos (ioWriter i) + length ?h, plan := tl (plan (ioWriter i))\<rparr>"
  define d2 where "d2 = d1\<lparr>content := content d1 @ frame, pos := pos d1 + length frame, plan := tl (plan d1)\<rparr>"
  have h: "healthy d1" "healthy d2" using healthy_after_Write assms unfolding d1_def d2_def by blast+
  have w: "ivfw_Write ?h (ioWriter i) = (None, d1)" "ivfw_Write frame d1 = (None, d2)"
    unfolding d1_def d2_def using Write_healthy[OF assms] Write_healthy[OF h(1)] by (simp_all only: d1_def)
  have "writeFrame frame ts i = (None, i\<lparr>frame_count := frame_count i + 1, ioWriter := d2\<rparr>)"
    using w by (simp add: writeFrame_def Let_def timestampToPts_def)
  moreover have "content d2 = content (ioWriter i) @ frame_bytes (frame, if directPTS i then ts else timestampToPts i ts)"
    by (simp add: d1_def d2_def frame_bytes_def)
  moreover have "can_seek d2 = can_seek (ioWriter i)" "can_close d2 = can_close (ioWriter i)" by (simp_all add: d1_def d2_def)
  ultimately show ?thesis using h(2) by blast
qed

text \<open>The packets of one frame: all taken, all of one time, the marker on the last.\<close>

fun frame_of :: "(bool \<Rightarrow> bool \<Rightarrow> rtp_packet \<Rightarrow> bool) \<Rightarrow> u32 \<Rightarrow> bool \<Rightarrow> bool \<Rightarrow> rtp_packet list \<Rightarrow> bool" where
  "frame_of takes t seen fresh [] \<longleftrightarrow> False"
| "frame_of takes t seen fresh (p # ps) \<longleftrightarrow> takes seen fresh p \<and> pkt_Timestamp p = t \<and>
     (if ps = [] then pkt_Marker p else \<not> pkt_Marker p \<and> frame_of takes t True False ps)"

definition frame_data :: "(rtp_packet \<Rightarrow> bytes) \<Rightarrow> rtp_packet list \<Rightarrow> bytes" where
  "frame_data part ps = concat (map part ps)"

text \<open>
  What the VP8 and the VP9 path have in common: a packet that is taken adds its part to the current
  frame, and the packet with the marker writes the frame out. Which packets are taken depends on
  whether a key frame was seen and on whether a frame is under way.
\<close>

locale frame_path =
  fixes c :: "'d ivf_codecs"
    and which :: ivf_codec
    and path :: "rtp_packet \<Rightarrow> u64 \<Rightarrow> 'd IVFWriter \<Rightarrow> ivfw_error option \<times> 'd IVFWriter"
    and part :: "rtp_packet \<Rightarrow> bytes"
    and takes :: "bool \<Rightarrow> bool \<Rightarrow> rtp_packet \<Rightarrow> bool"
  assumes dispatch: "is_open i \<Longrightarrow> iw_codec i = which \<Longrightarrow> pkt_Payload p \<noteq> [] \<Longrightarrow>
      ivfw_WriteRTP c p i = path p (rtp_time (directPTS i) (clockRate i) (firstFrameTimestamp (stamp p i)) (pkt_Timestamp p)) (stamp p i)"
    and takes_payload: "takes seen fresh p \<Longrightarrow> pkt_Payload p \<noteq> [] \<and> part p \<noteq> []"
    and taken: "takes (seenKeyFrame i) (currentFrame i = []) p \<Longrightarrow> path p ts i =
      (let i1 = i\<lparr>seenKeyFrame := True, currentFrame := currentFrame i @ part p\<rparr> in
       if \<not> pkt_Marker p then (None, i1)
       else (case writeFrame (currentFrame i1) ts i1 of
           (Some e, i2) \<Rightarrow> (Some e, i2)
         | (None, i2) \<Rightarrow> (None, i2\<lparr>currentFrame := []\<rparr>)))"
begin

lemma frame_written:
  assumes "frame_of takes t (seenKeyFrame i) (currentFrame i = []) ps" "is_open i" "iw_codec i = which" "healthy (ioWriter i)"
    and "base = (if frame_count i = 0 then t else firstFrameTimestamp i)"
  shows "\<exists>i'. run_rtp c ps i = (None, i') \<and> same_format i i' \<and> healthy (ioWriter i') \<and>
    content (ioWriter i') = content (ioWriter i) @ frame_bytes (currentFrame i @ frame_data part ps, frame_pts i base t) \<and>
    frame_count i' = frame_count i + 1 \<and> firstFrameTimestamp i' = base \<and> currentFrame i' = [] \<and> seenKeyFrame i'"
  using assms
proof (induction ps arbitrary: i)
  case Nil
  then show ?case by simp
next
  case (Cons p ps)
  have tk: "takes (seenKeyFrame i) (currentFrame i = []) p" and ts: "pkt_Timestamp p = t" using Cons.prems(1) by auto
  let ?i0 = "stamp p i"
  have s: "seenKeyFrame ?i0 = seenKeyFrame i" "currentFrame ?i0 = currentFrame i" "ioWriter ?i0 = ioWriter i"
    "frame_count ?i0 = frame_count i" "same_format i ?i0" "firstFrameTimestamp ?i0 = base"
    using Cons.prems(5) ts by (simp_all add: stamp_def same_format_def)
  let ?i1 = "?i0\<lparr>seenKeyFrame := True, currentFrame := currentFrame i @ part p\<rparr>"
  have w: "ivfw_WriteRTP c p i = path p (rtp_time (directPTS i) (clockRate i) base t) ?i0"
    using dispatch[OF Cons.prems(2,3)] takes_payload[OF tk] s ts by simp
  have st: "path p u ?i0 = (if \<not> pkt_Marker p then (None, ?i1)
       else (case writeFrame (currentFrame ?i1) u ?i1 of
           (Some e, i2) \<Rightarrow> (Some e, i2) | (None, i2) \<Rightarrow> (None, i2\<lparr>currentFrame := []\<rparr>)))" for u
    using taken[of ?i0 p u] tk s by (simp add: Let_def)
  show ?case
  proof (cases "ps = []")
    case True
    obtain d where d: "writeFrame (currentFrame ?i1) (rtp_time (directPTS i) (clockRate i) base t) ?i1 =
        (None, ?i1\<lparr>frame_count := frame_count ?i1 + 1, ioWriter := d\<rparr>)" "healthy d"
      "content d = content (ioWriter ?i1) @ frame_bytes (currentFrame ?i1,
         if directPTS ?i1 then rtp_time (directPTS i) (clockRate i) base t
         else timestampToPts ?i1 (rtp_time (directPTS i) (clockRate i) base t))"
      "can_seek d = can_seek (ioWriter ?i1)" "can_close d = can_close (ioWriter ?i1)"
      using writeFrame_healthy[of ?i1 "currentFrame ?i1"] Cons.prems(4) s(3) by auto
    have "run_rtp c (p # ps) i = (None, ?i1\<lparr>frame_count := frame_count ?i1 + 1, ioWriter := d, currentFrame := []\<rparr>)"
      using True Cons.prems(1) w st d(1) by simp
    moreover have "frame_pts i base t = (if directPTS ?i1 then rtp_time (directPTS i) (clockRate i) base t
         else timestampToPts ?i1 (rtp_time (directPTS i) (clockRate i) base t))"
      by (simp add: frame_pts_def Let_def timestampToPts_def stamp_def)
    ultimately show ?thesis using d(2-5) s True
      by (auto simp: same_format_def frame_data_def)
  next
    case False
    then have w1: "ivfw_WriteRTP c p i = (None, ?i1)" using Cons.prems(1) w st by simp
    have "part p \<noteq> []" using takes_payload[OF tk] by simp
    then have "frame_of takes t (seenKeyFrame ?i1) (currentFrame ?i1 = []) ps" using Cons.prems(1) False by simp
    moreover have "is_open ?i1" "iw_codec ?i1 = which" "healthy (ioWriter ?i1)"
      "base = (if frame_count ?i1 = 0 then t else firstFrameTimestamp ?i1)"
      using Cons.prems s by (simp_all add: stamp_def split: if_splits)
    ultimately obtain i' where i': "run_rtp c ps ?i1 = (None, i')" "same_format ?i1 i'" "healthy (ioWriter i')"
      "content (ioWriter i') = content (ioWriter ?i1) @ frame_bytes (currentFrame ?i1 @ frame_data part ps, frame_pts ?i1 base t)"
      "frame_count i' = frame_count ?i1 + 1" "firstFrameTimestamp i' = base" "currentFrame i' = []" "seenKeyFrame i'"
      using Cons.IH[of ?i1] by blast
    have "same_format i ?i1" using s(5) by (simp add: same_format_def)
    then show ?thesis using i' w1 s same_format_trans[of i ?i1 i'] same_format_pts[of i ?i1]
      by (auto simp: frame_data_def)
  qed
qed

end

lemma count_step: "unat (n :: u64) + 1 < 2 ^ 64 \<Longrightarrow> n + 1 \<noteq> 0 \<and> unat (n + 1) = unat n + 1"
proof -
  assume a: "unat n + 1 < 2 ^ 64"
  have "n + 1 = of_nat (unat n + 1)" by simp
  moreover have "unat (of_nat (unat n + 1) :: u64) = unat n + 1" using a by (simp only: unat_of_nat) (simp add: take_bit_nat_eq_self)
  ultimately show ?thesis by (metis unat_0 add_is_0 zero_neq_one)
qed

fun frames_ok :: "(bool \<Rightarrow> bool \<Rightarrow> rtp_packet \<Rightarrow> bool) \<Rightarrow> bool \<Rightarrow> (u32 \<times> rtp_packet list) list \<Rightarrow> bool" where
  "frames_ok takes seen [] \<longleftrightarrow> True"
| "frames_ok takes seen ((t, ps) # fs) \<longleftrightarrow> frame_of takes t seen True ps \<and> frames_ok takes True fs"

definition frames_out ::
  "(rtp_packet \<Rightarrow> bytes) \<Rightarrow> (u32 \<Rightarrow> u64) \<Rightarrow> (u32 \<times> rtp_packet list) list \<Rightarrow> (bytes \<times> u64) list" where
  "frames_out part pts fs = map (\<lambda>(t, ps). (frame_data part ps, pts t)) fs"

context frame_path
begin

lemma frames_written:
  assumes "frames_ok takes (seenKeyFrame i) fs" "is_open i" "iw_codec i = which" "healthy (ioWriter i)" "currentFrame i = []"
    and "unat (frame_count i) + length fs < 2 ^ 64"
    and "base = (if frame_count i = 0 then (case fs of [] \<Rightarrow> base | (t, _) # _ \<Rightarrow> t) else firstFrameTimestamp i)"
  shows "\<exists>i'. run_rtp c (concat (map snd fs)) i = (None, i') \<and> same_format i i' \<and> healthy (ioWriter i') \<and>
    content (ioWriter i') = content (ioWriter i) @ concat (map frame_bytes (frames_out part (frame_pts i base) fs)) \<and>
    frame_count i' = frame_count i + of_nat (length fs)"
  using assms
proof (induction fs arbitrary: i)
  case Nil
  then show ?case by (simp add: same_format_def frames_out_def)
next
  case (Cons f fs)
  obtain t ps where f: "f = (t, ps)" by fastforce
  have base: "base = (if frame_count i = 0 then t else firstFrameTimestamp i)" using Cons.prems(7) by (simp add: f split: if_splits)
  obtain i1 where i1: "run_rtp c ps i = (None, i1)" "same_format i i1" "healthy (ioWriter i1)"
      "content (ioWriter i1) = content (ioWriter i) @ frame_bytes (frame_data part ps, frame_pts i base t)"
      "frame_count i1 = frame_count i + 1" "firstFrameTimestamp i1 = base" "currentFrame i1 = []" "seenKeyFrame i1"
    using frame_written[OF _ Cons.prems(2-4) base, of ps] Cons.prems(1,5) f by auto
  have "frame_count i + 1 \<noteq> 0" "unat (frame_count i1) = unat (frame_count i) + 1"
    using count_step[of "frame_count i"] Cons.prems(6) i1(5) by simp_all
  then obtain i' where i': "run_rtp c (concat (map snd fs)) i1 = (None, i')" "same_format i1 i'" "healthy (ioWriter i')"
      "content (ioWriter i') = content (ioWriter i1) @ concat (map frame_bytes (frames_out part (frame_pts i1 base) fs))"
      "frame_count i' = frame_count i1 + of_nat (length fs)"
    using Cons.IH[of i1] i1 Cons.prems f by (auto simp: same_format_def)
  have "frame_pts i1 base = frame_pts i base" using same_format_pts[OF i1(2)] by blast
  then show ?case using i1 i' same_format_trans[OF i1(2) i'(2)]
    by (auto simp: f run_rtp_append frames_out_def)
qed

end

section \<open>Whole files\<close>

definition media_options :: "string \<Rightarrow> u16 \<Rightarrow> u16 \<Rightarrow> u32 \<Rightarrow> u32 \<Rightarrow> bool \<Rightarrow> 'd ivfw_option list" where
  "media_options mime w h num den direct =
     [WithCodec mime, WithWidthAndHeight w h, WithFrameRate num den] @ (if direct then [WithDirectPTS] else [])"

definition mime_codec :: "string \<Rightarrow> ivf_codec" where
  "mime_codec mime = (if mime = mimeTypeVP8 then codecVP8 else if mime = mimeTypeVP9 then codecVP9
     else if mime = mimeTypeAV1 then codecAV1 else codecUnset)"

lemma media_options_apply:
  assumes "mime_codec mime \<noteq> codecUnset"
  shows "ivfw_apply_options (media_options mime w h num den direct) (initial_ivfwriter d) = (None,
    (initial_ivfwriter d)\<lparr>iw_codec := mime_codec mime, videoWidth := w, videoHeight := h,
      w_timebaseNumerator := num, w_timebaseDenominator := den, directPTS := direct\<rparr>)"
  using assms by (auto simp: media_options_def WithCodec_def WithWidthAndHeight_def WithFrameRate_def WithDirectPTS_def
      initial_ivfwriter_def mime_codec_def split: if_splits)

lemma ivfw_NewWith_healthy:
  assumes "healthy d" "content d = []" "fourCC (mime_codec mime) = Some cc" "num \<noteq> 0" "den \<noteq> 0"
  shows "\<exists>i. ivfw_NewWith (Some d) (media_options mime w h num den direct) = Inr i \<and> is_open i \<and> iw_codec i = mime_codec mime \<and>
    healthy (ioWriter i) \<and> content (ioWriter i) = file_header_bytes cc w h den num 900 \<and> frame_count i = 0 \<and>
    \<not> seenKeyFrame i \<and> currentFrame i = [] \<and> av1Depacketizer i = None \<and> directPTS i = direct \<and> clockRate i = 90000 \<and>
    w_timebaseNumerator i = num \<and> w_timebaseDenominator i = den \<and>
    can_seek (ioWriter i) = can_seek d \<and> can_close (ioWriter i) = can_close d"
proof -
  have m: "mime_codec mime \<noteq> codecUnset" using assms(3) by (auto simp: fourCC_def)
  note o = media_options_apply[OF m]
  define h0 where "h0 = file_header_bytes cc w h den num 900"
  define d1 where "d1 = d\<lparr>content := content d @ h0, pos := pos d + length h0, plan := tl (plan d)\<rparr>"
  have d1: "healthy d1" "content d1 = h0" "can_seek d1 = can_seek d" "can_close d1 = can_close d"
    using healthy_after_Write[OF assms(1), of h0] assms(2) by (simp_all add: d1_def)
  have "ivfw_Write h0 d = (None, d1)" unfolding d1_def by (rule Write_healthy[OF assms(1)])
  then show ?thesis using assms(3-5) m d1 unfolding ivfw_NewWith_def option.case o h0_def[symmetric]
    by (simp add: Let_def writeHeader_def initial_ivfwriter_def) (simp add: h0_def file_header_bytes_def)
qed

lemma ivfw_Close_healthy:
  assumes "is_open i" "healthy (ioWriter i)" "content (ioWriter i) = file_header_bytes cc w h den num n0 @ rest" "length cc = 4"
  shows "\<exists>i'. ivfw_Close i = (None, i') \<and> \<not> is_open i' \<and>
    content (ioWriter i') = file_header_bytes cc w h den num (if can_seek (ioWriter i) then to32 (frame_count i) else n0) @ rest \<and>
    closed (ioWriter i') = (closed (ioWriter i) \<or> can_close (ioWriter i))"
proof -
  let ?d = "ioWriter i"
  have nx: "next_outcome p = None" if "set p \<subseteq> {None}" for p using that by (cases p) auto
  have pl: "set (plan ?d) \<subseteq> {None}" using assms(2) by (simp add: healthy_def)
  have tl: "set (tl p) \<subseteq> {None}" if "set p \<subseteq> {None :: (nat \<times> nat) option}" for p using that by (cases p) auto
  have pl': "set (tl (plan ?d)) \<subseteq> {None}" "set (tl (tl (plan ?d))) \<subseteq> {None}" using tl pl by blast+
  define hd1 where "hd1 = str ''DKIF'' @ le16 0 @ le16 32 @ cc @ le16 w @ le16 h @ le32 den @ le32 num"
  have l: "length hd1 = 24" using assms(4) by (simp add: hd1_def str_def)
  have hb: "file_header_bytes cc w h den num m = hd1 @ le32 m @ le32 0" for m by (simp add: file_header_bytes_def hd1_def)
  have ow: "overwrite (content ?d) 24 (le32 (to32 (frame_count i))) = file_header_bytes cc w h den num (to32 (frame_count i)) @ rest"
    using overwrite_middle[of "le32 (to32 (frame_count i))" "le32 n0" hd1 "le32 0 @ rest"] l by (simp add: assms(3) hb)
  show ?thesis using assms(1,3) nx[OF pl] nx[OF pl'(1)] nx[OF pl'(2)] ow
    by (auto simp: ivfw_Close_def update_frame_count_def SeekStart_def Write_def Close_def errors_Join_def)
qed

text \<open>Closing a recording and reading it back.\<close>

lemma file_closed:
  assumes "is_open i1" "healthy (ioWriter i1)" "content (ioWriter i1) = file_header_bytes cc w h den num 900 @ concat (map frame_bytes fs)"
    and "frame_count i1 = of_nat (length fs)" "length fs < 2 ^ 32" "\<forall>f \<in> set fs. length (fst f) \<le> 0x4000000"
    and "length cc = 4" "num \<noteq> 0" "den \<noteq> 0"
  shows "\<exists>i2 r r'. ivfw_Close i1 = (None, i2) \<and>
    ivf_NewWith (Some \<lparr>st_data = content (ioWriter i2), st_end = None\<rparr>) [] = Inr (r,
      \<lparr>ivf_signature = str ''DKIF'', ivf_version = 0, ivf_headerSize = 32, FourCC = cc, Width = w, Height = h,
       TimebaseDenominator = den, TimebaseNumerator = num,
       NumFrames = (if can_seek (ioWriter i1) then of_nat (length fs) else 900), ivf_unused = 0\<rparr>) \<and>
    reads ParseNextFrame r (map (frame_out r) fs) r' \<and> fst (ParseNextFrame r') = Inl EOF"
proof -
  have "unat (of_nat (length fs) :: u64) = length fs" "unat (of_nat (length fs) :: u32) = length fs"
    using assms(5) by (simp_all add: unat_of_nat take_bit_nat_eq_self)
  then have "unat (to32 (of_nat (length fs) :: u64)) = unat (of_nat (length fs) :: u32)"
    using assms(5) by (simp add: unsigned_ucast_eq take_bit_nat_eq_self)
  then have t: "to32 (frame_count i1) = of_nat (length fs)" unfolding assms(4) by (metis word_unat_eq_iff)
  obtain i2 where i2: "ivfw_Close i1 = (None, i2)"
    "content (ioWriter i2) = file_header_bytes cc w h den num (if can_seek (ioWriter i1) then of_nat (length fs) else 900) @ concat (map frame_bytes fs)"
    using ivfw_Close_healthy[OF assms(1,2,3,7), unfolded t] by blast
  define r where "r = \<lparr>ivf_stream = \<lparr>st_data = concat (map frame_bytes fs), st_end = None\<rparr>, bytesReadSuccesfully = 32,
      timebaseDenominator = den, timebaseNumerator = num, maxFrameSize = 0x4000000\<rparr>"
  have "list_all (frame_fits r) fs" using assms(6) by (auto simp: list_all_iff frame_fits_def r_def)
  from ivf.reads_all[OF this, of "[]"]
  have rd: "reads ParseNextFrame r (map (frame_out r) fs) (at_data [] (fold frame_after fs r))"
    by (simp add: at_data_def r_def)
  have "st_end (ivf_stream (fold frame_after xs q)) = st_end (ivf_stream q)" for xs q
    by (induction xs arbitrary: q) (simp_all add: frame_after_def)
  then have "fst (ParseNextFrame (at_data [] (fold frame_after fs r))) = Inl EOF"
    by (simp add: ParseNextFrame_def at_data_def ReadFull_end ivfFrameHeaderSize_def end_error_def r_def)
  then show ?thesis using i2 rd parse_file_header[OF assms(7,9,8)] unfolding r_def by auto
qed

context frame_path
begin

lemma file_roundtrip:
  assumes "healthy d" "content d = []" "mime_codec mime = which" "fourCC which = Some cc" "length cc = 4" "num \<noteq> 0" "den \<noteq> 0"
    and "frames_ok takes False fs" "fs \<noteq> []" "length fs < 2 ^ 32" "\<forall>f \<in> set fs. length (frame_data part (snd f)) \<le> 0x4000000"
  shows "\<exists>(i :: 'd IVFWriter) i1 i2 r r'. ivfw_NewWith (Some d) (media_options mime w h num den direct) = Inr i \<and>
    run_rtp c (concat (map snd fs)) i = (None, i1) \<and> ivfw_Close i1 = (None, i2) \<and>
    ivf_NewWith (Some \<lparr>st_data = content (ioWriter i2), st_end = None\<rparr>) [] = Inr (r,
      \<lparr>ivf_signature = str ''DKIF'', ivf_version = 0, ivf_headerSize = 32, FourCC = cc, Width = w, Height = h,
       TimebaseDenominator = den, TimebaseNumerator = num,
       NumFrames = (if can_seek d then of_nat (length fs) else 900), ivf_unused = 0\<rparr>) \<and>
    reads ParseNextFrame r (map (frame_out r) (frames_out part (frame_pts i (fst (hd fs))) fs)) r' \<and>
    fst (ParseNextFrame r') = Inl EOF"
proof -
  obtain i :: "'d IVFWriter" where i: "ivfw_NewWith (Some d) (media_options mime w h num den direct) = Inr i" "is_open i" "iw_codec i = which"
    "healthy (ioWriter i)" "content (ioWriter i) = file_header_bytes cc w h den num 900" "frame_count i = 0"
    "\<not> seenKeyFrame i" "currentFrame i = []" "can_seek (ioWriter i) = can_seek d"
    using ivfw_NewWith_healthy[OF assms(1,2) _ assms(6,7), of mime cc w h direct] assms(3,4) by auto
  let ?base = "fst (hd fs)" and ?fs = "frames_out part (frame_pts i (fst (hd fs))) fs"
  have "unat (frame_count i) + length fs < 2 ^ 64" using i(6) assms(10) by simp
  moreover have "?base = (if frame_count i = 0 then (case fs of [] \<Rightarrow> ?base | (t, _) # _ \<Rightarrow> t) else firstFrameTimestamp i)"
    using i(6) assms(9) by (auto split: list.split)
  ultimately obtain i1 where i1: "run_rtp c (concat (map snd fs)) i = (None, i1)" "same_format i i1" "healthy (ioWriter i1)"
    "content (ioWriter i1) = content (ioWriter i) @ concat (map frame_bytes ?fs)" "frame_count i1 = frame_count i + of_nat (length fs)"
    using frames_written[of i fs ?base] assms(8) i by auto
  have f: "length ?fs = length fs" "length ?fs < 2 ^ 32" "\<forall>f \<in> set ?fs. length (fst f) \<le> 0x4000000"
    using assms(10,11) by (auto simp: frames_out_def)
  have "is_open i1" "can_seek (ioWriter i1) = can_seek d" using i1(2) i(2,9) by (simp_all add: same_format_def)
  moreover have "frame_count i1 = of_nat (length ?fs)" using i1(5) i(6) f(1) by simp
  moreover have "content (ioWriter i1) = file_header_bytes cc w h den num 900 @ concat (map frame_bytes ?fs)" using i1(4) i(5) by simp
  ultimately show ?thesis
    using i(1) i1(1) file_closed[OF _ i1(3) _ _ f(2,3) assms(5,6,7), of w h] f(1) by fastforce
qed

end

section \<open>The two paths\<close>

definition vp8_part :: "'d ivf_codecs \<Rightarrow> rtp_packet \<Rightarrow> bytes" where
  "vp8_part c p = (case vp8_Unmarshal c (pkt_Payload p) of Inl _ \<Rightarrow> [] | Inr (payload, _) \<Rightarrow> payload)"

definition vp8_takes :: "'d ivf_codecs \<Rightarrow> bool \<Rightarrow> bool \<Rightarrow> rtp_packet \<Rightarrow> bool" where
  "vp8_takes c seen fresh p \<longleftrightarrow> pkt_Payload p \<noteq> [] \<and> (case vp8_Unmarshal c (pkt_Payload p) of
     Inl _ \<Rightarrow> False
   | Inr (payload, S) \<Rightarrow> payload \<noteq> [] \<and> (seen \<or> \<not> bit (payload ! 0) 0) \<and> (fresh \<longrightarrow> S = 1))"

definition vp9_part :: "'d ivf_codecs \<Rightarrow> rtp_packet \<Rightarrow> bytes" where
  "vp9_part c p = (case vp9_Unmarshal c (pkt_Payload p) of Inl _ \<Rightarrow> [] | Inr (payload, _) \<Rightarrow> payload)"

definition vp9_takes :: "'d ivf_codecs \<Rightarrow> bool \<Rightarrow> bool \<Rightarrow> rtp_packet \<Rightarrow> bool" where
  "vp9_takes c seen fresh p \<longleftrightarrow> pkt_Payload p \<noteq> [] \<and> (case vp9_Unmarshal c (pkt_Payload p) of
     Inl _ \<Rightarrow> False
   | Inr (payload, P, B) \<Rightarrow> payload \<noteq> [] \<and> (seen \<or> \<not> P) \<and> (fresh \<longrightarrow> B))"

interpretation vp8: frame_path c codecVP8 "writeVP8 c" "vp8_part c" "vp8_takes c" for c
proof unfold_locales
  fix i :: "'a IVFWriter" and p ts
  assume "vp8_takes c (seenKeyFrame i) (currentFrame i = []) p"
  then obtain payload S where u: "vp8_Unmarshal c (pkt_Payload p) = Inr (payload, S)"
    and t: "payload \<noteq> []" "seenKeyFrame i \<or> \<not> bit (payload ! 0) 0" "currentFrame i = [] \<longrightarrow> S = 1"
    by (auto simp: vp8_takes_def split: sum.splits)
  then show "writeVP8 c p ts i =
      (let i1 = i\<lparr>seenKeyFrame := True, currentFrame := currentFrame i @ vp8_part c p\<rparr> in
       if \<not> pkt_Marker p then (None, i1)
       else (case writeFrame (currentFrame i1) ts i1 of
           (Some e, i2) \<Rightarrow> (Some e, i2) | (None, i2) \<Rightarrow> (None, i2\<lparr>currentFrame := []\<rparr>)))"
    by (auto simp: writeVP8_def vp8_part_def Let_def)
qed (auto simp: ivfw_WriteRTP_def stamp_def rtp_time_def Let_def vp8_takes_def vp8_part_def split: sum.splits)

interpretation vp9: frame_path c codecVP9 "writeVP9 c" "vp9_part c" "vp9_takes c" for c
proof unfold_locales
  fix i :: "'a IVFWriter" and p ts
  assume "vp9_takes c (seenKeyFrame i) (currentFrame i = []) p"
  then obtain payload P B where u: "vp9_Unmarshal c (pkt_Payload p) = Inr (payload, P, B)"
    and t: "payload \<noteq> []" "seenKeyFrame i \<or> \<not> P" "currentFrame i = [] \<longrightarrow> B"
    by (auto simp: vp9_takes_def split: sum.splits)
  then show "writeVP9 c p ts i =
      (let i1 = i\<lparr>seenKeyFrame := True, currentFrame := currentFrame i @ vp9_part c p\<rparr> in
       if \<not> pkt_Marker p then (None, i1)
       else (case writeFrame (currentFrame i1) ts i1 of
           (Some e, i2) \<Rightarrow> (Some e, i2) | (None, i2) \<Rightarrow> (None, i2\<lparr>currentFrame := []\<rparr>)))"
    by (auto simp: writeVP9_def vp9_part_def Let_def)
qed (auto simp: ivfw_WriteRTP_def stamp_def rtp_time_def Let_def vp9_takes_def vp9_part_def split: sum.splits)

section \<open>The key frame gate\<close>












text \<open>
  C7: A recorded VP8 stream round-trips through an IVF file. For any payload format behaviour of
  \<open>codecs.VP8Packet\<close>, any output and any frames split over packets whose first packet starts a
  partition and whose last has the marker, starting with a key frame: writing the packets and
  closing succeeds, the reader opens the file with the written header (the frame count filled in when
  the output can seek), and returns exactly the frames with their presentation times, then \<open>io.EOF\<close>.
\<close>

theorem ivf_vp8_file:
  assumes "healthy d" "content d = []" "num \<noteq> 0" "den \<noteq> 0" "frames_ok (vp8_takes c) False fs" "fs \<noteq> []" "length fs < 2 ^ 32"
    and "\<forall>f \<in> set fs. length (frame_data (vp8_part c) (snd f)) \<le> 0x4000000"
  shows "\<exists>(i :: 'd IVFWriter) i1 i2 r r'. ivfw_NewWith (Some d) (media_options mimeTypeVP8 w h num den direct) = Inr i \<and>
    run_rtp c (concat (map snd fs)) i = (None, i1) \<and> ivfw_Close i1 = (None, i2) \<and>
    ivf_NewWith (Some \<lparr>st_data = content (ioWriter i2), st_end = None\<rparr>) [] = Inr (r,
      \<lparr>ivf_signature = str ''DKIF'', ivf_version = 0, ivf_headerSize = 32, FourCC = str ''VP80'', Width = w, Height = h,
       TimebaseDenominator = den, TimebaseNumerator = num,
       NumFrames = (if can_seek d then of_nat (length fs) else 900), ivf_unused = 0\<rparr>) \<and>
    reads ParseNextFrame r (map (frame_out r) (frames_out (vp8_part c) (frame_pts i (fst (hd fs))) fs)) r' \<and>
    fst (ParseNextFrame r') = Inl EOF"
proof -
  have "mime_codec mimeTypeVP8 = codecVP8" "fourCC codecVP8 = Some (str ''VP80'')" "length (str ''VP80'') = 4"
    by (simp_all add: mime_codec_def fourCC_def str_def)
  from vp8.file_roundtrip[OF assms(1,2) this assms(3-8), of w h direct] show ?thesis .
qed

text \<open>
  A payload format for examples: the first byte of the payload holds the start bit, the rest is
  the data; a VP9 payload has the bits \<open>P\<close> and \<open>B\<close> in its first two bytes.
\<close>

definition witness_codecs :: "unit ivf_codecs" where
  "witness_codecs = \<lparr>vp8_Unmarshal = (\<lambda>p. case p of s # d \<Rightarrow> Inr (d, s) | [] \<Rightarrow> Inl 0),
     vp9_Unmarshal = (\<lambda>p. case p of a # b # d \<Rightarrow> Inr (d, a = 1, b = 1) | _ \<Rightarrow> Inl 0),
     av1_New = (), av1_Unmarshal = (\<lambda>p s. (Inr p, s)), av1_N = (\<lambda>_. True), OBUSequenceHeader = 1, delimiter_Marshal = [0x12, 0]\<rparr>"

definition witness_out :: sink where
  "witness_out = \<lparr>content = [], pos = 0, plan = [], can_seek = True, can_close = True, closed = False\<rparr>"

definition witness_vp8 :: "(u32 \<times> rtp_packet list) list" where
  "witness_vp8 = [(3000, [\<lparr>pkt_Timestamp = 3000, pkt_Marker = False, pkt_Payload = [1, 0x10, 7]\<rparr>, \<lparr>pkt_Timestamp = 3000, pkt_Marker = True, pkt_Payload = [0, 9]\<rparr>]),
     (6000, [\<lparr>pkt_Timestamp = 6000, pkt_Marker = True, pkt_Payload = [1, 0x11]\<rparr>])]"

theorem ivf_vp8_file_witness:
  "\<exists>(i :: unit IVFWriter) i1 i2 r r'. ivfw_NewWith (Some witness_out) (media_options mimeTypeVP8 640 480 1 30 True) = Inr i \<and>
    run_rtp witness_codecs (concat (map snd witness_vp8)) i = (None, i1) \<and> ivfw_Close i1 = (None, i2) \<and>
    ivf_NewWith (Some \<lparr>st_data = content (ioWriter i2), st_end = None\<rparr>) [] = Inr (r,
      \<lparr>ivf_signature = str ''DKIF'', ivf_version = 0, ivf_headerSize = 32, FourCC = str ''VP80'', Width = 640, Height = 480,
       TimebaseDenominator = 30, TimebaseNumerator = 1,
       NumFrames = (if can_seek witness_out then of_nat (length witness_vp8) else 900), ivf_unused = 0\<rparr>) \<and>
    reads ParseNextFrame r (map (frame_out r) (frames_out (vp8_part witness_codecs) (frame_pts i (fst (hd witness_vp8))) witness_vp8)) r' \<and>
    fst (ParseNextFrame r') = Inl EOF"
  by (rule ivf_vp8_file)
    (simp_all add: witness_out_def healthy_def witness_vp8_def vp8_takes_def vp8_part_def witness_codecs_def frame_data_def bit_simps)

text \<open>
  C8: The same for VP9, with the packet rules of \<open>codecs.VP9Packet\<close>: a frame starts with the \<open>B\<close> bit and
  the first frame is not predicted.
\<close>

theorem ivf_vp9_file:
  assumes "healthy d" "content d = []" "num \<noteq> 0" "den \<noteq> 0" "frames_ok (vp9_takes c) False fs" "fs \<noteq> []" "length fs < 2 ^ 32"
    and "\<forall>f \<in> set fs. length (frame_data (vp9_part c) (snd f)) \<le> 0x4000000"
  shows "\<exists>(i :: 'd IVFWriter) i1 i2 r r'. ivfw_NewWith (Some d) (media_options mimeTypeVP9 w h num den direct) = Inr i \<and>
    run_rtp c (concat (map snd fs)) i = (None, i1) \<and> ivfw_Close i1 = (None, i2) \<and>
    ivf_NewWith (Some \<lparr>st_data = content (ioWriter i2), st_end = None\<rparr>) [] = Inr (r,
      \<lparr>ivf_signature = str ''DKIF'', ivf_version = 0, ivf_headerSize = 32, FourCC = str ''VP90'', Width = w, Height = h,
       TimebaseDenominator = den, TimebaseNumerator = num,
       NumFrames = (if can_seek d then of_nat (length fs) else 900), ivf_unused = 0\<rparr>) \<and>
    reads ParseNextFrame r (map (frame_out r) (frames_out (vp9_part c) (frame_pts i (fst (hd fs))) fs)) r' \<and>
    fst (ParseNextFrame r') = Inl EOF"
proof -
  have "mime_codec mimeTypeVP9 = codecVP9" "fourCC codecVP9 = Some (str ''VP90'')" "length (str ''VP90'') = 4"
    by (simp_all add: mime_codec_def fourCC_def str_def mimeTypeVP8_def mimeTypeVP9_def)
  from vp9.file_roundtrip[OF assms(1,2) this assms(3-8), of w h direct] show ?thesis .
qed

definition witness_vp9 :: "(u32 \<times> rtp_packet list) list" where
  "witness_vp9 = [(3000, [\<lparr>pkt_Timestamp = 3000, pkt_Marker = False, pkt_Payload = [0, 1, 7]\<rparr>, \<lparr>pkt_Timestamp = 3000, pkt_Marker = True, pkt_Payload = [1, 0, 9]\<rparr>])]"

theorem ivf_vp9_file_witness:
  "\<exists>(i :: unit IVFWriter) i1 i2 r r'. ivfw_NewWith (Some witness_out) (media_options mimeTypeVP9 640 480 1 30 False) = Inr i \<and>
    run_rtp witness_codecs (concat (map snd witness_vp9)) i = (None, i1) \<and> ivfw_Close i1 = (None, i2) \<and>
    ivf_NewWith (Some \<lparr>st_data = content (ioWriter i2), st_end = None\<rparr>) [] = Inr (r,
      \<lparr>ivf_signature = str ''DKIF'', ivf_version = 0, ivf_headerSize = 32, FourCC = str ''VP90'', Width = 640, Height = 480,
       TimebaseDenominator = 30, TimebaseNumerator = 1,
       NumFrames = (if can_seek witness_out then of_nat (length witness_vp9) else 900), ivf_unused = 0\<rparr>) \<and>
    reads ParseNextFrame r (map (frame_out r) (frames_out (vp9_part witness_codecs) (frame_pts i (fst (hd witness_vp9))) witness_vp9)) r' \<and>
    fst (ParseNextFrame r') = Inl EOF"
  by (rule ivf_vp9_file)
    (simp_all add: witness_out_def healthy_def witness_vp9_def vp9_takes_def vp9_part_def witness_codecs_def frame_data_def)

definition witness_ivf :: IVFReader where
  "witness_ivf = \<lparr>ivf_stream = \<lparr>st_data = frame_bytes ([1, 2], 0) @ take 5 (frame_bytes ([3, 4, 5], 1)), st_end = None\<rparr>, bytesReadSuccesfully = 32,
     timebaseDenominator = 30, timebaseNumerator = 1, maxFrameSize = 0x4000000\<rparr>"

theorem ivf_resume_witness:
  "\<exists>i1 e i2 i3. reads ParseNextFrame witness_ivf (map (frame_out witness_ivf) [([1, 2], 0)]) i1 \<and> ParseNextFrame i1 = (Inl e, i2) \<and>
    ParseNextFrame (ResetReader (\<lambda>n. \<lparr>st_data = drop (nat n) (replicate 32 0 @ frame_bytes ([1, 2], 0) @ frame_bytes ([3, 4, 5], 1) @ [9]), st_end = None\<rparr>) i2)
      = (Inr (frame_out witness_ivf ([3, 4, 5], 1)), i3)"
  by (rule ivf_resume[where pre = "replicate 32 0" and k = 5 and rest = "[9]"])
    (simp_all add: witness_ivf_def frame_fits_def length_frame_bytes)



end
