(* ===== verification/IvfFiles.thy ===== *)
theory IvfFiles
  imports IvfWriter
begin

text \<open>
  Whole IVF recordings beyond the VP8 and VP9 paths: what is left of a recording when the output fails
  (every call of \<open>WriteRTP\<close>, whatever the codec, appends one frame or nothing, so the writer is an
  \<open>append_writer\<close>), and the AV1 path from the packets to the frames of the reader.
\<close>

section \<open>Outputs that fail\<close>

text \<open>The end of every path: the frame is written and the buffer reset.\<close>

definition emit :: "bytes \<Rightarrow> u64 \<Rightarrow> 'd IVFWriter \<Rightarrow> ivfw_error option \<times> 'd IVFWriter" where
  "emit frame ts i = (case writeFrame frame ts i of
     (Some e, i2) \<Rightarrow> (Some e, i2) | (None, i2) \<Rightarrow> (None, i2\<lparr>currentFrame := []\<rparr>))"

text \<open>A call leaves the output alone or writes one frame, and which of the two does not depend on the output.\<close>

definition one_frame :: "(sink \<Rightarrow> ivfw_error option \<times> 'd IVFWriter) \<Rightarrow> 'd IVFWriter \<Rightarrow> bool" where
  "one_frame call i \<longleftrightarrow>
     (\<exists>e f. frame_count f = frame_count i \<and> (\<forall>d. call d = (e, f\<lparr>ioWriter := d\<rparr>))) \<or>
     (\<exists>frame ts f. frame_count f = frame_count i \<and> (\<forall>d. call d = emit frame ts (f\<lparr>ioWriter := d\<rparr>)))"

lemma one_frame_quiet: "(\<And>d. call d = (e, f\<lparr>ioWriter := d\<rparr>)) \<Longrightarrow> frame_count f = frame_count i \<Longrightarrow> one_frame call i"
  and one_frame_emit: "(\<And>d. call d = emit frame ts (f\<lparr>ioWriter := d\<rparr>)) \<Longrightarrow> frame_count f = frame_count i \<Longrightarrow> one_frame call i"
  unfolding one_frame_def by blast+

lemma writeVP8_one_frame: "one_frame (\<lambda>d. writeVP8 c p ts (i\<lparr>ioWriter := d\<rparr>)) i"
proof (cases "vp8_Unmarshal c (pkt_Payload p)")
  case (Inl e)
  then show ?thesis by (intro one_frame_quiet[where f = i]) (simp_all add: writeVP8_def)
next
  case (Inr a)
  obtain payload S where u: "vp8_Unmarshal c (pkt_Payload p) = Inr (payload, S)" using Inr by (cases a) simp
  let ?skip = "length payload = 0 \<or> \<not> seenKeyFrame i \<and> payload ! 0 AND 0x01 \<noteq> 0 \<or> currentFrame i = [] \<and> S \<noteq> 1"
  let ?i1 = "i\<lparr>seenKeyFrame := True, currentFrame := currentFrame i @ payload\<rparr>"
  consider ?skip | "\<not> ?skip" "\<not> pkt_Marker p" | "\<not> ?skip" "pkt_Marker p" by blast
  then show ?thesis
  proof cases
    case 1
    then show ?thesis by (intro one_frame_quiet[where f = i]) (auto simp: writeVP8_def u Let_def)
  next
    case 2
    then show ?thesis by (intro one_frame_quiet[where f = ?i1]) (auto simp: writeVP8_def u Let_def)
  next
    case 3
    then show ?thesis
      by (intro one_frame_emit[where f = ?i1 and ts = ts and frame = "currentFrame i @ payload"]) (cases i, auto simp: writeVP8_def u Let_def emit_def)
  qed
qed

lemma writeVP9_one_frame: "one_frame (\<lambda>d. writeVP9 c p ts (i\<lparr>ioWriter := d\<rparr>)) i"
proof (cases "vp9_Unmarshal c (pkt_Payload p)")
  case (Inl e)
  then show ?thesis by (intro one_frame_quiet[where f = i]) (simp_all add: writeVP9_def)
next
  case (Inr a)
  obtain payload P B where u: "vp9_Unmarshal c (pkt_Payload p) = Inr (payload, P, B)" using Inr by (cases a) simp
  let ?skip = "\<not> seenKeyFrame i \<and> P \<or> currentFrame i = [] \<and> \<not> B"
  let ?i1 = "i\<lparr>seenKeyFrame := True, currentFrame := currentFrame i @ payload\<rparr>"
  let ?quiet = "\<not> pkt_Marker p \<or> currentFrame i @ payload = []"
  consider ?skip | "\<not> ?skip" ?quiet | "\<not> ?skip" "\<not> ?quiet" by blast
  then show ?thesis
  proof cases
    case 1
    then show ?thesis by (intro one_frame_quiet[where f = i]) (auto simp: writeVP9_def u Let_def)
  next
    case 2
    then show ?thesis by (intro one_frame_quiet[where f = ?i1]) (auto simp: writeVP9_def u Let_def)
  next
    case 3
    then show ?thesis
      by (intro one_frame_emit[where f = ?i1 and ts = ts and frame = "currentFrame i @ payload"]) (cases i, auto simp: writeVP9_def u Let_def emit_def)
  qed
qed

lemma writeAV1_one_frame: "one_frame (\<lambda>d. writeAV1 c p ts (i\<lparr>ioWriter := d\<rparr>)) i"
proof -
  obtain res dep where u: "av1_Unmarshal c (pkt_Payload p) (case av1Depacketizer i of None \<Rightarrow> av1_New c | Some d \<Rightarrow> d) = (res, dep)" by fastforce
  let ?i1 = "i\<lparr>av1Depacketizer := Some dep\<rparr>"
  show ?thesis
  proof (cases res)
    case (Inl e)
    then show ?thesis using u by (intro one_frame_quiet[where f = ?i1]) (simp_all add: writeAV1_def Let_def)
  next
    case (Inr payload)
    let ?skip = "\<not> seenKeyFrame i \<and> \<not> (av1_N c dep \<or> length payload > 0 \<and> drop_bit 3 (payload ! 0 AND 0x78) = OBUSequenceHeader c)"
    let ?i2 = "?i1\<lparr>seenKeyFrame := True, currentFrame := currentFrame i @ payload\<rparr>"
    consider ?skip | "\<not> ?skip" "\<not> pkt_Marker p" | "\<not> ?skip" "pkt_Marker p" by blast
    then show ?thesis
    proof cases
      case 1
      then show ?thesis using u Inr by (intro one_frame_quiet[where f = ?i1]) (auto simp: writeAV1_def Let_def)
    next
      case 2
      then show ?thesis using u Inr by (intro one_frame_quiet[where f = ?i2]) (auto simp: writeAV1_def Let_def)
    next
      case 3
      then show ?thesis using u Inr
        by (intro one_frame_emit[where f = ?i2 and ts = ts and frame = "delimiter_Marshal c @ [0] @ currentFrame i @ payload"])
          (cases i, auto simp: writeAV1_def Let_def emit_def)
    qed
  qed
qed

lemma WriteRTP_one_frame: "one_frame (\<lambda>d. ivfw_WriteRTP c p (i\<lparr>ioWriter := d\<rparr>)) i"
proof (cases "\<not> is_open i \<or> length (pkt_Payload p) = 0")
  case True
  then show ?thesis
    by (intro one_frame_quiet[where f = i and e = "if is_open i then None else Some (Err errFileNotOpened)"]) (auto simp: ivfw_WriteRTP_def)
next
  case False
  define i1 where "i1 = (if frame_count i = 0 then i\<lparr>firstFrameTimestamp := pkt_Timestamp p\<rparr> else i)"
  define ts where "ts = (let diff = to64 (pkt_Timestamp p - firstFrameTimestamp i1) in if directPTS i1 then diff else 1000 * diff div clockRate i1)"
  have fc: "frame_count i1 = frame_count i" by (simp add: i1_def)
  have w: "ivfw_WriteRTP c p (i\<lparr>ioWriter := d\<rparr>) = (case iw_codec i1 of
         codecVP8 \<Rightarrow> writeVP8 c p ts (i1\<lparr>ioWriter := d\<rparr>)
       | codecVP9 \<Rightarrow> writeVP9 c p ts (i1\<lparr>ioWriter := d\<rparr>)
       | codecAV1 \<Rightarrow> writeAV1 c p ts (i1\<lparr>ioWriter := d\<rparr>)
       | codecUnset \<Rightarrow> (Some (Err errCodecUnset), i1\<lparr>ioWriter := d\<rparr>))" for d
    using False by (cases i) (auto simp: ivfw_WriteRTP_def i1_def ts_def Let_def split: ivf_codec.split)
  show ?thesis
    using writeVP8_one_frame[of c p ts i1] writeVP9_one_frame[of c p ts i1] writeAV1_one_frame[of c p ts i1] fc
      one_frame_quiet[of "\<lambda>d. (Some (Err errCodecUnset), i1\<lparr>ioWriter := d\<rparr>)" _ i1 i]
    unfolding w by (cases "iw_codec i1") (auto simp: one_frame_def)
qed

lemma emit_appending:
  assumes "appending d" "emit frame ts (f\<lparr>ioWriter := d\<rparr>) = (e, i')"
  defines "b \<equiv> frame_bytes (frame, if directPTS f then ts else timestampToPts f ts)"
  shows "appending (ioWriter i')" "prefix (content d) (content (ioWriter i'))" "prefix (content (ioWriter i')) (content d @ b)"
    "e = None \<Longrightarrow> emit frame ts (f\<lparr>ioWriter := heal d\<rparr>) = (None, i'\<lparr>ioWriter := heal (ioWriter i')\<rparr>)"
    "frame_count i' = frame_count f + 1" "e = None \<Longrightarrow> content (ioWriter i') = content d @ b"
proof -
  let ?h = "le32 (of_nat (length frame)) @ le64 (if directPTS f then ts else timestampToPts f ts)"
  obtain e1 d1 where w1: "ivfw_Write ?h d = (e1, d1)" by fastforce
  obtain e2 d2 where w2: "ivfw_Write frame d1 = (e2, d2)" by fastforce
  note a1 = Write_appending[OF assms(1) w1] Write_torn[OF assms(1) w1]
  note a2 = Write_appending[OF a1(1) w2] Write_torn[OF a1(1) w2]
  have em: "emit frame ts (f\<lparr>ioWriter := d'\<rparr>) = (case ivfw_Write ?h d' of
      (Some e, d1) \<Rightarrow> (Some e, f\<lparr>frame_count := frame_count f + 1, ioWriter := d1\<rparr>)
    | (None, d1) \<Rightarrow> (case ivfw_Write frame d1 of
        (Some e, d2) \<Rightarrow> (Some e, f\<lparr>frame_count := frame_count f + 1, ioWriter := d2\<rparr>)
      | (None, d2) \<Rightarrow> (None, f\<lparr>frame_count := frame_count f + 1, currentFrame := [], ioWriter := d2\<rparr>)))" for d'
    by (cases f) (simp add: emit_def writeFrame_def Let_def timestampToPts_def split: prod.split option.split)
  have b: "content d @ b = content d @ ?h @ frame" by (simp add: b_def frame_bytes_def)
  have i': "ioWriter i' = (if e1 = None then d2 else d1)" "e = (if e1 = None then e2 else e1)"
    and "frame_count i' = frame_count f + 1"
    and n: "e = None \<Longrightarrow> i' = f\<lparr>frame_count := frame_count f + 1, currentFrame := [], ioWriter := d2\<rparr>"
    using assms(2) w1 w2 unfolding em by (auto split: option.splits)
  then show "frame_count i' = frame_count f + 1" by simp
  show "appending (ioWriter i')" "prefix (content d) (content (ioWriter i'))"
    using i'(1) a1(1) a2(1) a1(8) a2(8) by (auto intro: prefix_order.trans)
  show "prefix (content (ioWriter i')) (content d @ b)"
  proof (cases "e1 = None")
    case True
    then show ?thesis using a2(9) a1(3) unfolding b i'(1) by simp
  next
    case False
    then have "ioWriter i' = d1" using i'(1) by auto
    then show ?thesis using prefix_prefix[OF a1(9), of frame] unfolding b by simp
  qed
  have ok: "e1 = None" "e2 = None" if "e = None" using that i'(2) by (cases "e1 = None"; simp)+
  show "content (ioWriter i') = content d @ b" if "e = None"
    unfolding b i'(1) using ok[OF that] a1(3)[OF ok(1)[OF that]] a2(3)[OF ok(2)[OF that]] by simp
  show "emit frame ts (f\<lparr>ioWriter := heal d\<rparr>) = (None, i'\<lparr>ioWriter := heal (ioWriter i')\<rparr>)" if "e = None"
    unfolding em n[OF that] a1(4)[OF ok(1)[OF that]] prod.case option.case a2(4)[OF ok(2)[OF that]] by simp
qed

interpretation ivf_out: append_writer ioWriter "\<lambda>i. i\<lparr>ioWriter := heal (ioWriter i)\<rparr>" "ivfw_WriteRTP c" for c
proof unfold_locales
  fix i i' t :: "'a IVFWriter" and p e f e2
  assume a: "appending (ioWriter i)"
  have i: "i\<lparr>ioWriter := ioWriter i\<rparr> = i" by simp
  consider e1 f where "\<And>d. ivfw_WriteRTP c p (i\<lparr>ioWriter := d\<rparr>) = (e1, f\<lparr>ioWriter := d\<rparr>)"
    | frame ts f where "\<And>d. ivfw_WriteRTP c p (i\<lparr>ioWriter := d\<rparr>) = emit frame ts (f\<lparr>ioWriter := d\<rparr>)"
    using WriteRTP_one_frame[of c p i] unfolding one_frame_def by blast
  then have "(ivfw_WriteRTP c p i = (e, i') \<longrightarrow> appending (ioWriter i') \<and> prefix (content (ioWriter i)) (content (ioWriter i'))) \<and>
    (ivfw_WriteRTP c p i = (None, i') \<longrightarrow> ivfw_WriteRTP c p (i\<lparr>ioWriter := heal (ioWriter i)\<rparr>) = (None, i'\<lparr>ioWriter := heal (ioWriter i')\<rparr>)) \<and>
    (ivfw_WriteRTP c p i = (Some f, i') \<longrightarrow> ivfw_WriteRTP c p (i\<lparr>ioWriter := heal (ioWriter i)\<rparr>) = (e2, t) \<longrightarrow>
      prefix (content (ioWriter i')) (content (ioWriter t)))"
  proof cases
    case 1
    show ?thesis using 1[of "ioWriter i"] 1[of "heal (ioWriter i)"] a unfolding i by auto
  next
    case (2 frame ts g)
    have w: "ivfw_WriteRTP c p i = emit frame ts (g\<lparr>ioWriter := ioWriter i\<rparr>)"
      "ivfw_WriteRTP c p (i\<lparr>ioWriter := heal (ioWriter i)\<rparr>) = emit frame ts (g\<lparr>ioWriter := heal (ioWriter i)\<rparr>)"
      using 2[of "ioWriter i"] 2[of "heal (ioWriter i)"] unfolding i by simp_all
    have ha: "appending (heal (ioWriter i))" using a by simp
    have full: "content (ioWriter t) = content (ioWriter i) @ frame_bytes (frame, if directPTS g then ts else timestampToPts g ts)"
      if "emit frame ts (g\<lparr>ioWriter := heal (ioWriter i)\<rparr>) = (e2, t)"
    proof -
      have "healthy (heal (ioWriter i))" using a by (rule healthy_heal)
      then have "fst (emit frame ts (g\<lparr>ioWriter := heal (ioWriter i)\<rparr>)) = None"
        using writeFrame_healthy[of "g\<lparr>ioWriter := heal (ioWriter i)\<rparr>" frame ts] by (auto simp: emit_def)
      then show ?thesis using that emit_appending(6)[OF ha that] by simp
    qed
    show ?thesis unfolding w
    proof (intro conjI impI)
      show "emit frame ts (g\<lparr>ioWriter := heal (ioWriter i)\<rparr>) = (None, i'\<lparr>ioWriter := heal (ioWriter i')\<rparr>)"
        if "emit frame ts (g\<lparr>ioWriter := ioWriter i\<rparr>) = (None, i')" by (rule emit_appending(4)[OF a that refl])
      show "prefix (content (ioWriter i')) (content (ioWriter t))"
        if "emit frame ts (g\<lparr>ioWriter := ioWriter i\<rparr>) = (Some f, i')" "emit frame ts (g\<lparr>ioWriter := heal (ioWriter i)\<rparr>) = (e2, t)"
        unfolding full[OF that(2)] by (rule emit_appending(3)[OF a that(1)])
    qed (rule emit_appending(1,2)[OF a], assumption)+
  qed
  then show "ivfw_WriteRTP c p i = (e, i') \<Longrightarrow> appending (ioWriter i') \<and> prefix (content (ioWriter i)) (content (ioWriter i'))"
    "ivfw_WriteRTP c p i = (None, i') \<Longrightarrow> ivfw_WriteRTP c p (i\<lparr>ioWriter := heal (ioWriter i)\<rparr>) = (None, i'\<lparr>ioWriter := heal (ioWriter i')\<rparr>)"
    "ivfw_WriteRTP c p i = (Some f, i') \<Longrightarrow> ivfw_WriteRTP c p (i\<lparr>ioWriter := heal (ioWriter i)\<rparr>) = (e2, t) \<Longrightarrow>
      prefix (content (ioWriter i')) (content (ioWriter t))"
    by blast+
qed simp

lemma run_rtp_until: "run_rtp c ps i = until_error (ivfw_WriteRTP c) ps i"
  by (induction ps arbitrary: i) (auto split: prod.splits option.splits)

text \<open>What a run writes on an output without failures: the frames of its packets, one or none for each.\<close>

lemma WriteRTP_frames:
  assumes "healthy (ioWriter i)" "ivfw_WriteRTP c p i = (e, i')"
  shows "\<exists>fs. content (ioWriter i') = content (ioWriter i) @ concat (map frame_bytes fs) \<and>
    frame_count i' = frame_count i + of_nat (length fs) \<and> healthy (ioWriter i') \<and> length fs \<le> 1"
proof -
  have i: "i\<lparr>ioWriter := ioWriter i\<rparr> = i" by simp
  consider e1 f where "frame_count f = frame_count i" "\<And>d. ivfw_WriteRTP c p (i\<lparr>ioWriter := d\<rparr>) = (e1, f\<lparr>ioWriter := d\<rparr>)"
    | frame ts f where "frame_count f = frame_count i" "\<And>d. ivfw_WriteRTP c p (i\<lparr>ioWriter := d\<rparr>) = emit frame ts (f\<lparr>ioWriter := d\<rparr>)"
    using WriteRTP_one_frame[of c p i] unfolding one_frame_def by blast
  then show ?thesis
  proof cases
    case 1
    then show ?thesis using 1(2)[of "ioWriter i"] assms unfolding i by (intro exI[of _ "[]"]) auto
  next
    case (2 frame ts f)
    obtain d where d: "writeFrame frame ts (f\<lparr>ioWriter := ioWriter i\<rparr>) =
        (None, f\<lparr>frame_count := frame_count f + 1, ioWriter := d\<rparr>)" "healthy d"
      "content d = content (ioWriter i) @ frame_bytes (frame, if directPTS f then ts else timestampToPts f ts)"
      using writeFrame_healthy[of "f\<lparr>ioWriter := ioWriter i\<rparr>" frame ts] assms(1) by (auto simp: timestampToPts_def[of "f\<lparr>ioWriter := ioWriter i\<rparr>"] timestampToPts_def[of f])
    have "i' = f\<lparr>frame_count := frame_count f + 1, ioWriter := d, currentFrame := []\<rparr>"
      using 2(2)[of "ioWriter i"] assms(2) unfolding i by (simp add: emit_def d(1))
    then show ?thesis using d(2,3) 2(1)
      by (intro exI[of _ "[(frame, if directPTS f then ts else timestampToPts f ts)]"]) simp
  qed
qed

lemma run_frames:
  assumes "healthy (ioWriter i)"
  shows "\<exists>fss. (\<forall>j e i'. until_error (ivfw_WriteRTP c) (take j ps) i = (e, i') \<longrightarrow>
      content (ioWriter i') = content (ioWriter i) @ concat (map frame_bytes (concat (take j fss))) \<and>
      frame_count i' = frame_count i + of_nat (length (concat (take j fss)))) \<and>
    length fss \<le> length ps \<and> (\<forall>fs \<in> set fss. length fs \<le> 1)"
  using assms
proof (induction ps arbitrary: i)
  case Nil
  then show ?case by (intro exI[of _ "[]"]) simp
next
  case (Cons p ps)
  obtain e1 i1 where w: "ivfw_WriteRTP c p i = (e1, i1)" by fastforce
  obtain fs where fs: "content (ioWriter i1) = content (ioWriter i) @ concat (map frame_bytes fs)"
      "frame_count i1 = frame_count i + of_nat (length fs)" "healthy (ioWriter i1)" "length fs \<le> 1"
    using WriteRTP_frames[OF Cons.prems w] by blast
  obtain fss where fss: "\<And>j e i'. until_error (ivfw_WriteRTP c) (take j ps) i1 = (e, i') \<Longrightarrow>
      content (ioWriter i') = content (ioWriter i1) @ concat (map frame_bytes (concat (take j fss))) \<and>
      frame_count i' = frame_count i1 + of_nat (length (concat (take j fss)))"
      "length fss \<le> length ps" "\<forall>fs \<in> set fss. length fs \<le> 1"
    using Cons.IH[OF fs(3)] by blast
  define gss where "gss = fs # (if e1 = None then fss else [])"
  have "content (ioWriter i') = content (ioWriter i) @ concat (map frame_bytes (concat (take j gss))) \<and>
      frame_count i' = frame_count i + of_nat (length (concat (take j gss)))"
    if r: "until_error (ivfw_WriteRTP c) (take j (p # ps)) i = (e, i')" for j e i'
  proof (cases j)
    case 0
    then show ?thesis using r by simp
  next
    case (Suc j')
    show ?thesis
    proof (cases e1)
      case None
      then have "until_error (ivfw_WriteRTP c) (take j' ps) i1 = (e, i')" using r Suc w by simp
      from fss(1)[OF this] show ?thesis using fs(1,2) None by (simp add: gss_def Suc)
    next
      case (Some x)
      then have "i' = i1" using r Suc w by simp
      then show ?thesis using fs(1,2) Some by (simp add: gss_def Suc)
    qed
  qed
  moreover have "length gss \<le> length (p # ps)" "\<forall>fs \<in> set gss. length fs \<le> 1" using fss(2,3) fs(4) by (auto simp: gss_def)
  ultimately show ?case by blast
qed

lemma ivfw_NewWith_content:
  assumes "ivfw_NewWith (Some d) (media_options mime w h num den direct) = Inr i" "appending d" "content d = []"
    and "fourCC (mime_codec mime) = Some cc"
  shows "appending (ioWriter i)" "content (ioWriter i) = file_header_bytes cc w h den num 900" "frame_count i = 0" "num \<noteq> 0" "den \<noteq> 0"
proof -
  have m: "mime_codec mime \<noteq> codecUnset" using assms(4) by (auto simp: fourCC_def)
  define h0 where "h0 = file_header_bytes cc w h den num 900"
  note o = media_options_apply[OF m]
  obtain e1 d1 where w1: "ivfw_Write h0 d = (e1, d1)" by fastforce
  show nz: "num \<noteq> 0" "den \<noteq> 0" using assms(1) m unfolding ivfw_NewWith_def option.case o by (auto simp: Let_def split: if_splits)
  have hb: "str ''DKIF'' @ le16 0 @ le16 32 @ cc @ le16 w @ le16 h @ le32 den @ le32 num @ le32 900 @ le32 0 = h0"
    by (simp add: h0_def file_header_bytes_def)
  have "e1 = None \<and> ioWriter i = d1 \<and> frame_count i = 0" using assms(1,4) m nz w1[folded hb] unfolding ivfw_NewWith_def option.case o
    by (auto simp: Let_def writeHeader_def initial_ivfwriter_def split: option.splits)
  then show "appending (ioWriter i)" "content (ioWriter i) = file_header_bytes cc w h den num 900" "frame_count i = 0"
    using Write_appending(1,3)[OF assms(2) w1] assms(3) by (simp_all add: h0_def)
qed

text \<open>The bytes behind the header: a prefix of the frames, with those of the calls that succeeded.\<close>

lemma torn_frames:
  fixes i :: "'d IVFWriter"
  assumes new: "appending (ioWriter i)" "content (ioWriter i) = pre0" "frame_count i = 0"
    and run: "run_rtp c ps i = (err, i')" and len: "length ps < 2 ^ 32"
  shows "\<exists>fs b. content (ioWriter (snd (run_rtp c ps (i\<lparr>ioWriter := heal (ioWriter i)\<rparr>)))) = pre0 @ concat (map frame_bytes fs) \<and>
    content (ioWriter i') = pre0 @ b \<and> prefix b (concat (map frame_bytes fs)) \<and>
    (\<forall>j ij. run_rtp c (take j ps) i = (None, ij) \<longrightarrow> unat (frame_count ij) \<le> length fs \<and>
      length (concat (map frame_bytes (take (unat (frame_count ij)) fs))) \<le> length b)"
proof -
  let ?heal = "\<lambda>i :: 'd IVFWriter. i\<lparr>ioWriter := heal (ioWriter i)\<rparr>"
  have healthy: "healthy (ioWriter (?heal i))" using healthy_heal[OF new(1)] by simp
  obtain fss where fss: "\<And>j e t. until_error (ivfw_WriteRTP c) (take j ps) (?heal i) = (e, t) \<Longrightarrow>
      content (ioWriter t) = pre0 @ concat (map frame_bytes (concat (take j fss))) \<and>
      frame_count t = of_nat (length (concat (take j fss)))" "length fss \<le> length ps" "\<forall>fs \<in> set fss. length fs \<le> 1"
    using run_frames[OF healthy, of c ps] new(2,3) by auto
  define fs where "fs = concat fss"
  have run': "until_error (ivfw_WriteRTP c) ps i = (err, i')" using run by (simp add: run_rtp_until)
  obtain e2 t where t: "until_error (ivfw_WriteRTP c) ps (?heal i) = (e2, t)" by fastforce
  have ct: "content (ioWriter t) = pre0 @ concat (map frame_bytes fs)" using fss(1)[of "length ps" e2 t] t fss(2) by (simp add: fs_def)
  obtain b where b: "content (ioWriter i') = pre0 @ b"
    using ivf_out.run_appends[OF new(1) run'] new(2) by (auto simp: prefix_def)
  have pre: "prefix b (concat (map frame_bytes fs))" using ivf_out.run_torn[OF new(1) run' t] by (simp add: b ct)
  have short: "length (concat gs) \<le> length gs" if "\<forall>fs \<in> set gs. length fs \<le> 1" for gs :: "(bytes \<times> u64) list list"
    using that by (induction gs) auto
  have ack: "unat (frame_count ij) \<le> length fs \<and> length (concat (map frame_bytes (take (unat (frame_count ij)) fs))) \<le> length b"
    if j: "run_rtp c (take j ps) i = (None, ij)" for j ij
  proof -
    let ?g = "concat (take j fss)"
    have rj: "until_error (ivfw_WriteRTP c) (take j ps) i = (None, ij)" using j by (simp add: run_rtp_until)
    have ij: "content (ioWriter ij) = pre0 @ concat (map frame_bytes ?g)" "frame_count ij = of_nat (length ?g)"
      using fss(1)[OF ivf_out.run_healed[OF new(1) rj]] by simp_all
    have fs: "fs = ?g @ concat (drop j fss)" by (metis append_take_drop_id concat_append fs_def)
    then have g: "take (length ?g) fs = ?g" "length ?g \<le> length fs" by simp_all
    have "length ?g < 2 ^ 64" using g(2) short[OF fss(3)] fss(2) len by (simp add: fs_def)
    then have "unat (frame_count ij) = length ?g" unfolding ij(2) by (simp add: unat_of_nat take_bit_nat_eq_self)
    then show ?thesis using g prefix_length_le[OF ivf_out.run_acknowledged[OF new(1) rj run']] b ij(1) by simp
  qed
  have "snd (run_rtp c ps (?heal i)) = t" using t by (simp add: run_rtp_until)
  then show ?thesis using ct b pre ack by blast
qed

text \<open>
  C11: A recording survives a failing output. For any of the three codecs, any payload format behaviour, any packets
  and an output any of whose writes may fail after any number of bytes: let \<open>fs\<close> be the frames the same calls
  write on an output without failures. When the caller stops at the first error of \<open>WriteRTP\<close> and never closes,
  the file opens with its header and \<open>ParseNextFrame\<close> returns the first frames of \<open>fs\<close> exactly; the frames of all
  calls that returned no error are among them. Frames are up to 64 MiB, the reader's default limit. A frame torn inside its
  header or inside its data is then reported as incomplete. A file that ends with a whole frame ends with \<open>io.EOF\<close>, and so does, against the comment of
  \<open>ParseNextFrame\<close>, a file that ends right behind the twelve bytes of a frame header.
\<close>

theorem ivf_durable:
  assumes "ivfw_NewWith (Some d) (media_options mime w h num den direct) = Inr (i :: 'd IVFWriter)"
    and "pos d = 0" "content d = []" "fourCC (mime_codec mime) = Some cc"
    and "run_rtp c ps i = (err, i')" "length ps < 2 ^ 32"
  shows "\<exists>fs. content (ioWriter (snd (run_rtp c ps (i\<lparr>ioWriter := heal (ioWriter i)\<rparr>)))) =
      content (ioWriter i) @ concat (map frame_bytes fs) \<and>
    ((\<forall>f \<in> set fs. length (fst f) \<le> 0x4000000) \<longrightarrow> (\<exists>m k r r' hdr. m \<le> length fs \<and>
      ivf_NewWith (Some \<lparr>st_data = content (ioWriter i'), st_end = None\<rparr>) [] = Inr (r, hdr) \<and>
      FourCC hdr = cc \<and> Width hdr = w \<and> Height hdr = h \<and> TimebaseDenominator hdr = den \<and> TimebaseNumerator hdr = num \<and>
      reads ParseNextFrame r (map (frame_out r) (take m fs)) r' \<and>
      length (content (ioWriter i')) = 32 + length (concat (map frame_bytes (take m fs))) + k \<and>
      (if m = length fs then k = 0 \<and> fst (ParseNextFrame r') = Inl EOF
       else k < length (frame_bytes (fs ! m)) \<and> fst (ParseNextFrame r') = Inl (if k = 0 \<or> k = 12 then EOF
         else if k < 12 then Err errIncompleteFrameHeader else Err errIncompleteFrameData)) \<and>
      (\<forall>j ij. j \<le> length ps \<and> run_rtp c (take j ps) i = (None, ij) \<longrightarrow> unat (frame_count ij) \<le> m)))"
proof -
  have ap: "appending d" using assms(2,3) by (simp add: appending_def)
  note new = ivfw_NewWith_content[OF assms(1) ap assms(3,4)]
  have cc: "length cc = 4" using assms(4) by (auto simp: fourCC_def str_def split: ivf_codec.splits)
  have hl: "length (content (ioWriter i)) = 32" using cc by (simp add: new(2) file_header_bytes_def str_def)
  obtain fs b where fs: "content (ioWriter (snd (run_rtp c ps (i\<lparr>ioWriter := heal (ioWriter i)\<rparr>)))) = content (ioWriter i) @ concat (map frame_bytes fs)"
    and b: "content (ioWriter i') = content (ioWriter i) @ b" and pre: "prefix b (concat (map frame_bytes fs))"
    and ack: "\<And>j ij. run_rtp c (take j ps) i = (None, ij) \<Longrightarrow> unat (frame_count ij) \<le> length fs \<and>
      length (concat (map frame_bytes (take (unat (frame_count ij)) fs))) \<le> length b"
    using torn_frames[OF new(1) refl new(3) assms(5,6)] by blast
  define r where "r = \<lparr>ivf_stream = \<lparr>st_data = b, st_end = None\<rparr>, bytesReadSuccesfully = 32, timebaseDenominator = den,
      timebaseNumerator = num, maxFrameSize = 0x4000000\<rparr>"
  obtain hdr where opens: "ivf_NewWith (Some \<lparr>st_data = content (ioWriter i'), st_end = None\<rparr>) [] = Inr (r, hdr)"
      "FourCC hdr = cc" "Width hdr = w" "Height hdr = h" "TimebaseDenominator hdr = den" "TimebaseNumerator hdr = num"
    unfolding b new(2) parse_file_header[OF cc new(5,4)] r_def by simp
  have at: "at_data b r = r" "st_end (ivf_stream r) = None" by (simp_all add: at_data_def r_def)
  show ?thesis
  proof (intro exI[of _ fs] conjI impI)
    assume "\<forall>f \<in> set fs. length (fst f) \<le> 0x4000000"
    then have "list_all (frame_fits r) fs" by (simp add: list_all_iff frame_fits_def r_def)
    from ivf_cut.reads_prefix[OF at(2) this pre, unfolded at(1)] obtain m k r' where m: "m \<le> length fs"
      "reads ParseNextFrame r (map (frame_out r) (take m fs)) r'" "length b = length (concat (map frame_bytes (take m fs))) + k"
      "if m = length fs then k = 0 \<and> fst (ParseNextFrame r') = Inl EOF
       else k < length (frame_bytes (fs ! m)) \<and> fst (ParseNextFrame r') = Inl (if k = 0 \<or> k = 12 then EOF
         else if k < 12 then Err errIncompleteFrameHeader else Err errIncompleteFrameData)"
      and all: "\<And>j. j \<le> length fs \<Longrightarrow> length (concat (map frame_bytes (take j fs))) \<le> length b \<Longrightarrow> j \<le> m"
      by blast
    have ln: "length (content (ioWriter i')) = 32 + length (concat (map frame_bytes (take m fs))) + k" using m(3) hl by (simp add: b)
    have "\<forall>j ij. j \<le> length ps \<and> run_rtp c (take j ps) i = (None, ij) \<longrightarrow> unat (frame_count ij) \<le> m" using all ack by blast
    then show "\<exists>m k r r' hdr. m \<le> length fs \<and>
      ivf_NewWith (Some \<lparr>st_data = content (ioWriter i'), st_end = None\<rparr>) [] = Inr (r, hdr) \<and>
      FourCC hdr = cc \<and> Width hdr = w \<and> Height hdr = h \<and> TimebaseDenominator hdr = den \<and> TimebaseNumerator hdr = num \<and>
      reads ParseNextFrame r (map (frame_out r) (take m fs)) r' \<and>
      length (content (ioWriter i')) = 32 + length (concat (map frame_bytes (take m fs))) + k \<and>
      (if m = length fs then k = 0 \<and> fst (ParseNextFrame r') = Inl EOF
       else k < length (frame_bytes (fs ! m)) \<and> fst (ParseNextFrame r') = Inl (if k = 0 \<or> k = 12 then EOF
         else if k < 12 then Err errIncompleteFrameHeader else Err errIncompleteFrameData)) \<and>
      (\<forall>j ij. j \<le> length ps \<and> run_rtp c (take j ps) i = (None, ij) \<longrightarrow> unat (frame_count ij) \<le> m)"
      using opens m(1,2,4) ln by blast
  qed (rule fs)
qed

section \<open>AV1\<close>

text \<open>
  The frames of a sequence of AV1 packets: each is a temporal delimiter and the payloads the depacketizer
  gives up to the marker, from the first packet on that starts a coded sequence. The state of the depacketizer
  goes through all packets; \<open>None\<close> when it refuses one.
\<close>

definition av1_key :: "'d ivf_codecs \<Rightarrow> 'd \<Rightarrow> bytes \<Rightarrow> bool" where
  "av1_key c dep payload \<longleftrightarrow> av1_N c dep \<or>
     (payload \<noteq> [] \<and> drop_bit 3 (payload ! 0 AND 0x78) = OBUSequenceHeader c)"

fun av1_frames :: "'d ivf_codecs \<Rightarrow> 'd \<Rightarrow> bool \<Rightarrow> bytes \<Rightarrow> rtp_packet list \<Rightarrow> (u32 \<times> bytes) list option" where
  "av1_frames c dep seen cur [] = Some []"
| "av1_frames c dep seen cur (p # ps) =
     (if pkt_Payload p = [] then av1_frames c dep seen cur ps
      else case av1_Unmarshal c (pkt_Payload p) dep of
        (Inl _, _) \<Rightarrow> None
      | (Inr payload, dep1) \<Rightarrow>
          if \<not> seen \<and> \<not> av1_key c dep1 payload then av1_frames c dep1 False cur ps
          else if \<not> pkt_Marker p then av1_frames c dep1 True (cur @ payload) ps
          else map_option (Cons (pkt_Timestamp p, delimiter_Marshal c @ [0] @ cur @ payload)) (av1_frames c dep1 True [] ps))"

definition av1_out :: "(u32 \<Rightarrow> u64) \<Rightarrow> (u32 \<times> bytes) list \<Rightarrow> (bytes \<times> u64) list" where
  "av1_out pts frs = map (\<lambda>(t, d). (d, pts t)) frs"

definition current_dep :: "'d ivf_codecs \<Rightarrow> 'd IVFWriter \<Rightarrow> 'd" where
  "current_dep c i = (case av1Depacketizer i of None \<Rightarrow> av1_New c | Some d \<Rightarrow> d)"

text \<open>One packet: skipped, collected, or the end of a frame.\<close>

lemma WriteRTP_av1:
  assumes "is_open i" "iw_codec i = codecAV1" "pkt_Payload p \<noteq> []"
    and "av1_Unmarshal c (pkt_Payload p) (current_dep c i) = (Inr payload, dep1)"
  defines "i1 \<equiv> (stamp p i)\<lparr>av1Depacketizer := Some dep1\<rparr>"
  shows "ivfw_WriteRTP c p i =
    (if \<not> seenKeyFrame i \<and> \<not> av1_key c dep1 payload then (None, i1)
     else if \<not> pkt_Marker p then (None, i1\<lparr>seenKeyFrame := True, currentFrame := currentFrame i @ payload\<rparr>)
     else emit (delimiter_Marshal c @ [0] @ currentFrame i @ payload)
       (rtp_time (directPTS i) (clockRate i) (firstFrameTimestamp (stamp p i)) (pkt_Timestamp p))
       (i1\<lparr>seenKeyFrame := True, currentFrame := currentFrame i @ payload\<rparr>))"
  using assms by (simp add: ivfw_WriteRTP_def writeAV1_def stamp_def rtp_time_def current_dep_def av1_key_def emit_def Let_def)

lemma av1_written:
  assumes "av1_frames c (current_dep c i) (seenKeyFrame i) (currentFrame i) ps = Some frs"
    and "is_open i" "iw_codec i = codecAV1" "healthy (ioWriter i)" "unat (frame_count i) + length ps < 2 ^ 64"
    and "base = (if frame_count i = 0 then (case frs of [] \<Rightarrow> base | (t, _) # _ \<Rightarrow> t) else firstFrameTimestamp i)"
  shows "\<exists>i'. run_rtp c ps i = (None, i') \<and> same_format i i' \<and> healthy (ioWriter i') \<and>
    content (ioWriter i') = content (ioWriter i) @ concat (map frame_bytes (av1_out (frame_pts i base) frs)) \<and>
    frame_count i' = frame_count i + of_nat (length frs)"
  using assms
proof (induction ps arbitrary: i frs)
  case Nil
  then show ?case by (simp add: same_format_def av1_out_def)
next
  case (Cons p ps)
  show ?case
  proof (cases "pkt_Payload p = []")
    case True
    have "ivfw_WriteRTP c p i = (None, i)" using True Cons.prems(2) by (simp add: ivfw_WriteRTP_def)
    then show ?thesis using Cons.IH[of i frs] Cons.prems True by simp
  next
    case False
    obtain payload dep1 where u: "av1_Unmarshal c (pkt_Payload p) (current_dep c i) = (Inr payload, dep1)"
      using Cons.prems(1) False by (auto split: prod.splits sum.splits)
    let ?i1 = "(stamp p i)\<lparr>av1Depacketizer := Some dep1\<rparr>"
    let ?i2 = "?i1\<lparr>seenKeyFrame := True, currentFrame := currentFrame i @ payload\<rparr>"
    note w = WriteRTP_av1[OF Cons.prems(2,3) False u]
    have dep: "current_dep c ?i1 = dep1" "current_dep c ?i2 = dep1" by (simp_all add: current_dep_def)
    have st: "seenKeyFrame (stamp p i) = seenKeyFrame i" "currentFrame (stamp p i) = currentFrame i" "ioWriter (stamp p i) = ioWriter i"
      "frame_count (stamp p i) = frame_count i" "same_format i ?i1" "same_format i ?i2"
      "is_open (stamp p i)" "iw_codec (stamp p i) = codecAV1"
      using Cons.prems(2,3) by (simp_all add: stamp_def same_format_def)
    have b: "base = (if frame_count (stamp p i) = 0 then (case frs of [] \<Rightarrow> base | (t, _) # _ \<Rightarrow> t) else firstFrameTimestamp (stamp p i))"
      by (rule trans[OF Cons.prems(6)]) (simp add: stamp_def)
    have len: "unat (frame_count i) + length ps < 2 ^ 64" using Cons.prems(5) by simp
    have go: ?thesis if wj: "ivfw_WriteRTP c p i = (None, j)" and j: "same_format i j" "frame_count j = frame_count i"
        "ioWriter j = ioWriter i" "firstFrameTimestamp j = firstFrameTimestamp (stamp p i)" "is_open j" "iw_codec j = codecAV1"
        "av1_frames c (current_dep c j) (seenKeyFrame j) (currentFrame j) ps = Some frs" for j
    proof -
      have bj: "base = (if frame_count j = 0 then (case frs of [] \<Rightarrow> base | (t, _) # _ \<Rightarrow> t) else firstFrameTimestamp j)"
        by (rule trans[OF b]) (simp add: j(2,4) st(4))
      have "\<exists>i'. run_rtp c ps j = (None, i') \<and> same_format j i' \<and> healthy (ioWriter i') \<and>
        content (ioWriter i') = content (ioWriter j) @ concat (map frame_bytes (av1_out (frame_pts j base) frs)) \<and>
        frame_count i' = frame_count j + of_nat (length frs)"
        by (rule Cons.IH[OF j(7,5,6) _ _ bj]) (use j(2,3) Cons.prems(4) len in simp_all)
      moreover have "frame_pts j base = frame_pts i base" using same_format_pts[OF j(1)] by blast
      ultimately show ?thesis using wj j(1-3) same_format_trans[OF j(1)] by auto
    qed
    consider "\<not> seenKeyFrame i \<and> \<not> av1_key c dep1 payload"
      | "seenKeyFrame i \<or> av1_key c dep1 payload" "\<not> pkt_Marker p" | "seenKeyFrame i \<or> av1_key c dep1 payload" "pkt_Marker p" by blast
    then show ?thesis
    proof cases
      case 1
      then show ?thesis using go[of ?i1] w Cons.prems(1) False u st dep by simp
    next
      case 2
      then have k: "(\<not> seenKeyFrame i \<and> \<not> av1_key c dep1 payload) = False" by blast
      have "av1_frames c dep1 True (currentFrame i @ payload) ps = Some frs" using Cons.prems(1) False u 2(2) by (simp add: k)
      then show ?thesis using go[of ?i2] w[unfolded k] 2(2) st dep by simp
    next
      case 3
      define data where "data = delimiter_Marshal c @ [0] @ currentFrame i @ payload"
      have k: "(\<not> seenKeyFrame i \<and> \<not> av1_key c dep1 payload) = False" using 3(1) by blast
      obtain gs where gs: "av1_frames c dep1 True [] ps = Some gs" "frs = (pkt_Timestamp p, data) # gs"
        using Cons.prems(1) False u 3(2) by (auto simp: data_def k)
      have base: "firstFrameTimestamp (stamp p i) = base" using b st(4) by (simp add: gs(2) stamp_def split: if_splits)
      let ?ts = "rtp_time (directPTS i) (clockRate i) base (pkt_Timestamp p)"
      obtain d where d: "writeFrame data ?ts ?i2 = (None, ?i2\<lparr>frame_count := frame_count ?i2 + 1, ioWriter := d\<rparr>)" "healthy d"
        "content d = content (ioWriter i) @ frame_bytes (data, if directPTS ?i2 then ?ts else timestampToPts ?i2 ?ts)"
        "can_seek d = can_seek (ioWriter i)" "can_close d = can_close (ioWriter i)"
        using writeFrame_healthy[of ?i2 data ?ts] Cons.prems(4) st(3) by auto
      define j where "j = ?i2\<lparr>frame_count := frame_count ?i2 + 1, ioWriter := d, currentFrame := []\<rparr>"
      have wj: "ivfw_WriteRTP c p i = (None, j)" unfolding w[unfolded k] base using 3(2) d(1) by (simp add: emit_def j_def data_def)
      have "frame_pts i base (pkt_Timestamp p) = (if directPTS ?i2 then ?ts else timestampToPts ?i2 ?ts)"
        by (simp add: frame_pts_def Let_def timestampToPts_def stamp_def)
      note pts = this
      have j: "same_format i j" "current_dep c j = dep1" "seenKeyFrame j" "currentFrame j = []" "is_open j" "iw_codec j = codecAV1"
        "ioWriter j = d" "frame_count j = frame_count i + 1" "firstFrameTimestamp j = base"
        using st d(4,5) base by (simp_all add: j_def same_format_def current_dep_def)
      have nz: "frame_count i + 1 \<noteq> 0" "unat (frame_count i + 1) = unat (frame_count i) + 1"
        using count_step[of "frame_count i"] Cons.prems(5) by simp_all
      obtain i' where i': "run_rtp c ps j = (None, i')" "same_format j i'" "healthy (ioWriter i')"
        "content (ioWriter i') = content d @ concat (map frame_bytes (av1_out (frame_pts j base) gs))"
        "frame_count i' = frame_count i + 1 + of_nat (length gs)"
        using Cons.IH[of j gs] j d(2) gs(1) nz Cons.prems(5) by auto
      have "frame_pts j base = frame_pts i base" using same_format_pts[OF j(1)] by blast
      then show ?thesis using wj i' same_format_trans[OF j(1) i'(2)] d(3) pts by (auto simp: gs(2) av1_out_def)
    qed
  qed
qed

lemma av1_frames_length: "av1_frames c dep seen cur ps = Some frs \<Longrightarrow> length frs \<le> length ps"
  by (induction c dep seen cur ps arbitrary: frs rule: av1_frames.induct)
    (auto split: if_splits prod.splits sum.splits option.splits intro: le_SucI)

text \<open>
  C9: A recorded AV1 stream round-trips through an IVF file. For any depacketizer and any sequence of packets it
  takes, with losses, skipped packets and frames of several packets as they come: writing and closing
  succeed, the reader opens the file with the written header and returns exactly the frames of the packets (from
  the first start of a coded sequence on, each with a temporal delimiter in front) with their presentation
  times, then \<open>io.EOF\<close>.
\<close>

theorem ivf_av1_file:
  assumes "healthy d" "content d = []" "num \<noteq> 0" "den \<noteq> 0" "av1_frames c (av1_New c) False [] ps = Some frs"
    and "length ps < 2 ^ 32" "\<forall>f \<in> set frs. length (snd f) \<le> 0x4000000"
  shows "\<exists>(i :: 'd IVFWriter) i1 i2 r r'. ivfw_NewWith (Some d) (media_options mimeTypeAV1 w h num den direct) = Inr i \<and>
    run_rtp c ps i = (None, i1) \<and> ivfw_Close i1 = (None, i2) \<and>
    ivf_NewWith (Some \<lparr>st_data = content (ioWriter i2), st_end = None\<rparr>) [] = Inr (r,
      \<lparr>ivf_signature = str ''DKIF'', ivf_version = 0, ivf_headerSize = 32, FourCC = str ''AV01'', Width = w, Height = h,
       TimebaseDenominator = den, TimebaseNumerator = num,
       NumFrames = (if can_seek d then of_nat (length frs) else 900), ivf_unused = 0\<rparr>) \<and>
    reads ParseNextFrame r (map (frame_out r) (av1_out (frame_pts i (fst (hd frs))) frs)) r' \<and>
    fst (ParseNextFrame r') = Inl EOF"
proof -
  have m: "mime_codec mimeTypeAV1 = codecAV1" "fourCC codecAV1 = Some (str ''AV01'')" "length (str ''AV01'') = 4"
    by (simp_all add: mime_codec_def fourCC_def str_def mimeTypeVP8_def mimeTypeVP9_def mimeTypeAV1_def)
  obtain i :: "'d IVFWriter" where i: "ivfw_NewWith (Some d) (media_options mimeTypeAV1 w h num den direct) = Inr i" "is_open i"
    "iw_codec i = codecAV1" "healthy (ioWriter i)" "content (ioWriter i) = file_header_bytes (str ''AV01'') w h den num 900" "frame_count i = 0"
    "\<not> seenKeyFrame i" "currentFrame i = []" "av1Depacketizer i = None" "can_seek (ioWriter i) = can_seek d"
    using ivfw_NewWith_healthy[OF assms(1,2) _ assms(3,4), of mimeTypeAV1 "str ''AV01''" w h direct] m by auto
  let ?base = "fst (hd frs)" and ?fs = "av1_out (frame_pts i (fst (hd frs))) frs"
  have fr: "av1_frames c (current_dep c i) (seenKeyFrame i) (currentFrame i) ps = Some frs"
    using assms(5) i(7-9) by (simp add: current_dep_def)
  have len: "unat (frame_count i) + length ps < 2 ^ 64" using i(6) assms(6) by simp
  have "?base = (if frame_count i = 0 then (case frs of [] \<Rightarrow> ?base | (t, _) # _ \<Rightarrow> t) else firstFrameTimestamp i)"
    using i(6) by (auto split: list.split)
  from av1_written[OF fr i(2-4) len this] obtain i1 where i1: "run_rtp c ps i = (None, i1)" "same_format i i1" "healthy (ioWriter i1)"
    "content (ioWriter i1) = content (ioWriter i) @ concat (map frame_bytes ?fs)" "frame_count i1 = frame_count i + of_nat (length frs)" by blast
  have "length frs \<le> length ps" by (rule av1_frames_length[OF assms(5)])
  then have f: "length ?fs = length frs" "length ?fs < 2 ^ 32" "\<forall>f \<in> set ?fs. length (fst f) \<le> 0x4000000"
    using assms(6,7) by (auto simp: av1_out_def)
  have "is_open i1" "can_seek (ioWriter i1) = can_seek d" using i1(2) i(2,10) by (simp_all add: same_format_def)
  moreover have "frame_count i1 = of_nat (length ?fs)" using i1(5) i(6) f(1) by simp
  moreover have "content (ioWriter i1) = file_header_bytes (str ''AV01'') w h den num 900 @ concat (map frame_bytes ?fs)" using i1(4) i(5) by simp
  ultimately show ?thesis
    using i(1) i1(1) file_closed[OF _ i1(3) _ _ f(2,3) m(3) assms(3,4), of w h] f(1) by fastforce
qed

definition witness_av1 :: "rtp_packet list" where
  "witness_av1 = [\<lparr>pkt_Timestamp = 3000, pkt_Marker = False, pkt_Payload = [0x0A, 1]\<rparr>,
     \<lparr>pkt_Timestamp = 3000, pkt_Marker = True, pkt_Payload = [2]\<rparr>, \<lparr>pkt_Timestamp = 6000, pkt_Marker = True, pkt_Payload = [3, 4]\<rparr>]"

definition witness_av1_frames :: "(u32 \<times> bytes) list" where
  "witness_av1_frames = [(3000, [0x12, 0, 0, 0x0A, 1, 2]), (6000, [0x12, 0, 0, 3, 4])]"

theorem ivf_av1_file_witness:
  "\<exists>(i :: unit IVFWriter) i1 i2 r r'. ivfw_NewWith (Some witness_out) (media_options mimeTypeAV1 640 480 1 30 True) = Inr i \<and>
    run_rtp witness_codecs witness_av1 i = (None, i1) \<and> ivfw_Close i1 = (None, i2) \<and>
    ivf_NewWith (Some \<lparr>st_data = content (ioWriter i2), st_end = None\<rparr>) [] = Inr (r,
      \<lparr>ivf_signature = str ''DKIF'', ivf_version = 0, ivf_headerSize = 32, FourCC = str ''AV01'', Width = 640, Height = 480,
       TimebaseDenominator = 30, TimebaseNumerator = 1,
       NumFrames = (if can_seek witness_out then of_nat (length witness_av1_frames) else 900), ivf_unused = 0\<rparr>) \<and>
    reads ParseNextFrame r (map (frame_out r) (av1_out (frame_pts i (fst (hd witness_av1_frames))) witness_av1_frames)) r' \<and>
    fst (ParseNextFrame r') = Inl EOF"
  by (rule ivf_av1_file)
    (simp_all add: witness_out_def healthy_def witness_av1_def witness_codecs_def av1_key_def witness_av1_frames_def)

definition witness_full_disk :: sink where
  "witness_full_disk = \<lparr>content = [], pos = 0, plan = [None, None, None, Some (7, 1)], can_seek = True, can_close = True, closed = False\<rparr>"

definition witness_durable :: "unit IVFWriter" where
  "witness_durable = (case ivfw_NewWith (Some witness_full_disk) (media_options mimeTypeAV1 640 480 1 30 True) of Inr i \<Rightarrow> i | Inl _ \<Rightarrow> initial_ivfwriter witness_full_disk)"

text \<open>The second frame is torn inside its header; the first is read back.\<close>

theorem ivf_durable_witness:
  "\<exists>err i' m r r' hdr fs. run_rtp witness_codecs witness_av1 witness_durable = (Some err, i') \<and> 1 \<le> m \<and>
     ivf_NewWith (Some \<lparr>st_data = content (ioWriter i'), st_end = None\<rparr>) [] = Inr (r, hdr) \<and> FourCC hdr = str ''AV01'' \<and>
     reads ParseNextFrame r (map (frame_out r) (take m fs)) r'"
proof -
  have new: "ivfw_NewWith (Some witness_full_disk) (media_options mimeTypeAV1 640 480 1 30 True) = Inr witness_durable"
    by (simp add: ivfw_NewWith_def media_options_def WithCodec_def WithWidthAndHeight_def WithFrameRate_def WithDirectPTS_def initial_ivfwriter_def
        mimeTypeVP8_def mimeTypeVP9_def mimeTypeAV1_def Let_def writeHeader_def fourCC_def Write_def witness_full_disk_def witness_durable_def)
  define t where "t = snd (run_rtp witness_codecs witness_av1 (witness_durable\<lparr>ioWriter := heal (ioWriter witness_durable)\<rparr>))"
  have len: "length (content (ioWriter t)) = 67" "length (content (ioWriter witness_durable)) = 32" unfolding t_def by code_simp+
  have run: "case run_rtp witness_codecs witness_av1 witness_durable of (Some _, _) \<Rightarrow> True | (None, _) \<Rightarrow> False"
    "case run_rtp witness_codecs (take 2 witness_av1) witness_durable of (Some _, _) \<Rightarrow> False | (None, i) \<Rightarrow> frame_count i = 1" by code_simp+
  obtain err i' where r: "run_rtp witness_codecs witness_av1 witness_durable = (Some err, i')" using run(1) by (auto split: prod.splits option.splits)
  obtain i2 where r2: "run_rtp witness_codecs (take 2 witness_av1) witness_durable = (None, i2)" "frame_count i2 = 1"
    using run(2) by (auto split: prod.splits option.splits)
  have cc: "fourCC (mime_codec mimeTypeAV1) = Some (str ''AV01'')" by code_simp
  have d: "pos witness_full_disk = 0" "content witness_full_disk = []" "length witness_av1 < 2 ^ 32" "2 \<le> length witness_av1"
    by (simp_all add: witness_full_disk_def witness_av1_def)
  obtain fs where fs: "content (ioWriter t) = content (ioWriter witness_durable) @ concat (map frame_bytes fs)"
    and imp: "(\<forall>f \<in> set fs. length (fst f) \<le> 0x4000000) \<longrightarrow> (\<exists>m k r r' hdr. m \<le> length fs \<and>
      ivf_NewWith (Some \<lparr>st_data = content (ioWriter i'), st_end = None\<rparr>) [] = Inr (r, hdr) \<and>
      FourCC hdr = str ''AV01'' \<and> Width hdr = 640 \<and> Height hdr = 480 \<and> TimebaseDenominator hdr = 30 \<and> TimebaseNumerator hdr = 1 \<and>
      reads ParseNextFrame r (map (frame_out r) (take m fs)) r' \<and>
      length (content (ioWriter i')) = 32 + length (concat (map frame_bytes (take m fs))) + k \<and>
      (if m = length fs then k = 0 \<and> fst (ParseNextFrame r') = Inl EOF
       else k < length (frame_bytes (fs ! m)) \<and> fst (ParseNextFrame r') = Inl (if k = 0 \<or> k = 12 then EOF
         else if k < 12 then Err errIncompleteFrameHeader else Err errIncompleteFrameData)) \<and>
      (\<forall>j ij. j \<le> length witness_av1 \<and> run_rtp witness_codecs (take j witness_av1) witness_durable = (None, ij) \<longrightarrow> unat (frame_count ij) \<le> m))"
    using ivf_durable[OF new d(1,2) cc r d(3)] unfolding t_def[symmetric] by blast
  have "length (fst f) \<le> 0x4000000" if f: "f \<in> set fs" for f
  proof -
    have "length (frame_bytes f) \<le> length (concat (map frame_bytes fs))" using f by (induction fs) auto
    also have "\<dots> = 35" using arg_cong[OF fs, of length] len by simp
    finally show ?thesis by (simp add: length_frame_bytes)
  qed
  then obtain m r' q hdr where m: "ivf_NewWith (Some \<lparr>st_data = content (ioWriter i'), st_end = None\<rparr>) [] = Inr (q, hdr)"
    "FourCC hdr = str ''AV01''" "reads ParseNextFrame q (map (frame_out q) (take m fs)) r'"
    "\<forall>j ij. j \<le> length witness_av1 \<and> run_rtp witness_codecs (take j witness_av1) witness_durable = (None, ij) \<longrightarrow> unat (frame_count ij) \<le> m"
    using imp by blast
  then have "1 \<le> m" using m(4) r2 d(4) by fastforce
  then show ?thesis using r m(1-3) by blast
qed

end
