(* ===== verification/H26xWriter.thy ===== *)
theory H26xWriter
  imports GoIO H265Reader
begin

text \<open>
  The recorders of raw H.264 and H.265 streams, \<open>h264writer/h264writer.go\<close> and
  \<open>h265writer/h265writer.go\<close>. The depacketizers \<open>codecs.H264Packet\<close> and \<open>codecs.H265Depacketizer\<close> live
  in \<open>github.com/pion/rtp\<close>; each is an argument, its zero value and its \<open>Unmarshal\<close>, which gives an
  error number or the bytes to write, and its next state. A nil \<open>io.Writer\<close> is \<open>None\<close>; a result \<open>None\<close> is
  a run-time panic, the call of a method of a nil writer. Packets are not nil.
\<close>

record 'd depacketizer =
  dep_New :: 'd
  dep_Unmarshal :: "bytes \<Rightarrow> 'd \<Rightarrow> (nat + bytes) \<times> 'd"

datatype h26xwriter_error = errDepacketizer nat

type_synonym h26xw_error = "h26xwriter_error error"

section \<open>h264writer.go\<close>

record 'd H264Writer =
  h264w_writer :: "sink option"
  h264w_hasKeyFrame :: bool
  h264w_cachedPacket :: "'d option"

definition h264w_NewWith :: "sink option \<Rightarrow> 'd H264Writer" where
  "h264w_NewWith w = \<lparr>h264w_writer = w, h264w_hasKeyFrame = False, h264w_cachedPacket = None\<rparr>"

text \<open>\<open>New\<close> with the result of \<open>os.Create\<close> as an argument.\<close>

definition h264w_New :: "h26xw_error + sink \<Rightarrow> h26xw_error + 'd H264Writer" where
  "h264w_New created = (case created of Inl err \<Rightarrow> Inl err | Inr f \<Rightarrow> Inr (h264w_NewWith (Some f)))"

definition h264_isKeyFrame :: "bytes \<Rightarrow> bool" where
  "h264_isKeyFrame data = (case ReadFull 4 \<lparr>st_data = data, st_end = None\<rparr> :: (h26xw_error + bytes) \<times> stream of
     (Inl _, _) \<Rightarrow> False
   | (Inr b, _) \<Rightarrow>
       let word = get_be32 b;
           naluType = drop_bit 24 word AND 0x1F in
       if naluType = 24 \<and> word AND 0x1F = 7 then True
       else if naluType = 7 then True
       else False)"

definition h264w_WriteRTP ::
  "'d depacketizer \<Rightarrow> bytes \<Rightarrow> 'd H264Writer \<Rightarrow> (h26xw_error option \<times> 'd H264Writer) option" where
  "h264w_WriteRTP c payload h =
     (if length payload = 0 then Some (None, h)
      else let h1 = (if \<not> h264w_hasKeyFrame h then h\<lparr>h264w_hasKeyFrame := h264_isKeyFrame payload\<rparr> else h) in
      if \<not> h264w_hasKeyFrame h1 then Some (None, h1)
      else let dep = (case h264w_cachedPacket h1 of None \<Rightarrow> dep_New c | Some d \<Rightarrow> d) in
      (case dep_Unmarshal c payload dep of
         (Inl e, d1) \<Rightarrow> Some (Some (Err (errDepacketizer e)), h1\<lparr>h264w_cachedPacket := Some d1\<rparr>)
       | (Inr data, d1) \<Rightarrow>
           let h2 = h1\<lparr>h264w_cachedPacket := Some d1\<rparr> in
           if length data = 0 then Some (None, h2)
           else (case h264w_writer h2 of
               None \<Rightarrow> None
             | Some w \<Rightarrow> (case Write data w of (err, w1) \<Rightarrow> Some (err, h2\<lparr>h264w_writer := Some w1\<rparr>)))))"

definition h264w_Close :: "'d H264Writer \<Rightarrow> h26xw_error option \<times> 'd H264Writer" where
  "h264w_Close h =
     (let h1 = h\<lparr>h264w_cachedPacket := None\<rparr> in
      case h264w_writer h1 of
        None \<Rightarrow> (None, h1)
      | Some w \<Rightarrow> if can_close w then (case Close w of (err, w1) \<Rightarrow> (err, h1\<lparr>h264w_writer := Some w1\<rparr>)) else (None, h1))"

section \<open>h265writer.go\<close>

definition typeAP :: u8 where "typeAP = 48"
definition typeFU :: u8 where "typeFU = 49"

record 'd H265Writer =
  h265w_writer :: "sink option"
  h265w_hasKeyFrame :: bool
  h265w_cachedPacket :: "'d option"

definition h265w_NewWith :: "sink option \<Rightarrow> 'd H265Writer" where
  "h265w_NewWith w = \<lparr>h265w_writer = w, h265w_hasKeyFrame = False, h265w_cachedPacket = None\<rparr>"

definition h265w_New :: "h26xw_error + sink \<Rightarrow> h26xw_error + 'd H265Writer" where
  "h265w_New created = (case created of Inl err \<Rightarrow> Inl err | Inr f \<Rightarrow> Inr (h265w_NewWith (Some f)))"

definition isKeyFrameNalu :: "NalUnitType265 \<Rightarrow> bool" where
  "isKeyFrameNalu naluType \<longleftrightarrow> naluType = NalUnitTypeVps \<or> naluType = NalUnitTypeSps \<or> naluType = NalUnitTypePps \<or>
     naluType = NalUnitTypeIdrWRadl \<or> naluType = NalUnitTypeIdrNLp"

text \<open>The loop over the units of an aggregation packet, from an offset.\<close>

function checkAggregation_from :: "bytes \<Rightarrow> nat \<Rightarrow> bool" where
  "checkAggregation_from data offset =
     (if offset < length data then
        if offset + 2 > length data then False
        else let naluSize = get_be16 (slice offset (offset + 2) data);
                 offset1 = offset + 2 in
        if offset1 + unat naluSize > length data then False
        else if naluSize > 0 \<and> isKeyFrameNalu (drop_bit 1 (data ! offset1 AND 0x7E)) then True
        else checkAggregation_from data (offset1 + unat naluSize)
      else False)"
  by pat_completeness auto
termination
  by (relation "measure (\<lambda>(data, offset). length data - offset)") auto

declare checkAggregation_from.simps [simp del]

definition checkAggregationPacketForKeyFrame :: "bytes \<Rightarrow> bool" where
  "checkAggregationPacketForKeyFrame data = checkAggregation_from data 2"

definition h265_isKeyFrame :: "bytes \<Rightarrow> bool" where
  "h265_isKeyFrame data =
     (if length data < 2 then False
      else let naluType = drop_bit 1 (data ! 0 AND 0x7E) in
      if isKeyFrameNalu naluType then True
      else if naluType = typeAP then checkAggregationPacketForKeyFrame data
      else if naluType = typeFU then
        if length data < 3 \<or> data ! 2 AND 0x80 = 0 then False else isKeyFrameNalu (data ! 2 AND 0x3F)
      else False)"

definition h265w_WriteRTP ::
  "'d depacketizer \<Rightarrow> bytes \<Rightarrow> 'd H265Writer \<Rightarrow> (h26xw_error option \<times> 'd H265Writer) option" where
  "h265w_WriteRTP c payload h =
     (if length payload = 0 then Some (None, h)
      else let h1 = (if \<not> h265w_hasKeyFrame h then h\<lparr>h265w_hasKeyFrame := h265_isKeyFrame payload\<rparr> else h) in
      if \<not> h265w_hasKeyFrame h1 then Some (None, h1)
      else let dep = (case h265w_cachedPacket h1 of None \<Rightarrow> dep_New c | Some d \<Rightarrow> d) in
      (case dep_Unmarshal c payload dep of
         (Inl e, d1) \<Rightarrow> Some (Some (Err (errDepacketizer e)), h1\<lparr>h265w_cachedPacket := Some d1\<rparr>)
       | (Inr data, d1) \<Rightarrow>
           let h2 = h1\<lparr>h265w_cachedPacket := Some d1\<rparr> in
           if length data = 0 then Some (None, h2)
           else (case h265w_writer h2 of
               None \<Rightarrow> None
             | Some w \<Rightarrow> (case Write data w of (err, w1) \<Rightarrow> Some (err, h2\<lparr>h265w_writer := Some w1\<rparr>)))))"

definition h265w_Close :: "'d H265Writer \<Rightarrow> h26xw_error option \<times> 'd H265Writer" where
  "h265w_Close h =
     (let h1 = h\<lparr>h265w_cachedPacket := None\<rparr> in
      case h265w_writer h1 of
        None \<Rightarrow> (None, h1)
      | Some w \<Rightarrow> if can_close w then (case Close w of (err, w1) \<Rightarrow> (err, h1\<lparr>h265w_writer := Some w1\<rparr>)) else (None, h1))"

section \<open>What is recorded\<close>

fun run_payloads :: "(bytes \<Rightarrow> 'w \<Rightarrow> (h26xw_error option \<times> 'w) option) \<Rightarrow> bytes list \<Rightarrow> 'w \<Rightarrow> (h26xw_error option \<times> 'w) option" where
  "run_payloads wr [] w = Some (None, w)"
| "run_payloads wr (p # ps) w = (case wr p w of
     None \<Rightarrow> None
   | Some (Some e, w1) \<Rightarrow> Some (Some e, w1)
   | Some (None, w1) \<Rightarrow> run_payloads wr ps w1)"

text \<open>The output of a depacketizer over a sequence of payloads, if it takes them all.\<close>

fun depacketize :: "'d depacketizer \<Rightarrow> bytes list \<Rightarrow> 'd \<Rightarrow> (bytes \<times> 'd) option" where
  "depacketize c [] d = Some ([], d)"
| "depacketize c (p # ps) d = (case dep_Unmarshal c p d of
     (Inl _, _) \<Rightarrow> None
   | (Inr x, d1) \<Rightarrow> (case depacketize c ps d1 of None \<Rightarrow> None | Some (y, d2) \<Rightarrow> Some (x @ y, d2)))"

text \<open>The payloads that count: the non-empty ones, from the first that starts a key frame on.\<close>

definition from_key_frame :: "(bytes \<Rightarrow> bool) \<Rightarrow> bool \<Rightarrow> bytes list \<Rightarrow> bytes list" where
  "from_key_frame key seen ps =
     (let qs = filter (\<lambda>p. p \<noteq> []) ps in if seen then qs else dropWhile (\<lambda>p. \<not> key p) qs)"

text \<open>
  The two writers differ in what they take for a key frame and in the depacketizer only. The
  contract of one call, and what it means for a whole recording.
\<close>

locale key_frame_recorder =
  fixes wr :: "bytes \<Rightarrow> 'w \<Rightarrow> (h26xw_error option \<times> 'w) option"
    and key :: "bytes \<Rightarrow> bool"
    and c :: "'d depacketizer"
    and sink_of :: "'w \<Rightarrow> sink option"
    and seen :: "'w \<Rightarrow> bool"
    and dep :: "'w \<Rightarrow> 'd"
  assumes skips: "p = [] \<or> \<not> seen w \<and> \<not> key p \<Longrightarrow> wr p w = Some (None, w)"
    and takes: "p \<noteq> [] \<Longrightarrow> seen w \<or> key p \<Longrightarrow> sink_of w = Some d \<Longrightarrow> healthy d \<Longrightarrow>
      dep_Unmarshal c p (dep w) = (Inr x, e) \<Longrightarrow>
      \<exists>w' d'. wr p w = Some (None, w') \<and> seen w' \<and> dep w' = e \<and> sink_of w' = Some d' \<and> healthy d' \<and> content d' = content d @ x"
    and rejects: "p \<noteq> [] \<Longrightarrow> seen w \<or> key p \<Longrightarrow> dep_Unmarshal c p (dep w) = (Inl n, e) \<Longrightarrow>
      \<exists>w'. wr p w = Some (Some (Err (errDepacketizer n)), w') \<and> sink_of w' = sink_of w"
begin

lemma records:
  assumes "sink_of w = Some d" "healthy d" "depacketize c (from_key_frame key (seen w) ps) (dep w) = Some (x, e)"
  shows "\<exists>w' d'. run_payloads wr ps w = Some (None, w') \<and> dep w' = e \<and> sink_of w' = Some d' \<and> healthy d' \<and> content d' = content d @ x"
  using assms
proof (induction ps arbitrary: w d x)
  case Nil
  then show ?case by (auto simp: from_key_frame_def split: if_splits)
next
  case (Cons p ps)
  show ?case
  proof (cases "p = [] \<or> \<not> seen w \<and> \<not> key p")
    case True
    then have "from_key_frame key (seen w) (p # ps) = from_key_frame key (seen w) ps" by (auto simp: from_key_frame_def Let_def)
    then show ?thesis using Cons skips[OF True] by simp
  next
    case False
    then have f: "from_key_frame key (seen w) (p # ps) = p # from_key_frame key True ps" by (auto simp: from_key_frame_def Let_def)
    obtain y e1 z where u: "dep_Unmarshal c p (dep w) = (Inr y, e1)" "depacketize c (from_key_frame key True ps) e1 = Some (z, e)" "x = y @ z"
      using Cons.prems(3) unfolding f by (auto split: prod.splits sum.splits option.splits)
    obtain w1 d1 where w1: "wr p w = Some (None, w1)" "seen w1" "dep w1 = e1" "sink_of w1 = Some d1" "healthy d1" "content d1 = content d @ y"
      using takes[OF _ _ Cons.prems(1,2) u(1)] False by blast
    show ?thesis using Cons.IH[of w1 d1 z] w1 u by auto
  qed
qed

lemma gated:
  assumes "\<not> seen w" "\<forall>p \<in> set ps. p = [] \<or> \<not> key p"
  shows "run_payloads wr ps w = Some (None, w)"
  using assms skips by (induction ps) auto

end

interpretation h264w: key_frame_recorder "h264w_WriteRTP c" h264_isKeyFrame c h264w_writer h264w_hasKeyFrame
  "\<lambda>h. case h264w_cachedPacket h of None \<Rightarrow> dep_New c | Some d \<Rightarrow> d" for c
proof unfold_locales
  fix p d e x and w :: "'a H264Writer"
  assume a: "p \<noteq> []" "h264w_hasKeyFrame w \<or> h264_isKeyFrame p" "h264w_writer w = Some d" "healthy d"
    "dep_Unmarshal c p (case h264w_cachedPacket w of None \<Rightarrow> dep_New c | Some d \<Rightarrow> d) = (Inr x, e)"
  define d' where "d' = (if x = [] then d else d\<lparr>content := content d @ x, pos := pos d + length x, plan := tl (plan d)\<rparr>)"
  have "healthy d'" "content d' = content d @ x" using a(4) healthy_after_Write[OF a(4), of x] by (simp_all add: d'_def)
  moreover have "h264w_WriteRTP c p w = Some (None, w\<lparr>h264w_hasKeyFrame := True, h264w_cachedPacket := Some e, h264w_writer := Some d'\<rparr>)"
    using a by (cases w) (auto simp: h264w_WriteRTP_def Let_def d'_def Write_healthy)
  ultimately show "\<exists>w' d'. h264w_WriteRTP c p w = Some (None, w') \<and> h264w_hasKeyFrame w' \<and>
      (case h264w_cachedPacket w' of None \<Rightarrow> dep_New c | Some d \<Rightarrow> d) = e \<and> h264w_writer w' = Some d' \<and> healthy d' \<and> content d' = content d @ x"
    by auto
qed (auto simp: h264w_WriteRTP_def Let_def)

interpretation h265w: key_frame_recorder "h265w_WriteRTP c" h265_isKeyFrame c h265w_writer h265w_hasKeyFrame
  "\<lambda>h. case h265w_cachedPacket h of None \<Rightarrow> dep_New c | Some d \<Rightarrow> d" for c
proof unfold_locales
  fix p d e x and w :: "'a H265Writer"
  assume a: "p \<noteq> []" "h265w_hasKeyFrame w \<or> h265_isKeyFrame p" "h265w_writer w = Some d" "healthy d"
    "dep_Unmarshal c p (case h265w_cachedPacket w of None \<Rightarrow> dep_New c | Some d \<Rightarrow> d) = (Inr x, e)"
  define d' where "d' = (if x = [] then d else d\<lparr>content := content d @ x, pos := pos d + length x, plan := tl (plan d)\<rparr>)"
  have "healthy d'" "content d' = content d @ x" using a(4) healthy_after_Write[OF a(4), of x] by (simp_all add: d'_def)
  moreover have "h265w_WriteRTP c p w = Some (None, w\<lparr>h265w_hasKeyFrame := True, h265w_cachedPacket := Some e, h265w_writer := Some d'\<rparr>)"
    using a by (cases w) (auto simp: h265w_WriteRTP_def Let_def d'_def Write_healthy)
  ultimately show "\<exists>w' d'. h265w_WriteRTP c p w = Some (None, w') \<and> h265w_hasKeyFrame w' \<and>
      (case h265w_cachedPacket w' of None \<Rightarrow> dep_New c | Some d \<Rightarrow> d) = e \<and> h265w_writer w' = Some d' \<and> healthy d' \<and> content d' = content d @ x"
    by auto
qed (auto simp: h265w_WriteRTP_def Let_def)

text \<open>
  C28: What the H.264 recorder writes. For any depacketizer, starting from a new writer, the bytes written are
  exactly what the depacketizer makes of the non-empty payloads from the first key frame (an SPS, alone
  or first in a STAP-A) on; everything before it is dropped.
\<close>

theorem h264_recording:
  assumes "healthy d" "depacketize c (from_key_frame h264_isKeyFrame False ps) (dep_New c) = Some (x, e)"
  shows "\<exists>w' d'. run_payloads (h264w_WriteRTP c) ps (h264w_NewWith (Some d)) = Some (None, w') \<and>
    h264w_writer w' = Some d' \<and> content d' = content d @ x"
  using h264w.records[of "h264w_NewWith (Some d)" d c ps x e] assms by (auto simp: h264w_NewWith_def)

text \<open>A depacketizer for examples, which puts a start code in front of each payload.\<close>

definition witness_depacketizer :: "unit depacketizer" where
  "witness_depacketizer = \<lparr>dep_New = (), dep_Unmarshal = (\<lambda>p s. (Inr ([0, 0, 0, 1] @ p), s))\<rparr>"

definition witness_file :: sink where
  "witness_file = \<lparr>content = [], pos = 0, plan = [], can_seek = False, can_close = True, closed = False\<rparr>"

theorem h264_recording_witness:
  "\<exists>w' d'. run_payloads (h264w_WriteRTP witness_depacketizer) [[0x41, 1, 2, 3], [], [0x67, 1, 2, 3], [0x41, 9]] (h264w_NewWith (Some witness_file)) = Some (None, w') \<and>
    h264w_writer w' = Some d' \<and> content d' = [0, 0, 0, 1, 0x67, 1, 2, 3, 0, 0, 0, 1, 0x41, 9]"
proof -
  have k: "\<not> h264_isKeyFrame [0x41, 1, 2, 3]" "h264_isKeyFrame [0x67, 1, 2, 3]" by code_simp+
  have "healthy witness_file" "content witness_file = []" by (simp_all add: healthy_def witness_file_def)
  moreover have "depacketize witness_depacketizer (from_key_frame h264_isKeyFrame False [[0x41, 1, 2, 3], [], [0x67, 1, 2, 3], [0x41, 9]]) (dep_New witness_depacketizer) =
      Some ([0, 0, 0, 1, 0x67, 1, 2, 3, 0, 0, 0, 1, 0x41, 9], ())"
    using k by (simp add: from_key_frame_def witness_depacketizer_def)
  ultimately show ?thesis using h264_recording by fastforce
qed

text \<open>
  C29: What the H.265 recorder writes: exactly what the depacketizer makes of the non-empty payloads from the
  first key frame on, a parameter set or an IDR picture, alone, in an aggregation packet or as the first
  fragment of a fragmented unit.
\<close>

theorem h265_recording:
  assumes "healthy d" "depacketize c (from_key_frame h265_isKeyFrame False ps) (dep_New c) = Some (x, e)"
  shows "\<exists>w' d'. run_payloads (h265w_WriteRTP c) ps (h265w_NewWith (Some d)) = Some (None, w') \<and>
    h265w_writer w' = Some d' \<and> content d' = content d @ x"
  using h265w.records[of "h265w_NewWith (Some d)" d c ps x e] assms by (auto simp: h265w_NewWith_def)

theorem h265_recording_witness:
  "\<exists>w' d'. run_payloads (h265w_WriteRTP witness_depacketizer) [[2, 1, 7], [98, 1, 0x93, 5], [2, 1]] (h265w_NewWith (Some witness_file)) = Some (None, w') \<and>
    h265w_writer w' = Some d' \<and> content d' = [0, 0, 0, 1, 98, 1, 0x93, 5, 0, 0, 0, 1, 2, 1]"
proof -
  have k: "\<not> h265_isKeyFrame [2, 1, 7]" "h265_isKeyFrame [98, 1, 0x93, 5]" by code_simp+
  have "healthy witness_file" "content witness_file = []" by (simp_all add: healthy_def witness_file_def)
  moreover have "depacketize witness_depacketizer (from_key_frame h265_isKeyFrame False [[2, 1, 7], [98, 1, 0x93, 5], [2, 1]]) (dep_New witness_depacketizer) =
      Some ([0, 0, 0, 1, 98, 1, 0x93, 5, 0, 0, 0, 1, 2, 1], ())"
    using k by (simp add: from_key_frame_def witness_depacketizer_def)
  ultimately show ?thesis using h265_recording by fastforce
qed

section \<open>Aggregation packets\<close>

text \<open>The units of an aggregation packet, each behind its size.\<close>

definition aggregated :: "bytes list \<Rightarrow> bytes" where
  "aggregated nals = concat (map (\<lambda>n. be16 (of_nat (length n)) @ n) nals)"

definition key_unit :: "bytes \<Rightarrow> bool" where
  "key_unit n \<longleftrightarrow> n \<noteq> [] \<and> isKeyFrameNalu (drop_bit 1 (n ! 0 AND 0x7E))"

lemma checkAggregation_step:
  assumes "length pre = k" "length n < 2 ^ 16"
  shows "checkAggregation_from (pre @ be16 (of_nat (length n)) @ n @ r) k \<longleftrightarrow>
    key_unit n \<or> checkAggregation_from (pre @ be16 (of_nat (length n)) @ n @ r) (k + 2 + length n)"
proof -
  define d where "d = pre @ be16 (of_nat (length n)) @ n @ r"
  have u: "unat (of_nat (length n) :: u16) = length n" using assms(2) by (simp add: unat_of_nat take_bit_nat_eq_self)
  have g: "get_be16 (slice k (k + 2) d) = of_nat (length n)"
    using assms(1) get_be16_be16[of "of_nat (length n)" "[]"] by (simp add: slice_def d_def)
  have nth: "n \<noteq> [] \<Longrightarrow> d ! (k + 2) = n ! 0" using assms(1) by (simp add: nth_append d_def be16_def)
  have z: "(of_nat (length n) :: u16) > 0 \<longleftrightarrow> n \<noteq> []"
    unfolding word_less_nat_alt u by simp
  have len: "k < length d" "\<not> k + 2 > length d" "\<not> k + 2 + length n > length d" using assms(1) by (simp_all add: d_def)
  show ?thesis
    unfolding d_def[symmetric] checkAggregation_from.simps[of d k] Let_def g u z using len nth by (auto simp: key_unit_def)
qed

lemma checkAggregation_end:
  assumes "length pre = k" "length r < 2 \<or> length r < 2 + unat (get_be16 r)"
  shows "\<not> checkAggregation_from (pre @ r) k"
proof -
  have "slice k (k + 2) (pre @ r) = take 2 r" using assms(1) by (simp add: slice_def)
  moreover have "get_be16 (take 2 r) = get_be16 r" if "2 \<le> length r"
    using that by (cases r rule: list.exhaust; cases "tl r") (auto simp: get_be16_def)
  ultimately show ?thesis using assms by (subst checkAggregation_from.simps) (auto simp: Let_def)
qed

text \<open>
  C30: Looking for a key frame in an H.265 aggregation packet. Behind any two header bytes, the answer is yes
  exactly when one of the aggregated units is a parameter set or an IDR picture; empty units count as
  nothing, and a rest too short for the unit it announces is ignored.
\<close>

theorem aggregation_key_frame:
  assumes "length hdr = 2" "\<forall>n \<in> set nals. length n < 2 ^ 16" "length r < 2 \<or> length r < 2 + unat (get_be16 r)"
  shows "checkAggregationPacketForKeyFrame (hdr @ aggregated nals @ r) \<longleftrightarrow> (\<exists>n \<in> set nals. key_unit n)"
proof -
  have "checkAggregation_from (pre @ aggregated nals @ r) (length pre) \<longleftrightarrow> (\<exists>n \<in> set nals. key_unit n)" for pre
    using assms(2)
  proof (induction nals arbitrary: pre)
    case Nil
    then show ?case using checkAggregation_end[OF refl assms(3)] by (simp add: aggregated_def)
  next
    case (Cons n nals)
    let ?p = "pre @ be16 (of_nat (length n)) @ n"
    have e: "pre @ aggregated (n # nals) @ r = pre @ be16 (of_nat (length n)) @ n @ aggregated nals @ r" by (simp add: aggregated_def)
    have "checkAggregation_from (?p @ aggregated nals @ r) (length ?p) \<longleftrightarrow> (\<exists>n \<in> set nals. key_unit n)"
      using Cons.prems by (intro Cons.IH) simp
    moreover have "length ?p = length pre + 2 + length n" by simp
    ultimately show ?case unfolding e using Cons.prems by (subst checkAggregation_step[OF refl]) auto
  qed
  from this[of hdr] show ?thesis using assms(1) by (simp add: checkAggregationPacketForKeyFrame_def)
qed

theorem aggregation_key_frame_witness:
  "checkAggregationPacketForKeyFrame ([0x60, 1] @ aggregated [[0x4E, 1], [0x42, 1, 9]] @ [0])"
  by (subst aggregation_key_frame) (simp_all add: key_unit_def isKeyFrameNalu_def NalUnitTypeSps_def)

end
