(* ===== verification/Replay.thy ===== *)
theory Replay
  imports H26xWriter H264Reader
begin

text \<open>
  A recorder and the reader of its files together: RTP payloads go through \<open>h264writer\<close> or \<open>h265writer\<close> into a file,
  and \<open>h264reader\<close> or \<open>h265reader\<close> takes the file apart again. The depacketizer is the code of pion/rtp; all that is used of it
  is what it gives for the payloads of the recording.
\<close>

section \<open>Payloads and the units they complete\<close>

text \<open>
  Payloads with the NAL units that each completes: starting in the state \<open>s\<close>, the depacketizer turns every payload into its
  units in Annex-B form. A payload in the middle of a fragmented unit completes none, an aggregation completes several. The
  units are ones that Annex B can hold: not empty, without a start code inside and without a zero at the end.
\<close>

fun carries :: "'d depacketizer \<Rightarrow> 'd \<Rightarrow> (bytes \<times> (bool \<times> bytes) list) list \<Rightarrow> bool" where
  "carries c s [] \<longleftrightarrow> True"
| "carries c s ((p, us) # xs) \<longleftrightarrow> (case dep_Unmarshal c p s of
     (Inl _, _) \<Rightarrow> False
   | (Inr x, s1) \<Rightarrow> x = annexb_bytes us \<and> (\<forall>u \<in> set us. nal_ok (snd u)) \<and> carries c s1 xs)"

lemma annexb_bytes_append: "annexb_bytes (xs @ ys) = annexb_bytes xs @ annexb_bytes ys"
  by (induction xs rule: annexb_bytes.induct) simp_all

lemma carries_depacketize:
  assumes "carries c s xs"
  shows "\<exists>e. depacketize c (map fst xs) s = Some (annexb_bytes (concat (map snd xs)), e)"
    "\<forall>u \<in> set (concat (map snd xs)). nal_ok (snd u)"
  using assms by (induction c s xs rule: carries.induct) (auto simp: annexb_bytes_append split: prod.splits sum.splits)

lemma from_key_frame_split:
  assumes "\<forall>p \<in> set pre. \<not> key p" "xs \<noteq> []" "key (fst (hd xs))" "\<forall>x \<in> set xs. fst x \<noteq> []"
  shows "from_key_frame key False (pre @ map fst xs) = map fst xs"
proof -
  have "filter (\<lambda>p. p \<noteq> []) (map fst xs) = map fst xs" using assms(4) by (auto simp: filter_id_conv)
  moreover have "dropWhile (\<lambda>p. \<not> key p) (filter (\<lambda>p. p \<noteq> []) pre @ map fst xs) = dropWhile (\<lambda>p. \<not> key p) (map fst xs)"
    using assms(1) by (intro dropWhile_append2) simp
  moreover have "dropWhile (\<lambda>p. \<not> key p) (map fst xs) = map fst xs" using assms(2,3) by (cases xs) auto
  ultimately show ?thesis by (simp add: from_key_frame_def Let_def)
qed

section \<open>Recording and replaying\<close>

text \<open>
  C24: An H.264 recording replays. Take any depacketizer and payloads of which the first ones start no key frame and the others,
  from a key frame on, carry NAL units that Annex B can hold. They are recorded without an error, and \<open>NextNAL\<close> on the file
  returns exactly the units carried from the key frame on, in order, SEI units left out unless asked for, and then \<open>io.EOF\<close>.
\<close>

theorem h264_replay:
  assumes "healthy d" "content d = []"
    and "\<forall>p \<in> set pre. \<not> h264_isKeyFrame p" "h264_isKeyFrame (fst (hd xs))" "\<forall>x \<in> set xs. fst x \<noteq> []"
    and "carries c (dep_New c) xs" "concat (map snd xs) \<noteq> []"
  shows "\<exists>w' d' r r'. run_payloads (h264w_WriteRTP c) (pre @ map fst xs) (h264w_NewWith (Some d)) = Some (None, w') \<and>
    h264w_writer w' = Some d' \<and>
    h264_NewReaderWithOptions (Some \<lparr>st_data = content d', st_end = None\<rparr>) [h264_WithIncludeSEI sei] = Inr r \<and>
    reads h264_NextNAL r (map h264_nal (filter (\<lambda>n. sei \<or> n ! 0 AND 0x1F \<noteq> NalUnitTypeSEI) (map snd (concat (map snd xs))))) r' \<and>
    fst (h264_NextNAL r') = Inl EOF"
proof -
  have "xs \<noteq> []" using assms(7) by auto
  then have k: "from_key_frame h264_isKeyFrame False (pre @ map fst xs) = map fst xs" using from_key_frame_split assms(3-5) by blast
  obtain e where e: "depacketize c (map fst xs) (dep_New c) = Some (annexb_bytes (concat (map snd xs)), e)"
    using carries_depacketize(1)[OF assms(6)] by blast
  obtain w' d' where w: "run_payloads (h264w_WriteRTP c) (pre @ map fst xs) (h264w_NewWith (Some d)) = Some (None, w')"
      "h264w_writer w' = Some d'" "content d' = annexb_bytes (concat (map snd xs))"
    using h264w.records[of "h264w_NewWith (Some d)" d c "pre @ map fst xs" _ e] assms(1,2) k e by (auto simp: h264w_NewWith_def)
  then show ?thesis using h264_reads_stream[OF assms(7) carries_depacketize(2)[OF assms(6)], of sei] by fastforce
qed

text \<open>
  C25: An H.265 recording replays, under the same hypothesis on the payloads, from the first parameter set or IDR picture on; of
  the units the reader leaves out the two kinds of SEI unless asked for them.
\<close>

theorem h265_replay:
  assumes "healthy d" "content d = []"
    and "\<forall>p \<in> set pre. \<not> h265_isKeyFrame p" "h265_isKeyFrame (fst (hd xs))" "\<forall>x \<in> set xs. fst x \<noteq> []"
    and "carries c (dep_New c) xs" "concat (map snd xs) \<noteq> []"
  shows "\<exists>w' d' r r'. run_payloads (h265w_WriteRTP c) (pre @ map fst xs) (h265w_NewWith (Some d)) = Some (None, w') \<and>
    h265w_writer w' = Some d' \<and>
    h265_NewReaderWithOptions (Some \<lparr>st_data = content d', st_end = None\<rparr>) [h265_WithIncludeSEI sei] = Inr r \<and>
    reads h265_NextNAL r (map h265_nal (filter (\<lambda>n. sei \<or> length n < 2 \<or> drop_bit 1 (n ! 0) AND 0x3F \<notin> {39, 40}) (map snd (concat (map snd xs))))) r' \<and>
    fst (h265_NextNAL r') = Inl EOF"
proof -
  have "xs \<noteq> []" using assms(7) by auto
  then have k: "from_key_frame h265_isKeyFrame False (pre @ map fst xs) = map fst xs" using from_key_frame_split assms(3-5) by blast
  obtain e where e: "depacketize c (map fst xs) (dep_New c) = Some (annexb_bytes (concat (map snd xs)), e)"
    using carries_depacketize(1)[OF assms(6)] by blast
  obtain w' d' where w: "run_payloads (h265w_WriteRTP c) (pre @ map fst xs) (h265w_NewWith (Some d)) = Some (None, w')"
      "h265w_writer w' = Some d'" "content d' = annexb_bytes (concat (map snd xs))"
    using h265w.records[of "h265w_NewWith (Some d)" d c "pre @ map fst xs" _ e] assms(1,2) k e by (auto simp: h265w_NewWith_def)
  then show ?thesis using h265_reads_stream[OF assms(7) carries_depacketize(2)[OF assms(6)], of sei] by fastforce
qed

section \<open>Examples\<close>

text \<open>
  A depacketizer of single units and of units fragmented as in RFC 6184 (FU-A, type 28), which checks nothing of what it is
  given. Its state is the fragments seen so far.
\<close>

definition fragments :: "bytes depacketizer" where
  "fragments = \<lparr>dep_New = [], dep_Unmarshal = (\<lambda>p s.
     if length p < 2 then (Inl 0, s)
     else if p ! 0 AND 0x1F \<noteq> 28 then (Inr ([0, 0, 0, 1] @ p), s)
     else let t = (if s = [] then [p ! 0 AND 0x60 OR (p ! 1 AND 0x1F)] else s) @ drop 2 p in
       if p ! 1 AND 0x40 \<noteq> 0 then (Inr ([0, 0, 0, 1] @ t), []) else (Inr [], t))\<rparr>"

text \<open>A slice before the key frame, a parameter set, and an IDR picture in two fragments.\<close>

definition h264_packets :: "(bytes \<times> (bool \<times> bytes) list) list" where
  "h264_packets = [([0x67, 0x42, 0, 9], [(True, [0x67, 0x42, 0, 9])]),
     ([0x7C, 0x85, 0x88], []), ([0x7C, 0x45, 0x99], [(True, [0x65, 0x88, 0x99])])]"

theorem h264_replay_witness:
  "\<exists>w' d' r r'. run_payloads (h264w_WriteRTP fragments) [[0x41, 7], [0x67, 0x42, 0, 9], [0x7C, 0x85, 0x88], [0x7C, 0x45, 0x99]] (h264w_NewWith (Some witness_file)) = Some (None, w') \<and>
    h264w_writer w' = Some d' \<and>
    h264_NewReaderWithOptions (Some \<lparr>st_data = content d', st_end = None\<rparr>) [h264_WithIncludeSEI True] = Inr r \<and>
    reads h264_NextNAL r (map h264_nal [[0x67, 0x42, 0, 9], [0x65, 0x88, 0x99]]) r' \<and> fst (h264_NextNAL r') = Inl EOF"
proof -
  have k: "\<forall>p \<in> set [[0x41, 7]]. \<not> h264_isKeyFrame p" "h264_isKeyFrame (fst (hd h264_packets))" by code_simp+
  have x: "\<forall>x \<in> set h264_packets. fst x \<noteq> []" "concat (map snd h264_packets) \<noteq> []" by (simp_all add: h264_packets_def)
  have c: "carries fragments (dep_New fragments) h264_packets" by code_simp
  have "healthy witness_file" "content witness_file = []" by (simp_all add: healthy_def witness_file_def)
  from h264_replay[OF this k x(1) c x(2), of True] show ?thesis by (simp add: h264_packets_def)
qed

definition h265_packets :: "(bytes \<times> (bool \<times> bytes) list) list" where
  "h265_packets = [([98, 1, 0x93, 5], [(True, [98, 1, 0x93, 5])]), ([2, 1], [(True, [2, 1])])]"

text \<open>Units that are neither fragmented nor aggregated.\<close>

definition single_units :: "unit depacketizer" where
  "single_units = \<lparr>dep_New = (), dep_Unmarshal = (\<lambda>p s. (if length p < 2 then Inl 0 else Inr ([0, 0, 0, 1] @ p), s))\<rparr>"

theorem h265_replay_witness:
  "\<exists>w' d' r r'. run_payloads (h265w_WriteRTP single_units) [[2, 1, 7], [98, 1, 0x93, 5], [2, 1]] (h265w_NewWith (Some witness_file)) = Some (None, w') \<and>
    h265w_writer w' = Some d' \<and>
    h265_NewReaderWithOptions (Some \<lparr>st_data = content d', st_end = None\<rparr>) [h265_WithIncludeSEI True] = Inr r \<and>
    reads h265_NextNAL r (map h265_nal [[98, 1, 0x93, 5], [2, 1]]) r' \<and> fst (h265_NextNAL r') = Inl EOF"
proof -
  have k: "\<forall>p \<in> set [[2, 1, 7]]. \<not> h265_isKeyFrame p" "h265_isKeyFrame (fst (hd h265_packets))" by code_simp+
  have x: "\<forall>x \<in> set h265_packets. fst x \<noteq> []" "concat (map snd h265_packets) \<noteq> []" by (simp_all add: h265_packets_def)
  have c: "carries single_units (dep_New single_units) h265_packets" by code_simp
  have "healthy witness_file" "content witness_file = []" by (simp_all add: healthy_def witness_file_def)
  from h265_replay[OF this k x(1) c x(2), of True] show ?thesis by (simp add: h265_packets_def)
qed

end
