(* ===== verification/OggReader.thy ===== *)
theory OggReader
  imports Checksum
begin

text \<open>
  The Ogg reader, \<open>oggreader/oggreader.go\<close>: pages with their checksum, the Opus identification
  header and the Opus comment header. Go strings are their bytes; \<open>int\<close> has 64 bits.
\<close>

section \<open>Types\<close>

definition pageHeaderTypeBeginningOfStream :: u8 where "pageHeaderTypeBeginningOfStream = 0x02"
definition pageHeaderSignature :: bytes where "pageHeaderSignature = str ''OggS''"
definition idPageBasePayloadLength :: nat where "idPageBasePayloadLength = 19"
definition pageHeaderLen :: nat where "pageHeaderLen = 27"

datatype oggreader_error =
    errNilStream_ogg | errBadIDPageSignature | errBadOpusTagsSignature | errBadIDPageType | errBadIDPageLength
  | errBadIDPagePayloadSignature | errShortPageHeader | errChecksumMismatch | errUnsupportedChannelMappingFamily

type_synonym ogg_error = "oggreader_error error"

record OggReader =
  ogg_stream :: stream
  ogg_bytesRead :: int
  checksumTable :: "u32 list"
  doChecksum :: bool

record OggHeader =
  ChannelMap :: u8
  Channels :: u8
  OutputGain :: u16
  PreSkip :: u16
  SampleRate :: u32
  Version :: u8
  StreamCount :: u8
  CoupledCount :: u8
  ChannelMapping :: bytes

record OggPageHeader =
  GranulePosition :: u64
  page_sig :: bytes
  page_version :: u8
  page_headerType :: u8
  Serial :: u32
  page_index :: u32
  segmentsCount :: u8

definition headerUnknown :: bytes where "headerUnknown = []"
definition HeaderOpusID :: bytes where "HeaderOpusID = str ''OpusHead''"
definition HeaderOpusTags :: bytes where "HeaderOpusTags = str ''OpusTags''"

section \<open>Classifying payloads\<close>

definition opusPayloadSignature :: "bytes \<Rightarrow> bytes \<times> bool" where
  "opusPayloadSignature payload =
     (if length payload < 8 then (headerUnknown, False)
      else let sig = take 8 payload in
      if sig = HeaderOpusID \<or> sig = HeaderOpusTags then (sig, True) else (headerUnknown, False))"

definition page_HeaderType :: "OggPageHeader \<Rightarrow> bytes \<Rightarrow> bytes \<times> bool" where
  "page_HeaderType p payload = (case opusPayloadSignature payload of (sig, ok) \<Rightarrow>
     if \<not> ok \<or> (sig = HeaderOpusID \<and> page_headerType p \<noteq> pageHeaderTypeBeginningOfStream)
     then (headerUnknown, False) else (sig, True))"

section \<open>The identification header\<close>

definition parseBasicHeaderFields :: "bytes \<Rightarrow> OggHeader" where
  "parseBasicHeaderFields payload =
     \<lparr>ChannelMap = payload ! 18, Channels = payload ! 9, OutputGain = get_le16 (slice 16 18 payload),
      PreSkip = get_le16 (slice 10 12 payload), SampleRate = get_le32 (slice 12 16 payload),
      Version = payload ! 8, StreamCount = 0, CoupledCount = 0, ChannelMapping = []\<rparr>"

definition validatePayloadLength :: "bytes \<Rightarrow> nat \<Rightarrow> ogg_error option" where
  "validatePayloadLength payload expectedLen =
     (if length payload \<noteq> expectedLen then Some (Err errBadIDPageLength) else None)"

definition parseExtendedChannelMapping :: "OggHeader \<Rightarrow> bytes \<Rightarrow> ogg_error option \<times> OggHeader" where
  "parseExtendedChannelMapping header payload =
     (let expectedPayloadLen = 21 + unat (Channels header) in
      case validatePayloadLength payload expectedPayloadLen of
        Some e \<Rightarrow> (Some e, header)
      | None \<Rightarrow> (None, header\<lparr>StreamCount := payload ! 19, CoupledCount := payload ! 20,
                               ChannelMapping := slice 21 expectedPayloadLen payload\<rparr>))"

definition parseChannelMapping :: "OggHeader \<Rightarrow> bytes \<Rightarrow> ogg_error option \<times> OggHeader" where
  "parseChannelMapping header payload =
     (if ChannelMap header = 0 then (validatePayloadLength payload idPageBasePayloadLength, header)
      else if ChannelMap header = 1 \<or> ChannelMap header = 2 \<or> ChannelMap header = 255
      then parseExtendedChannelMapping header payload
      else if ChannelMap header = 3
      then (Some (Errorf errUnsupportedChannelMappingFamily ''%w: ambisonics family type 3 is not supported''), header)
      else (Some (Err errUnsupportedChannelMappingFamily), header))"

definition ParseOpusHead :: "bytes \<Rightarrow> ogg_error + OggHeader" where
  "ParseOpusHead payload =
     (if length payload < idPageBasePayloadLength then Inl (Err errBadIDPageLength)
      else (case opusPayloadSignature payload of (sig, ok) \<Rightarrow>
        if \<not> ok \<or> sig \<noteq> HeaderOpusID
        then Inl (Errorf errBadIDPagePayloadSignature ''%w: expected OpusHead, got %s'')
        else (case parseChannelMapping (parseBasicHeaderFields payload) payload of
            (Some e, _) \<Rightarrow> Inl e
          | (None, header) \<Rightarrow> Inr header)))"

section \<open>Pages\<close>

text \<open>The header bytes as the checksum sees them: the checksum field itself counts as zero.\<close>

definition checksum_header :: "bytes \<Rightarrow> bytes" where
  "checksum_header header = map (\<lambda>index. if index > 21 \<and> index < 26 then 0 else header ! index) [0..<length header]"

definition page_checksum :: "u32 list \<Rightarrow> bytes \<Rightarrow> bytes \<Rightarrow> bytes \<Rightarrow> u32" where
  "page_checksum table header sizeBuffer payload =
     foldl (crc_update table) 0 (checksum_header header @ sizeBuffer @ payload)"

definition ParseNextPage :: "OggReader \<Rightarrow> (ogg_error + bytes \<times> OggPageHeader) \<times> OggReader" where
  "ParseNextPage o' = (case ReadFull pageHeaderLen (ogg_stream o') of
     (Inl e, s) \<Rightarrow> (Inl e, o'\<lparr>ogg_stream := s\<rparr>)
   | (Inr header, s) \<Rightarrow>
       if length header < pageHeaderLen then (Inl (Err errShortPageHeader), o'\<lparr>ogg_stream := s\<rparr>)
       else let pageHeader =
              \<lparr>GranulePosition = get_le64 (slice 6 14 header), page_sig = take 4 header, page_version = header ! 4,
               page_headerType = header ! 5, Serial = get_le32 (slice 14 18 header),
               page_index = get_le32 (slice 18 22 header), segmentsCount = header ! 26\<rparr> in
       (case ReadFull (unat (segmentsCount pageHeader)) s of
          (Inl e, s1) \<Rightarrow> (Inl e, o'\<lparr>ogg_stream := s1\<rparr>)
        | (Inr sizeBuffer, s1) \<Rightarrow>
            (case ReadFull (sum_list (map unat sizeBuffer)) s1 of
               (Inl e, s2) \<Rightarrow> (Inl e, o'\<lparr>ogg_stream := s2\<rparr>)
             | (Inr payload, s2) \<Rightarrow>
                 if doChecksum o' \<and>
                    get_le32 (slice 22 26 header) \<noteq> page_checksum (checksumTable o') header sizeBuffer payload
                 then (Inl (Err errChecksumMismatch), o'\<lparr>ogg_stream := s2\<rparr>)
                 else (Inr (payload, pageHeader),
                   o'\<lparr>ogg_stream := s2, ogg_bytesRead := i64 (ogg_bytesRead o' +
                     int (length header + length sizeBuffer + length payload))\<rparr>))))"

definition ogg_ResetReader :: "(int \<Rightarrow> stream) \<Rightarrow> OggReader \<Rightarrow> OggReader" where
  "ogg_ResetReader reset o' = o'\<lparr>ogg_stream := reset (ogg_bytesRead o')\<rparr>"

section \<open>Construction\<close>

type_synonym ogg_option = "OggReader \<Rightarrow> ogg_error option \<times> OggReader"

definition WithDoChecksum :: "bool \<Rightarrow> ogg_option" where
  "WithDoChecksum b o' = (None, o'\<lparr>doChecksum := b\<rparr>)"

fun ogg_apply_options :: "ogg_option list \<Rightarrow> OggReader \<Rightarrow> ogg_error + OggReader" where
  "ogg_apply_options [] o' = Inr o'"
| "ogg_apply_options (opt # opts) o' = (case opt o' of
     (Some e, _) \<Rightarrow> Inl e | (None, o1) \<Rightarrow> ogg_apply_options opts o1)"

definition ogg_NewWithOptions :: "stream option \<Rightarrow> ogg_option list \<Rightarrow> ogg_error + OggReader" where
  "ogg_NewWithOptions input opts = (case input of
     None \<Rightarrow> Inl (Err errNilStream_ogg)
   | Some s \<Rightarrow> ogg_apply_options opts
       \<lparr>ogg_stream = s, ogg_bytesRead = 0, checksumTable = generateChecksumTable, doChecksum = True\<rparr>)"

definition validateOpusPageHeader :: "OggPageHeader \<Rightarrow> ogg_error option" where
  "validateOpusPageHeader p =
     (if page_sig p \<noteq> pageHeaderSignature then Some (Err errBadIDPageSignature)
      else if page_headerType p \<noteq> pageHeaderTypeBeginningOfStream then Some (Err errBadIDPageType)
      else None)"

definition readOpusHeader :: "OggReader \<Rightarrow> (ogg_error + OggHeader) \<times> OggReader" where
  "readOpusHeader o' = (case ParseNextPage o' of
     (Inl e, o1) \<Rightarrow> (Inl e, o1)
   | (Inr (payload, pageHeader), o1) \<Rightarrow> (case validateOpusPageHeader pageHeader of
       Some e \<Rightarrow> (Inl e, o1)
     | None \<Rightarrow> (ParseOpusHead payload, o1)))"

definition newWith :: "stream option \<Rightarrow> bool \<Rightarrow> ogg_error + OggReader \<times> OggHeader" where
  "newWith input b = (case ogg_NewWithOptions input [WithDoChecksum b] of
     Inl e \<Rightarrow> Inl e
   | Inr reader \<Rightarrow> (case readOpusHeader reader of
       (Inl e, _) \<Rightarrow> Inl e
     | (Inr header, reader1) \<Rightarrow> Inr (reader1, header)))"

definition ogg_NewWith :: "stream option \<Rightarrow> ogg_error + OggReader \<times> OggHeader" where
  "ogg_NewWith input = newWith input True"

section \<open>The comment header\<close>

record UserComment =
  Comment :: bytes
  Value :: bytes

record OpusTags =
  Vendor :: bytes
  UserComments :: "UserComment list"

definition validateOpusTagsHeader :: "bytes \<Rightarrow> nat \<Rightarrow> ogg_error option" where
  "validateOpusTagsHeader payload minHeaderLen =
     (if length payload < minHeaderLen then Some (Errorf errBadOpusTagsSignature ''%w: payload too short'')
      else if take 8 payload \<noteq> HeaderOpusTags
      then Some (Errorf errBadOpusTagsSignature ''%w: expected %q, got %q'') else None)"

definition parseVendorString :: "bytes \<Rightarrow> nat \<Rightarrow> nat \<Rightarrow> nat \<Rightarrow> ogg_error + bytes \<times> nat" where
  "parseVendorString payload headerMagicLen u32Size minHeaderLen =
     (let vendorLen = unat (get_le32 (slice headerMagicLen (headerMagicLen + u32Size) payload)) in
      if int vendorLen > int (length payload) - int minHeaderLen
      then Inl (Errorf errBadOpusTagsSignature ''%w: payload too short for vendor string'')
      else let vendorStart = headerMagicLen + u32Size; vendorEnd = vendorStart + vendorLen in
      if vendorEnd + u32Size > length payload
      then Inl (Errorf errBadOpusTagsSignature ''%w: payload too short for vendor+comment count'')
      else Inr (slice vendorStart vendorEnd payload, vendorEnd))"

text \<open>\<open>strings.SplitN(comment, "=", 2)\<close>.\<close>

definition SplitN2 :: "bytes \<Rightarrow> bytes list" where
  "SplitN2 s = (let k = takeWhile (\<lambda>b. b \<noteq> 61) s in
     if length k < length s then [k, drop (Suc (length k)) s] else [s])"

definition parseSingleUserComment :: "bytes \<Rightarrow> nat \<Rightarrow> nat \<Rightarrow> ogg_error + UserComment \<times> nat" where
  "parseSingleUserComment payload off u32Size =
     (if off + u32Size > length payload
      then Inl (Errorf errBadOpusTagsSignature ''%w: payload too short for comment len %d'')
      else let commentLen = unat (get_le32 (slice off (off + u32Size) payload)); off1 = off + u32Size in
      if int commentLen > int (length payload) - int off1
      then Inl (Errorf errBadOpusTagsSignature ''%w: payload too short for comment %d'')
      else let parts = SplitN2 (slice off1 (off1 + commentLen) payload) in
      if length parts \<noteq> 2 then Inl (Errorf errBadOpusTagsSignature ''%w: invalid comment %d'')
      else Inr (\<lparr>Comment = parts ! 0, Value = parts ! 1\<rparr>, off1 + commentLen))"

fun parseUserComments_loop :: "bytes \<Rightarrow> nat \<Rightarrow> nat \<Rightarrow> nat \<Rightarrow> ogg_error + UserComment list" where
  "parseUserComments_loop payload u32Size 0 off = Inr []"
| "parseUserComments_loop payload u32Size (Suc n) off = (case parseSingleUserComment payload off u32Size of
     Inl e \<Rightarrow> Inl e
   | Inr (comment, nextPos) \<Rightarrow> (case parseUserComments_loop payload u32Size n nextPos of
       Inl e \<Rightarrow> Inl e | Inr cs \<Rightarrow> Inr (comment # cs)))"

definition parseUserComments :: "bytes \<Rightarrow> nat \<Rightarrow> nat \<Rightarrow> ogg_error + UserComment list" where
  "parseUserComments payload vendorEnd u32Size =
     (let userCommentCount = unat (get_le32 (slice vendorEnd (vendorEnd + u32Size) payload)) in
      if userCommentCount > (length payload - vendorEnd) div u32Size
      then Inl (Errorf errBadOpusTagsSignature ''%w: unreasonable comment count'')
      else parseUserComments_loop payload u32Size userCommentCount (vendorEnd + u32Size))"

definition ParseOpusTags :: "bytes \<Rightarrow> ogg_error + OpusTags" where
  "ParseOpusTags payload =
     (let headerMagicLen = 8; u32Size = 4; minHeaderLen = headerMagicLen + u32Size + u32Size in
      case validateOpusTagsHeader payload minHeaderLen of
        Some e \<Rightarrow> Inl e
      | None \<Rightarrow> (case parseVendorString payload headerMagicLen u32Size minHeaderLen of
          Inl e \<Rightarrow> Inl e
        | Inr (vendor, vendorEnd) \<Rightarrow> (case parseUserComments payload vendorEnd u32Size of
            Inl e \<Rightarrow> Inl e
          | Inr userComments \<Rightarrow> Inr \<lparr>Vendor = vendor, UserComments = userComments\<rparr>)))"

end
