(* ===== verification/OggPages.thy ===== *)
theory OggPages
  imports OggReader
begin

text \<open>
  The lower half of the Ogg writer, \<open>oggwriter/oggwriter.go\<close>: channel mappings, the two Opus headers,
  the durations of Opus packets, and the pages a packet is laid out in. The package declares the
  types \<open>OpusTags\<close> and \<open>UserComment\<close> with the same fields as the reader's; the model uses one
  record for both. The \<open>clone\<close> functions copy slices and are the identity on values.
\<close>

section \<open>Constants and errors\<close>

definition pageHeaderTypeContinuationOfStream :: u8 where "pageHeaderTypeContinuationOfStream = 0x00"
definition pageHeaderTypeContinuationOfPacket :: u8 where "pageHeaderTypeContinuationOfPacket = 0x01"
definition pageHeaderTypeEndOfStream :: u8 where "pageHeaderTypeEndOfStream = 0x04"
definition defaultPreSkip :: u16 where "defaultPreSkip = 3840"
definition defaultSampleRate :: u32 where "defaultSampleRate = 48000"
definition opusGranuleSampleRate :: u32 where "opusGranuleSampleRate = 48000"
definition maxOpusPacketSamples :: u64 where "maxOpusPacketSamples = 48000 * 120 div 1000"
definition defaultChannelCount :: u16 where "defaultChannelCount = 2"
definition idPageSignature :: bytes where "idPageSignature = str ''OpusHead''"
definition commentPageSignature :: bytes where "commentPageSignature = str ''OpusTags''"
definition defaultVendor :: bytes where "defaultVendor = str ''pion''"
definition pageHeaderSize :: nat where "pageHeaderSize = 27"
definition maxOggPageSegments :: nat where "maxOggPageSegments = 255"
definition noGranulePosition :: u64 where "noGranulePosition = NOT 0"
definition maxUint32Length :: nat where "maxUint32Length = 2 ^ 32 - 1"

datatype oggwriter_error =
    errFileNotOpened_ogg | errOutputNotOpened | errInvalidNilPacket_ogg | errDuplicateTrackSSRC | errDuplicateTrackSerial
  | errTracksStarted | errPacketSSRCMismatch | errInvalidOpusPacket | errInvalidChannelCount | errInvalidChannelMap
  | errInvalidOpusTags | errOpusCodec nat

type_synonym oggw_error = "oggwriter_error error"

section \<open>Channel mappings\<close>

record channelMapping =
  cm_family :: u8
  cm_channelCount :: u8
  cm_streamCount :: u8
  cm_coupledCount :: u8
  cm_mapping :: bytes

definition defaultChannelMapping :: "u16 \<Rightarrow> oggw_error + channelMapping" where
  "defaultChannelMapping channelCount =
     (if channelCount = 1
      then Inr \<lparr>cm_family = 0, cm_channelCount = 1, cm_streamCount = 1, cm_coupledCount = 0, cm_mapping = []\<rparr>
      else if channelCount = 2
      then Inr \<lparr>cm_family = 0, cm_channelCount = 2, cm_streamCount = 1, cm_coupledCount = 1, cm_mapping = []\<rparr>
      else Inl (Err errInvalidChannelCount))"

definition validateChannelMappingFamily :: "u8 \<Rightarrow> oggw_error option" where
  "validateChannelMappingFamily family =
     (if family = 1 \<or> family = 2 \<or> family = 255 then None
      else Some (Errorf errInvalidChannelMap ''%w: unsupported family %d''))"

definition validateChannelMappingLayout :: "u8 \<Rightarrow> u8 \<Rightarrow> bytes \<Rightarrow> oggw_error option" where
  "validateChannelMappingLayout streamCount coupledCount mapping =
     (if length mapping = 0 \<or> length mapping > 255 then Some (Err errInvalidChannelCount)
      else if streamCount \<noteq> 1 then Some (Errorf errInvalidChannelMap ''%w: stream count must be one'')
      else if coupledCount > streamCount
      then Some (Errorf errInvalidChannelMap ''%w: coupled count exceeds stream count'')
      else let decodedChannels = unat streamCount + unat coupledCount in
      if \<exists>channel \<in> set mapping. channel \<noteq> 255 \<and> unat channel \<ge> decodedChannels
      then Some (Errorf errInvalidChannelMap ''%w: channel map entry is out of range'') else None)"

definition validateVorbisChannelMapping :: "u8 \<Rightarrow> u8 \<Rightarrow> bytes \<Rightarrow> oggw_error option" where
  "validateVorbisChannelMapping streamCount coupledCount mapping =
     (let check = (\<lambda>wantStreams wantCoupled wantMapping.
            if streamCount \<noteq> wantStreams \<or> coupledCount \<noteq> wantCoupled \<or> mapping \<noteq> wantMapping
            then Some (Errorf errInvalidChannelMap ''%w: invalid family 1 mapping'') else None) in
      if length mapping = 1 then check 1 0 [0]
      else if length mapping = 2 then check 1 1 [0, 1]
      else Some (Errorf errInvalidChannelMap ''%w: unsupported family 1 channel count''))"

definition validateFamilySpecificChannelMapping :: "u8 \<Rightarrow> u8 \<Rightarrow> u8 \<Rightarrow> bytes \<Rightarrow> oggw_error option" where
  "validateFamilySpecificChannelMapping family streamCount coupledCount mapping =
     (if family = 1 then validateVorbisChannelMapping streamCount coupledCount mapping
      else if family = 2 \<and> (length mapping \<noteq> 1 \<or> streamCount \<noteq> 1 \<or> coupledCount \<noteq> 0 \<or> mapping ! 0 \<noteq> 0)
      then Some (Errorf errInvalidChannelMap ''%w: invalid family 2 mapping'') else None)"

definition validateChannelMapping :: "u8 \<Rightarrow> u8 \<Rightarrow> u8 \<Rightarrow> bytes \<Rightarrow> oggw_error + channelMapping" where
  "validateChannelMapping family streamCount coupledCount mapping =
     (case validateChannelMappingFamily family of Some e \<Rightarrow> Inl e
      | None \<Rightarrow> (case validateChannelMappingLayout streamCount coupledCount mapping of Some e \<Rightarrow> Inl e
      | None \<Rightarrow> (case validateFamilySpecificChannelMapping family streamCount coupledCount mapping of Some e \<Rightarrow> Inl e
      | None \<Rightarrow> Inr \<lparr>cm_family = family, cm_channelCount = of_nat (length mapping), cm_streamCount = streamCount,
                     cm_coupledCount = coupledCount, cm_mapping = mapping\<rparr>)))"

section \<open>Comments\<close>

text \<open>\<open>utf8.ValidString\<close>.\<close>

definition utf8_cont :: "byte \<Rightarrow> bool" where
  "utf8_cont b \<longleftrightarrow> 0x80 \<le> b \<and> b \<le> 0xBF"

function utf8_Valid :: "bytes \<Rightarrow> bool" where
  "utf8_Valid s = (case s of
     [] \<Rightarrow> True
   | b # r \<Rightarrow>
       if b < 0x80 then utf8_Valid r
       else if 0xC2 \<le> b \<and> b \<le> 0xDF then
         (case r of c # r1 \<Rightarrow> utf8_cont c \<and> utf8_Valid r1 | _ \<Rightarrow> False)
       else if 0xE0 \<le> b \<and> b \<le> 0xEF then
         (case r of c # d # r2 \<Rightarrow>
            (if b = 0xE0 then 0xA0 \<le> c \<and> c \<le> 0xBF else if b = 0xED then 0x80 \<le> c \<and> c \<le> 0x9F else utf8_cont c)
            \<and> utf8_cont d \<and> utf8_Valid r2 | _ \<Rightarrow> False)
       else if 0xF0 \<le> b \<and> b \<le> 0xF4 then
         (case r of c # d # e # r3 \<Rightarrow>
            (if b = 0xF0 then 0x90 \<le> c \<and> c \<le> 0xBF else if b = 0xF4 then 0x80 \<le> c \<and> c \<le> 0x8F else utf8_cont c)
            \<and> utf8_cont d \<and> utf8_cont e \<and> utf8_Valid r3 | _ \<Rightarrow> False)
       else False)"
  by pat_completeness auto
termination
  by (relation "measure length") auto

declare utf8_Valid.simps [simp del]

definition validateOpusTagString :: "string \<Rightarrow> bytes \<Rightarrow> oggw_error option" where
  "validateOpusTagString field value =
     (if \<not> utf8_Valid value then Some (Errorf errInvalidOpusTags ''%w: %s is not valid UTF-8'')
      else if length value > maxUint32Length then Some (Errorf errInvalidOpusTags ''%w: %s is too long'')
      else None)"

definition isValidCommentName :: "bytes \<Rightarrow> bool" where
  "isValidCommentName comment \<longleftrightarrow> comment \<noteq> [] \<and> list_all (\<lambda>b. \<not> (b < 0x20 \<or> b > 0x7d \<or> b = 61)) comment"

definition validateUserComment :: "UserComment \<Rightarrow> oggw_error option" where
  "validateUserComment comment =
     (if \<not> isValidCommentName (Comment comment) then Some (Errorf errInvalidOpusTags ''%w: invalid user comment name'')
      else (case validateOpusTagString ''user comment value'' (Value comment) of
          Some e \<Rightarrow> Some e
        | None \<Rightarrow> if length (Comment comment) + 1 + length (Value comment) > maxUint32Length
                  then Some (Errorf errInvalidOpusTags ''%w: user comment is too long'') else None))"

fun validateUserComments :: "UserComment list \<Rightarrow> oggw_error option" where
  "validateUserComments [] = None"
| "validateUserComments (c # cs) = (case validateUserComment c of Some e \<Rightarrow> Some e | None \<Rightarrow> validateUserComments cs)"

fun validateOpusTagsHeaderLen_loop :: "UserComment list \<Rightarrow> u64 \<Rightarrow> u64 \<Rightarrow> oggw_error option" where
  "validateOpusTagsHeaderLen_loop [] headerLen maxHeaderLen = None"
| "validateOpusTagsHeaderLen_loop (c # cs) headerLen maxHeaderLen =
     (let userCommentLen = of_nat (length (Comment c)) + 1 + of_nat (length (Value c));
          commentFieldLen = 4 + userCommentLen in
      if commentFieldLen > maxHeaderLen - headerLen
      then Some (Errorf errInvalidOpusTags ''%w: header is too long'')
      else validateOpusTagsHeaderLen_loop cs (headerLen + commentFieldLen) maxHeaderLen)"

definition validateOpusTagsHeaderLen :: "OpusTags \<Rightarrow> u64 \<Rightarrow> oggw_error option" where
  "validateOpusTagsHeaderLen opusTags maxHeaderLen =
     (let headerLen = of_nat (length commentPageSignature) + 4 + of_nat (length (Vendor opusTags)) + 4 in
      if headerLen > maxHeaderLen then Some (Errorf errInvalidOpusTags ''%w: header is too long'')
      else validateOpusTagsHeaderLen_loop (UserComments opusTags) headerLen maxHeaderLen)"

definition validateOpusTagsWithMaxHeaderLen :: "OpusTags \<Rightarrow> u64 \<Rightarrow> oggw_error option" where
  "validateOpusTagsWithMaxHeaderLen opusTags maxHeaderLen =
     (case validateOpusTagString ''vendor'' (Vendor opusTags) of
        Some e \<Rightarrow> Some e
      | None \<Rightarrow>
          if length (UserComments opusTags) > maxUint32Length
          then Some (Errorf errInvalidOpusTags ''%w: too many user comments'')
          else (case validateUserComments (UserComments opusTags) of
              Some e \<Rightarrow> Some e
            | None \<Rightarrow> validateOpusTagsHeaderLen opusTags maxHeaderLen))"

definition validateOpusTags :: "OpusTags \<Rightarrow> oggw_error option" where
  "validateOpusTags opusTags = validateOpusTagsWithMaxHeaderLen opusTags 0x7FFFFFFFFFFFFFFF"

definition applyVendor :: "bytes \<Rightarrow> OpusTags \<Rightarrow> oggw_error option \<times> OpusTags" where
  "applyVendor vendor opusTags = (case validateOpusTagString ''vendor'' vendor of
     Some e \<Rightarrow> (Some e, opusTags) | None \<Rightarrow> (None, opusTags\<lparr>Vendor := vendor\<rparr>))"

definition applyUserComments :: "UserComment list \<Rightarrow> OpusTags \<Rightarrow> oggw_error option \<times> OpusTags" where
  "applyUserComments comments opusTags = (case validateUserComments comments of
     Some e \<Rightarrow> (Some e, opusTags)
   | None \<Rightarrow> (None, opusTags\<lparr>UserComments := UserComments opusTags @ comments\<rparr>))"

definition defaultOpusTags :: OpusTags where
  "defaultOpusTags = \<lparr>Vendor = defaultVendor, UserComments = []\<rparr>"

section \<open>The two headers\<close>

record oggTrack =
  trk_sampleRate :: u32
  trk_channelMapping :: channelMapping
  trk_preSkip :: u16
  trk_serial :: u32
  trk_opusTags :: OpusTags
  trk_pageIndex :: u32
  previousGranulePosition :: u64
  lastPayload :: bytes
  lastGranulePosition :: u64
  lastPageIndex :: u32
  lastPageOffset :: nat
  lastPageHeaderType :: u8
  lastPageWritten :: bool

definition newTrackState :: "u32 \<Rightarrow> channelMapping \<Rightarrow> u32 \<Rightarrow> OpusTags \<Rightarrow> oggTrack" where
  "newTrackState sampleRate mapping serial opusTags =
     \<lparr>trk_sampleRate = sampleRate, trk_channelMapping = mapping, trk_preSkip = defaultPreSkip, trk_serial = serial,
      trk_opusTags = opusTags, trk_pageIndex = 0, previousGranulePosition = 0, lastPayload = [], lastGranulePosition = 0,
      lastPageIndex = 0, lastPageOffset = 0, lastPageHeaderType = 0, lastPageWritten = False\<rparr>"

text \<open>
  \<open>copy(oggIDHeader[21:], mapping)\<close> fills \<open>channelCount\<close> bytes; a shorter mapping leaves zeros, a
  longer one is cut.
\<close>

definition buildIDHeader :: "oggTrack \<Rightarrow> bytes" where
  "buildIDHeader track =
     (let cm = trk_channelMapping track; n = unat (cm_channelCount cm) in
      idPageSignature @ [1, cm_channelCount cm] @ le16 (trk_preSkip track) @ le32 (trk_sampleRate track) @ le16 0
        @ [cm_family cm]
        @ (if cm_family cm \<noteq> 0
           then [cm_streamCount cm, cm_coupledCount cm] @ take n (cm_mapping cm @ replicate n 0) else []))"

definition comment_bytes :: "UserComment \<Rightarrow> bytes" where
  "comment_bytes c = le32 (of_nat (length (Comment c) + 1 + length (Value c))) @ Comment c @ [61] @ Value c"

definition buildCommentHeader :: "OpusTags \<Rightarrow> bytes" where
  "buildCommentHeader opusTags =
     commentPageSignature @ le32 (of_nat (length (Vendor opusTags))) @ Vendor opusTags
       @ le32 (of_nat (length (UserComments opusTags))) @ concat (map comment_bytes (UserComments opusTags))"

section \<open>Pages\<close>

record oggPage =
  pg_data :: bytes
  pg_payload :: bytes
  pg_headerType :: u8
  pg_granulePos :: u64
  pg_pageIndex :: u32

definition packetPageHeaderType :: "u8 \<Rightarrow> bool \<Rightarrow> bool \<Rightarrow> u8" where
  "packetPageHeaderType headerType firstPage packetComplete =
     (if firstPage then
        if packetComplete then headerType else headerType AND NOT pageHeaderTypeEndOfStream
      else if packetComplete then pageHeaderTypeContinuationOfPacket OR (headerType AND pageHeaderTypeEndOfStream)
      else pageHeaderTypeContinuationOfPacket)"

text \<open>The page without its checksum, and with the checksum of all its bytes put in.\<close>

definition page_with_checksum :: "u32 \<Rightarrow> bytes \<Rightarrow> bytes \<Rightarrow> u8 \<Rightarrow> u64 \<Rightarrow> u32 \<Rightarrow> u32 \<Rightarrow> bytes" where
  "page_with_checksum checksum payload segmentTable headerType granulePos serial pageIndex =
     pageHeaderSignature @ [0, headerType] @ le64 granulePos @ le32 serial @ le32 pageIndex @ le32 checksum
       @ [of_nat (length segmentTable)] @ segmentTable @ payload"

definition createPageForSerialWithSegments ::
  "u32 list \<Rightarrow> bytes \<Rightarrow> bytes \<Rightarrow> u8 \<Rightarrow> u64 \<Rightarrow> u32 \<Rightarrow> u32 \<Rightarrow> bytes" where
  "createPageForSerialWithSegments table payload segmentTable headerType granulePos serial pageIndex =
     (let page = page_with_checksum 0 payload segmentTable headerType granulePos serial pageIndex;
          checksum = foldl (crc_update table) 0 page
      in page_with_checksum checksum payload segmentTable headerType granulePos serial pageIndex)"

text \<open>The inner loop: the lacing values of one page. It returns the table, its payload bytes, the bytes left and whether the packet is complete.\<close>

function fill_segments :: "bytes \<Rightarrow> nat \<Rightarrow> nat \<Rightarrow> bytes \<times> nat \<times> nat \<times> bool" where
  "fill_segments segmentTable pagePayloadSize remainingPayload =
     (if length segmentTable < maxOggPageSegments then
        if remainingPayload \<ge> 255
        then fill_segments (segmentTable @ [255]) (pagePayloadSize + 255) (remainingPayload - 255)
        else (segmentTable @ [of_nat remainingPayload], pagePayloadSize + remainingPayload, 0, True)
      else (segmentTable, pagePayloadSize, remainingPayload, False))"
  by pat_completeness auto
termination
  by (relation "measure (\<lambda>(_, _, r). r)") auto

declare fill_segments.simps [simp del]

lemma fill_segments_eq:
  "length tbl \<le> 255 \<Longrightarrow> fill_segments tbl n r =
     (if length tbl + r div 255 < 255
      then (tbl @ replicate (r div 255) 255 @ [of_nat (r mod 255)], n + r, 0, True)
      else (tbl @ replicate (255 - length tbl) 255, n + 255 * (255 - length tbl), r - 255 * (255 - length tbl), False))"
proof (induction tbl n r rule: fill_segments.induct)
  case (1 tbl n r)
  consider "length tbl = 255" | "length tbl < 255" "r \<ge> 255" | "length tbl < 255" "r < 255" using "1.prems" by linarith
  then show ?case
  proof cases
    case 1
    then show ?thesis by (subst fill_segments.simps) (simp add: maxOggPageSegments_def)
  next
    case 2
    then have d: "r div 255 = Suc ((r - 255) div 255)" "r mod 255 = (r - 255) mod 255"
      by (simp_all add: le_div_geq le_mod_geq)
    obtain k where k: "255 - length tbl = Suc k" "k = 255 - Suc (length tbl)" using 2 by (metis Suc_diff_Suc)
    have e: "(255 :: nat) + 255 * k = 255 * Suc k" by simp
    show ?thesis using 2 "1.IH" unfolding d
      by (subst fill_segments.simps) (simp add: maxOggPageSegments_def k algebra_simps)
  next
    case 3
    then show ?thesis by (subst fill_segments.simps) (simp add: maxOggPageSegments_def)
  qed
qed

function create_pages ::
  "u32 list \<Rightarrow> bytes \<Rightarrow> u8 \<Rightarrow> u64 \<Rightarrow> u32 \<Rightarrow> u32 \<Rightarrow> nat \<Rightarrow> nat \<Rightarrow> bool \<Rightarrow> oggPage list" where
  "create_pages table payload headerType granulePos serial pageIndex payloadOffset remainingPayload firstPage =
     (case fill_segments [] 0 remainingPayload of (segmentTable, pagePayloadSize, remaining1, packetComplete) \<Rightarrow>
        let pagePayload = slice payloadOffset (payloadOffset + pagePayloadSize) payload;
            pageHeaderType = packetPageHeaderType headerType firstPage packetComplete;
            pageGranulePos = (if packetComplete then granulePos else noGranulePosition);
            page = \<lparr>pg_data = createPageForSerialWithSegments table pagePayload segmentTable pageHeaderType pageGranulePos serial pageIndex,
                    pg_payload = pagePayload, pg_headerType = pageHeaderType, pg_granulePos = pageGranulePos, pg_pageIndex = pageIndex\<rparr>
        in page # (if packetComplete then []
             else create_pages table payload headerType granulePos serial (pageIndex + 1) (payloadOffset + pagePayloadSize) remaining1 False))"
  by pat_completeness auto
termination
  by (relation "measure (\<lambda>(_, _, _, _, _, _, _, r, _). r)") (auto simp: fill_segments_eq split: if_splits)

declare create_pages.simps [simp del]

definition createPagesForSerial :: "u32 list \<Rightarrow> bytes \<Rightarrow> u8 \<Rightarrow> u64 \<Rightarrow> u32 \<Rightarrow> u32 \<Rightarrow> oggPage list" where
  "createPagesForSerial table payload headerType granulePos serial pageIndex =
     create_pages table payload headerType granulePos serial pageIndex 0 (length payload) True"

definition createPageForSerial :: "u32 list \<Rightarrow> bytes \<Rightarrow> u8 \<Rightarrow> u64 \<Rightarrow> u32 \<Rightarrow> u32 \<Rightarrow> bytes" where
  "createPageForSerial table payload headerType granulePos serial pageIndex =
     concat (map pg_data (createPagesForSerial table payload headerType granulePos serial pageIndex))"

section \<open>Opus packets\<close>

definition opusPacketFrameCount :: "bytes \<Rightarrow> oggw_error + u8" where
  "opusPacketFrameCount payload =
     (let code = payload ! 0 AND 0x03 in
      if code = 0 then Inr 1
      else if code = 1 \<or> code = 2 then Inr 2
      else if code = 3 then
        if length payload < 2 then Inl (Err errInvalidOpusPacket)
        else let frameCount = payload ! 1 AND 0x3f in
             if frameCount = 0 then Inl (Err errInvalidOpusPacket) else Inr frameCount
      else Inl (Err errInvalidOpusPacket))"

definition opusSamplesPerFrame :: "byte \<Rightarrow> u32" where
  "opusSamplesPerFrame toc =
     (if toc AND 0x80 \<noteq> 0 then push_bit (unat (drop_bit 3 toc AND 0x03)) opusGranuleSampleRate div 400
      else if toc AND 0x60 = 0x60 then
        if toc AND 0x08 \<noteq> 0 then opusGranuleSampleRate div 50 else opusGranuleSampleRate div 100
      else let frameSize = drop_bit 3 toc AND 0x03 in
        if frameSize = 3 then opusGranuleSampleRate * 60 div 1000
        else push_bit (unat frameSize) opusGranuleSampleRate div 100)"

definition opusPacketSampleCount :: "bytes \<Rightarrow> oggw_error + u64" where
  "opusPacketSampleCount payload =
     (if length payload = 0 then Inl (Err errInvalidOpusPacket)
      else (case opusPacketFrameCount payload of
          Inl e \<Rightarrow> Inl e
        | Inr frameCount \<Rightarrow>
            let sampleCount = to64 (opusSamplesPerFrame (payload ! 0)) * to64 frameCount in
            if sampleCount > maxOpusPacketSamples then Inl (Err errInvalidOpusPacket) else Inr sampleCount))"

end
