(* ===== verification/OggWriter.thy ===== *)
theory OggWriter
  imports OggPages
begin

text \<open>
  The upper half of the Ogg writer, \<open>oggwriter/oggwriter.go\<close>: tracks and their pages on an output,
  the single-track \<open>OggWriter\<close> and the multiplexing \<open>Writer\<close>. A \<open>pageRewriter\<close> is the output
  itself, seekable (\<open>os.File\<close> in \<open>New\<close>, the documented use of \<open>WithSeekableOutput\<close>), so the model
  has a flag for it. The field \<open>stream\<close> is nil after \<open>Close\<close>; a flag says so and the output is kept.
  A \<open>Track\<close> handle is a position in \<open>trackOrder\<close>. \<open>codecs.OpusPacket\<close> and the random numbers of
  \<open>internal/util\<close> are arguments.
\<close>

section \<open>Pages on an output\<close>

fun write_pages :: "bool \<Rightarrow> oggPage list \<Rightarrow> nat \<Rightarrow> oggTrack \<Rightarrow> sink \<Rightarrow> oggw_error option \<times> oggTrack \<times> sink" where
  "write_pages rewriter [] offset track out = (None, track, out)"
| "write_pages rewriter (page # rest) offset track out = (case Write (pg_data page) out of
     (Some e, out1) \<Rightarrow> (Some e, track, out1)
   | (None, out1) \<Rightarrow>
       let track1 = (if rewriter \<and> rest = []
             then track\<lparr>lastPageOffset := offset, lastPayload := pg_payload page, lastGranulePosition := pg_granulePos page,
                        lastPageIndex := pg_pageIndex page, lastPageHeaderType := pg_headerType page, lastPageWritten := True\<rparr>
             else track) in
       write_pages rewriter rest (offset + length (pg_data page)) track1 out1)"

definition writePage ::
  "bool \<Rightarrow> u32 list \<Rightarrow> bytes \<Rightarrow> u8 \<Rightarrow> u64 \<Rightarrow> oggTrack \<Rightarrow> sink \<Rightarrow> oggw_error option \<times> oggTrack \<times> sink" where
  "writePage rewriter table payload headerType granulePos track out =
     (let pages = createPagesForSerial table payload headerType granulePos (trk_serial track) (trk_pageIndex track) in
      case (if rewriter then SeekCurrent out else (Inr 0, out)) of
        (Inl e, out1) \<Rightarrow> (Some e, track, out1)
      | (Inr offset, out1) \<Rightarrow> (case write_pages rewriter pages offset track out1 of
          (Some e, track1, out2) \<Rightarrow> (Some e, track1, out2)
        | (None, track1, out2) \<Rightarrow>
            (None, track1\<lparr>trk_pageIndex := trk_pageIndex track1 + of_nat (length pages)\<rparr>, out2)))"

definition writeTrackIDHeader :: "bool \<Rightarrow> u32 list \<Rightarrow> oggTrack \<Rightarrow> sink \<Rightarrow> oggw_error option \<times> oggTrack \<times> sink" where
  "writeTrackIDHeader rewriter table track out =
     writePage rewriter table (buildIDHeader track) pageHeaderTypeBeginningOfStream 0 track out"

definition writeTrackCommentHeader :: "bool \<Rightarrow> u32 list \<Rightarrow> oggTrack \<Rightarrow> sink \<Rightarrow> oggw_error option \<times> oggTrack \<times> sink" where
  "writeTrackCommentHeader rewriter table track out =
     writePage rewriter table (buildCommentHeader (trk_opusTags track)) pageHeaderTypeContinuationOfStream 0 track out"

definition writeTrackHeaders :: "bool \<Rightarrow> u32 list \<Rightarrow> oggTrack \<Rightarrow> sink \<Rightarrow> oggw_error option \<times> oggTrack \<times> sink" where
  "writeTrackHeaders rewriter table track out = (case writeTrackIDHeader rewriter table track out of
     (Some e, track1, out1) \<Rightarrow> (Some e, track1, out1)
   | (None, track1, out1) \<Rightarrow> writeTrackCommentHeader rewriter table track1 out1)"

definition writeOpusPayload :: "bool \<Rightarrow> u32 list \<Rightarrow> bytes \<Rightarrow> oggTrack \<Rightarrow> sink \<Rightarrow> oggw_error option \<times> oggTrack \<times> sink" where
  "writeOpusPayload rewriter table payload track out = (case opusPacketSampleCount payload of
     Inl e \<Rightarrow> (Some e, track, out)
   | Inr sampleCount \<Rightarrow>
       let track1 = track\<lparr>previousGranulePosition := previousGranulePosition track + sampleCount\<rparr> in
       writePage rewriter table payload pageHeaderTypeContinuationOfStream (previousGranulePosition track1) track1 out)"

definition markTrackEndOfStream :: "u32 list \<Rightarrow> oggTrack \<Rightarrow> sink \<Rightarrow> oggw_error option \<times> sink" where
  "markTrackEndOfStream table track out =
     (if \<not> lastPageWritten track then (None, out)
      else WriteAt (createPageForSerial table (lastPayload track) (lastPageHeaderType track OR pageHeaderTypeEndOfStream)
             (lastGranulePosition track) (trk_serial track) (lastPageIndex track)) (lastPageOffset track) out)"

definition writeNilEndOfStreamPage :: "u32 list \<Rightarrow> oggTrack \<Rightarrow> sink \<Rightarrow> oggw_error option \<times> oggTrack \<times> sink" where
  "writeNilEndOfStreamPage table track out =
     (if trk_pageIndex track = 0 then (None, track, out)
      else (case Write (createPageForSerialWithSegments table [] [] pageHeaderTypeEndOfStream
                   (previousGranulePosition track) (trk_serial track) (trk_pageIndex track)) out of
          (Some e, out1) \<Rightarrow> (Some e, track, out1)
        | (None, out1) \<Rightarrow> (None, track\<lparr>trk_pageIndex := trk_pageIndex track + 1\<rparr>, out1)))"

section \<open>RTP packets\<close>

record opus_rtp =
  rtp_SSRC :: u32
  rtp_Payload :: bytes

text \<open>A nil packet is \<open>None\<close>; \<open>Inr None\<close> is a packet with nothing to write.\<close>

definition opusPayloadFromPacket :: "(bytes \<Rightarrow> nat + bytes) \<Rightarrow> opus_rtp option \<Rightarrow> oggw_error + bytes option" where
  "opusPayloadFromPacket opus_Unmarshal packet = (case packet of
     None \<Rightarrow> Inl (Err errInvalidNilPacket_ogg)
   | Some p \<Rightarrow>
       if length (rtp_Payload p) = 0 then Inr None
       else (case opus_Unmarshal (rtp_Payload p) of
           Inl e \<Rightarrow> Inl (Err (errOpusCodec e))
         | Inr payload \<Rightarrow> Inr (Some payload)))"

definition writeRTP ::
  "(bytes \<Rightarrow> nat + bytes) \<Rightarrow> bool \<Rightarrow> u32 list \<Rightarrow> opus_rtp option \<Rightarrow> oggTrack \<Rightarrow> sink \<Rightarrow> oggw_error option \<times> oggTrack \<times> sink" where
  "writeRTP opus rewriter table packet track out = (case opusPayloadFromPacket opus packet of
     Inl e \<Rightarrow> (Some e, track, out)
   | Inr None \<Rightarrow> (None, track, out)
   | Inr (Some payload) \<Rightarrow> writeOpusPayload rewriter table payload track out)"

section \<open>The single-track writer\<close>

record trackConfig =
  tc_sampleRate :: u32
  tc_channelMapping :: channelMapping
  tc_channelMappingSet :: bool
  tc_serial :: u32
  tc_serialSet :: bool
  tc_opusTags :: OpusTags

definition zero_channelMapping :: channelMapping where
  "zero_channelMapping = \<lparr>cm_family = 0, cm_channelCount = 0, cm_streamCount = 0, cm_coupledCount = 0, cm_mapping = []\<rparr>"

definition newTrackConfig :: "u32 \<Rightarrow> u16 \<Rightarrow> oggw_error + trackConfig" where
  "newTrackConfig sampleRate channelCount =
     (let config = \<lparr>tc_sampleRate = sampleRate, tc_channelMapping = zero_channelMapping, tc_channelMappingSet = False,
             tc_serial = 0, tc_serialSet = False, tc_opusTags = defaultOpusTags\<rparr> in
      case defaultChannelMapping channelCount of
        Inl e \<Rightarrow> Inl e
      | Inr mapping \<Rightarrow>
          let config1 = config\<lparr>tc_channelMapping := mapping, tc_channelMappingSet := True\<rparr> in
          (case validateOpusTags (tc_opusTags config1) of Some e \<Rightarrow> Inl e | None \<Rightarrow> Inr config1))"

record OggWriter =
  ow_out :: sink
  ow_open :: bool
  ow_fd :: bool
  ow_table :: "u32 list"
  ow_track :: oggTrack

text \<open>\<open>random\<close> is what \<open>util.RandUint32()\<close> returns; on failure the output is returned with the error.\<close>

definition oggw_newWith :: "u32 \<Rightarrow> sink option \<Rightarrow> bool \<Rightarrow> trackConfig \<Rightarrow> (oggw_error \<times> sink option) + OggWriter" where
  "oggw_newWith random out fd config = (case out of
     None \<Rightarrow> Inl (Err errFileNotOpened_ogg, None)
   | Some d \<Rightarrow>
       let serial = (if tc_serialSet config then tc_serial config else random);
           track = newTrackState (tc_sampleRate config) (tc_channelMapping config) serial (tc_opusTags config) in
       (case writeTrackHeaders fd generateChecksumTable track d of
          (Some e, _, d1) \<Rightarrow> Inl (e, Some d1)
        | (None, track1, d1) \<Rightarrow>
            Inr \<lparr>ow_out = d1, ow_open = True, ow_fd = fd, ow_table = generateChecksumTable, ow_track = track1\<rparr>))"

definition oggw_NewWith :: "u32 \<Rightarrow> sink option \<Rightarrow> u32 \<Rightarrow> u16 \<Rightarrow> oggw_error + OggWriter" where
  "oggw_NewWith random out sampleRate channelCount = (case newTrackConfig sampleRate channelCount of
     Inl e \<Rightarrow> Inl e
   | Inr config \<Rightarrow> (case oggw_newWith random out False config of Inl (e, _) \<Rightarrow> Inl e | Inr w \<Rightarrow> Inr w))"

text \<open>\<open>New\<close> with the result of \<open>os.Create\<close> as an argument.\<close>

definition oggw_New :: "u32 \<Rightarrow> oggw_error + sink \<Rightarrow> u32 \<Rightarrow> u16 \<Rightarrow> oggw_error + OggWriter" where
  "oggw_New random created sampleRate channelCount = (case newTrackConfig sampleRate channelCount of
     Inl e \<Rightarrow> Inl e
   | Inr config \<Rightarrow> (case created of
       Inl e \<Rightarrow> Inl e
     | Inr file \<Rightarrow> (case oggw_newWith random (Some file) True config of
         Inl (e, d) \<Rightarrow>
           (case errors_Join (Some e) (case d of None \<Rightarrow> None | Some f \<Rightarrow> fst (Close f)) of Some j \<Rightarrow> Inl j | None \<Rightarrow> Inl e)
       | Inr w \<Rightarrow> Inr w)))"

definition oggw_WriteRTP :: "(bytes \<Rightarrow> nat + bytes) \<Rightarrow> opus_rtp option \<Rightarrow> OggWriter \<Rightarrow> oggw_error option \<times> OggWriter" where
  "oggw_WriteRTP opus packet w =
     (if \<not> ow_open w then (Some (Err errFileNotOpened_ogg), w)
      else (case writeRTP opus (ow_fd w) (ow_table w) packet (ow_track w) (ow_out w) of
          (err, track, d) \<Rightarrow> (err, w\<lparr>ow_track := track, ow_out := d\<rparr>)))"

definition oggw_Close :: "OggWriter \<Rightarrow> oggw_error option \<times> OggWriter" where
  "oggw_Close w =
     (let finished = (\<lambda>err d. (err, w\<lparr>ow_out := d, ow_fd := False, ow_open := False\<rparr>)) in
      if \<not> ow_fd w then
        if ow_open w \<and> can_close (ow_out w) then (case Close (ow_out w) of (err, d) \<Rightarrow> finished err d)
        else finished None (ow_out w)
      else (case markTrackEndOfStream (ow_table w) (ow_track w) (ow_out w) of
          (closeErr, d) \<Rightarrow> (case Close d of (cerr, d1) \<Rightarrow> finished (errors_Join closeErr cerr) d1)))"

section \<open>Options of the multi-track writer\<close>

record writerConfig =
  wc_sampleRate :: u32
  wc_channelMapping :: channelMapping
  wc_pageRewriter :: bool
  wc_opusTags :: OpusTags

text \<open>The options that configure both a \<open>Writer\<close> and a \<open>Track\<close>, and those for one of them.\<close>

datatype writerTrackOption =
    sampleRateOption u32
  | channelCountOption u16
  | channelMapOption u8 u8 u8 bytes
  | vendorOption bytes
  | userCommentsOption "UserComment list"

datatype writerOption = WriterTrack writerTrackOption | SeekableOutput
datatype trackOption = TrackWriter writerTrackOption | SerialOption u32

text \<open>
  The exported constructors. The options copy their slices; an interface that is both a writer and a
  track option is injected into either list.
\<close>

definition WithSerial :: "u32 \<Rightarrow> trackOption" where "WithSerial serial = SerialOption serial"
definition WithSampleRate :: "u32 \<Rightarrow> writerTrackOption" where "WithSampleRate sampleRate = sampleRateOption sampleRate"
definition WithChannelCount :: "u16 \<Rightarrow> writerTrackOption" where "WithChannelCount channelCount = channelCountOption channelCount"
definition WithChannelMapping :: "u8 \<Rightarrow> u8 \<Rightarrow> u8 \<Rightarrow> bytes \<Rightarrow> writerTrackOption" where
  "WithChannelMapping family streamCount coupledCount mapping = channelMapOption family streamCount coupledCount mapping"
definition WithVendor :: "bytes \<Rightarrow> writerTrackOption" where "WithVendor vendor = vendorOption vendor"
definition WithUserComments :: "UserComment list \<Rightarrow> writerTrackOption" where "WithUserComments comments = userCommentsOption comments"
definition WithSeekableOutput :: writerOption where "WithSeekableOutput = SeekableOutput"

fun applyWriterConfig :: "writerOption \<Rightarrow> writerConfig \<Rightarrow> oggw_error option \<times> writerConfig" where
  "applyWriterConfig (WriterTrack (sampleRateOption r)) config = (None, config\<lparr>wc_sampleRate := r\<rparr>)"
| "applyWriterConfig (WriterTrack (channelCountOption n)) config = (case defaultChannelMapping n of
     Inl e \<Rightarrow> (Some e, config) | Inr m \<Rightarrow> (None, config\<lparr>wc_channelMapping := m\<rparr>))"
| "applyWriterConfig (WriterTrack (channelMapOption f s c m)) config = (case validateChannelMapping f s c m of
     Inl e \<Rightarrow> (Some e, config) | Inr m' \<Rightarrow> (None, config\<lparr>wc_channelMapping := m'\<rparr>))"
| "applyWriterConfig (WriterTrack (vendorOption v)) config = (case applyVendor v (wc_opusTags config) of
     (err, t) \<Rightarrow> (err, config\<lparr>wc_opusTags := t\<rparr>))"
| "applyWriterConfig (WriterTrack (userCommentsOption cs)) config = (case applyUserComments cs (wc_opusTags config) of
     (err, t) \<Rightarrow> (err, config\<lparr>wc_opusTags := t\<rparr>))"
| "applyWriterConfig SeekableOutput config = (None, config\<lparr>wc_pageRewriter := True\<rparr>)"

fun applyTrackConfig :: "trackOption \<Rightarrow> trackConfig \<Rightarrow> oggw_error option \<times> trackConfig" where
  "applyTrackConfig (TrackWriter (sampleRateOption r)) config = (None, config\<lparr>tc_sampleRate := r\<rparr>)"
| "applyTrackConfig (TrackWriter (channelCountOption n)) config = (case defaultChannelMapping n of
     Inl e \<Rightarrow> (Some e, config)
   | Inr m \<Rightarrow> (None, config\<lparr>tc_channelMapping := m, tc_channelMappingSet := True\<rparr>))"
| "applyTrackConfig (TrackWriter (channelMapOption f s c m)) config = (case validateChannelMapping f s c m of
     Inl e \<Rightarrow> (Some e, config)
   | Inr m' \<Rightarrow> (None, config\<lparr>tc_channelMapping := m', tc_channelMappingSet := True\<rparr>))"
| "applyTrackConfig (TrackWriter (vendorOption v)) config = (case applyVendor v (tc_opusTags config) of
     (err, t) \<Rightarrow> (err, config\<lparr>tc_opusTags := t\<rparr>))"
| "applyTrackConfig (TrackWriter (userCommentsOption cs)) config = (case applyUserComments cs (tc_opusTags config) of
     (err, t) \<Rightarrow> (err, config\<lparr>tc_opusTags := t\<rparr>))"
| "applyTrackConfig (SerialOption s) config = (None, config\<lparr>tc_serial := s, tc_serialSet := True\<rparr>)"

fun apply_writerConfigs :: "writerOption list \<Rightarrow> writerConfig \<Rightarrow> oggw_error option \<times> writerConfig" where
  "apply_writerConfigs [] config = (None, config)"
| "apply_writerConfigs (opt # opts) config = (case applyWriterConfig opt config of
     (Some e, c) \<Rightarrow> (Some e, c) | (None, c) \<Rightarrow> apply_writerConfigs opts c)"

fun apply_trackConfigs :: "trackOption list \<Rightarrow> trackConfig \<Rightarrow> oggw_error option \<times> trackConfig" where
  "apply_trackConfigs [] config = (None, config)"
| "apply_trackConfigs (opt # opts) config = (case applyTrackConfig opt config of
     (Some e, c) \<Rightarrow> (Some e, c) | (None, c) \<Rightarrow> apply_trackConfigs opts c)"

section \<open>The multi-track writer\<close>

record Track =
  tr_ssrc :: u32
  tr_track :: oggTrack

record Writer =
  mw_out :: sink
  mw_open :: bool
  mw_rewriter :: bool
  mw_sampleRate :: u32
  mw_channelMapping :: channelMapping
  mw_opusTags :: OpusTags
  mw_table :: "u32 list"
  mw_tracks :: "u32 \<rightharpoonup> nat"
  trackOrder :: "Track list"
  mw_started :: bool

definition ogg_NewWriter :: "sink option \<Rightarrow> writerOption list \<Rightarrow> oggw_error + Writer" where
  "ogg_NewWriter out opts = (case out of
     None \<Rightarrow> Inl (Err errOutputNotOpened)
   | Some d \<Rightarrow> (case defaultChannelMapping defaultChannelCount of
       Inl e \<Rightarrow> Inl e
     | Inr mapping \<Rightarrow>
         (case apply_writerConfigs opts \<lparr>wc_sampleRate = defaultSampleRate, wc_channelMapping = mapping,
                 wc_pageRewriter = False, wc_opusTags = defaultOpusTags\<rparr> of
            (Some e, _) \<Rightarrow> Inl e
          | (None, config) \<Rightarrow> (case validateOpusTags (wc_opusTags config) of
              Some e \<Rightarrow> Inl e
            | None \<Rightarrow> Inr \<lparr>mw_out = d, mw_open = True, mw_rewriter = wc_pageRewriter config,
                mw_sampleRate = wc_sampleRate config, mw_channelMapping = wc_channelMapping config,
                mw_opusTags = wc_opusTags config, mw_table = generateChecksumTable, mw_tracks = Map.empty,
                trackOrder = [], mw_started = False\<rparr>))))"

definition serialInUse :: "Writer \<Rightarrow> u32 \<Rightarrow> bool" where
  "serialInUse w serial \<longleftrightarrow> (\<exists>t \<in> set (trackOrder w). trk_serial (tr_track t) = serial)"

text \<open>
  The random numbers to come are \<open>rand n, rand (n + 1), ...\<close>. The loop draws until it finds a
  free number; \<open>None\<close> would be a generator that never gives one.
\<close>

partial_function (option) allocateSerial :: "(u32 \<Rightarrow> bool) \<Rightarrow> (nat \<Rightarrow> u32) \<Rightarrow> nat \<Rightarrow> (u32 \<times> nat) option" where
  "allocateSerial used rand n =
     (if used (rand n) then allocateSerial used rand (n + 1) else Some (rand n, n + 1))"

text \<open>\<open>NewTrack\<close> returns the position of the track; \<open>None\<close> only if \<open>allocateSerial\<close> never returns.\<close>

definition NewTrack ::
  "(nat \<Rightarrow> u32) \<Rightarrow> u32 \<Rightarrow> trackOption list \<Rightarrow> nat \<Rightarrow> Writer \<Rightarrow> ((oggw_error + nat) \<times> nat \<times> Writer) option" where
  "NewTrack rand ssrc opts n w =
     (if \<not> mw_open w then Some (Inl (Err errOutputNotOpened), n, w)
      else if mw_started w then Some (Inl (Err errTracksStarted), n, w)
      else if mw_tracks w ssrc \<noteq> None then Some (Inl (Err errDuplicateTrackSSRC), n, w)
      else (case apply_trackConfigs opts
              \<lparr>tc_sampleRate = mw_sampleRate w, tc_channelMapping = mw_channelMapping w, tc_channelMappingSet = True,
               tc_serial = 0, tc_serialSet = False, tc_opusTags = mw_opusTags w\<rparr> of
          (Some e, _) \<Rightarrow> Some (Inl e, n, w)
        | (None, config) \<Rightarrow> (case validateOpusTags (tc_opusTags config) of
            Some e \<Rightarrow> Some (Inl e, n, w)
          | None \<Rightarrow>
              let register = (\<lambda>serial n1.
                    let t = \<lparr>tr_ssrc = ssrc, tr_track = newTrackState (tc_sampleRate config) (tc_channelMapping config)
                               serial (tc_opusTags config)\<rparr> in
                    (Inr (length (trackOrder w)), n1,
                     w\<lparr>mw_tracks := (mw_tracks w)(ssrc \<mapsto> length (trackOrder w)), trackOrder := trackOrder w @ [t]\<rparr>)) in
              if \<not> tc_serialSet config then
                (case allocateSerial (serialInUse w) rand n of
                   None \<Rightarrow> None | Some (serial, n1) \<Rightarrow> Some (register serial n1))
              else if serialInUse w (tc_serial config) then Some (Inl (Err errDuplicateTrackSerial), n, w)
              else Some (register (tc_serial config) n))))"

text \<open>A loop over the tracks that stops at the first error.\<close>

fun each_track ::
  "(oggTrack \<Rightarrow> sink \<Rightarrow> oggw_error option \<times> oggTrack \<times> sink) \<Rightarrow> Track list \<Rightarrow> sink \<Rightarrow> oggw_error option \<times> Track list \<times> sink" where
  "each_track f [] d = (None, [], d)"
| "each_track f (t # ts) d = (case f (tr_track t) d of
     (Some e, k, d1) \<Rightarrow> (Some e, t\<lparr>tr_track := k\<rparr> # ts, d1)
   | (None, k, d1) \<Rightarrow> (case each_track f ts d1 of (err, ts1, d2) \<Rightarrow> (err, t\<lparr>tr_track := k\<rparr> # ts1, d2)))"

definition startLocked :: "Writer \<Rightarrow> oggw_error option \<times> Writer" where
  "startLocked w =
     (if mw_started w then (None, w)
      else (case each_track (writeTrackIDHeader (mw_rewriter w) (mw_table w)) (trackOrder w) (mw_out w) of
          (Some e, ts, d) \<Rightarrow> (Some e, w\<lparr>trackOrder := ts, mw_out := d\<rparr>)
        | (None, ts, d) \<Rightarrow> (case each_track (writeTrackCommentHeader (mw_rewriter w) (mw_table w)) ts d of
            (Some e, ts1, d1) \<Rightarrow> (Some e, w\<lparr>trackOrder := ts1, mw_out := d1\<rparr>)
          | (None, ts1, d1) \<Rightarrow> (None, w\<lparr>trackOrder := ts1, mw_out := d1, mw_started := True\<rparr>))))"

definition track_WriteRTP ::
  "(bytes \<Rightarrow> nat + bytes) \<Rightarrow> nat \<Rightarrow> opus_rtp option \<Rightarrow> Writer \<Rightarrow> oggw_error option \<times> Writer" where
  "track_WriteRTP opus i packet w =
     (if \<not> mw_open w then (Some (Err errOutputNotOpened), w)
      else (case packet of
          None \<Rightarrow> (Some (Err errInvalidNilPacket_ogg), w)
        | Some p \<Rightarrow>
            if rtp_SSRC p \<noteq> tr_ssrc (trackOrder w ! i) then (Some (Err errPacketSSRCMismatch), w)
            else (case opusPayloadFromPacket opus packet of
                Inl e \<Rightarrow> (Some e, w)
              | Inr None \<Rightarrow> (None, w)
              | Inr (Some payload) \<Rightarrow> (case startLocked w of
                  (Some e, w1) \<Rightarrow> (Some e, w1)
                | (None, w1) \<Rightarrow>
                    (case writeOpusPayload (mw_rewriter w1) (mw_table w1) payload (tr_track (trackOrder w1 ! i)) (mw_out w1) of
                       (err, k, d) \<Rightarrow>
                         (err, w1\<lparr>trackOrder := (trackOrder w1)[i := (trackOrder w1 ! i)\<lparr>tr_track := k\<rparr>], mw_out := d\<rparr>))))))"

fun mark_all :: "u32 list \<Rightarrow> Track list \<Rightarrow> oggw_error option \<Rightarrow> sink \<Rightarrow> oggw_error option \<times> sink" where
  "mark_all table [] closeErr d = (closeErr, d)"
| "mark_all table (t # ts) closeErr d = (case markTrackEndOfStream table (tr_track t) d of
     (Some e, d1) \<Rightarrow> mark_all table ts (errors_Join closeErr (Some e)) d1
   | (None, d1) \<Rightarrow> mark_all table ts closeErr d1)"

fun nil_all :: "u32 list \<Rightarrow> Track list \<Rightarrow> oggw_error option \<Rightarrow> sink \<Rightarrow> oggw_error option \<times> Track list \<times> sink" where
  "nil_all table [] closeErr d = (closeErr, [], d)"
| "nil_all table (t # ts) closeErr d = (case writeNilEndOfStreamPage table (tr_track t) d of
     (err, k, d1) \<Rightarrow>
       (case nil_all table ts (if err = None then closeErr else errors_Join closeErr err) d1 of
          (err1, ts1, d2) \<Rightarrow> (err1, t\<lparr>tr_track := k\<rparr> # ts1, d2)))"

definition ogg_Close :: "Writer \<Rightarrow> oggw_error option \<times> Writer" where
  "ogg_Close w =
     (if \<not> mw_open w then (None, w\<lparr>mw_rewriter := False\<rparr>)
      else (case startLocked w of (startErr, w1) \<Rightarrow>
        (case (if mw_rewriter w1
               then (case mark_all (mw_table w1) (trackOrder w1) startErr (mw_out w1) of (e, d) \<Rightarrow> (e, trackOrder w1, d))
               else nil_all (mw_table w1) (trackOrder w1) startErr (mw_out w1)) of
           (closeErr, ts, d) \<Rightarrow>
             (case (if can_close d then (case Close d of (cerr, d1) \<Rightarrow> (errors_Join closeErr cerr, d1)) else (closeErr, d)) of
                (err, d2) \<Rightarrow> (err, w1\<lparr>trackOrder := ts, mw_out := d2, mw_rewriter := False, mw_open := False\<rparr>)))))"

end
