(* ===== verification/OggRoundTrip.thy ===== *)
theory OggRoundTrip
  imports OggWriter
begin

text \<open>
  What the Ogg writer (\<open>oggwriter/oggwriter.go\<close>) writes and what the Ogg reader
  (\<open>oggreader/oggreader.go\<close>) reads. A page as the format describes it, its bytes and its parse; the pages
  of one packet and the lacing loop that computes them; the identification and comment headers and
  their parsers; the invariant of a track on its output; and whole recordings, from the constructor of
  the single-track writer to the last page of the reader.
\<close>

section \<open>Pages\<close>

text \<open>A page as the format has it: flags, granule position, serial, sequence number, lacing values, payload.\<close>

record ogg_page =
  p_type :: u8
  p_granule :: u64
  p_serial :: u32
  p_index :: u32
  p_segments :: bytes
  p_payload :: bytes

definition page_bytes :: "ogg_page \<Rightarrow> bytes" where
  "page_bytes p = createPageForSerialWithSegments generateChecksumTable (p_payload p) (p_segments p) (p_type p)
     (p_granule p) (p_serial p) (p_index p)"

definition page_ok :: "ogg_page \<Rightarrow> bool" where
  "page_ok p \<longleftrightarrow> length (p_segments p) \<le> 255 \<and> sum_list (map unat (p_segments p)) = length (p_payload p)"

definition page_view :: "ogg_page \<Rightarrow> bytes \<times> OggPageHeader" where
  "page_view p = (p_payload p, \<lparr>GranulePosition = p_granule p, page_sig = pageHeaderSignature, page_version = 0,
     page_headerType = p_type p, Serial = p_serial p, page_index = p_index p, segmentsCount = of_nat (length (p_segments p))\<rparr>)"

definition page_sum :: "ogg_page \<Rightarrow> u32" where
  "page_sum p = foldl (crc_update generateChecksumTable) 0 (page_with_checksum 0 (p_payload p) (p_segments p) (p_type p)
     (p_granule p) (p_serial p) (p_index p))"

definition page_header :: "u32 \<Rightarrow> ogg_page \<Rightarrow> bytes" where
  "page_header c p = pageHeaderSignature @ [0, p_type p] @ le64 (p_granule p) @ le32 (p_serial p) @ le32 (p_index p) @ le32 c
     @ [of_nat (length (p_segments p))]"

lemma page_bytes_eq: "page_bytes p = page_header (page_sum p) p @ p_segments p @ p_payload p"
  by (simp add: page_bytes_def createPageForSerialWithSegments_def page_with_checksum_def page_header_def page_sum_def Let_def)

lemma length_signature: "length pageHeaderSignature = 4"
  by (simp add: pageHeaderSignature_def str_def)

lemma length_page_header [lens, simp]: "length (page_header c p) = 27"
  by (simp add: page_header_def length_signature)

lemma length_page_bytes [lens]: "length (page_bytes p) = 27 + length (p_segments p) + length (p_payload p)"
  by (simp add: page_bytes_eq)

lemma page_header_fields:
  "take 4 (page_header c p) = pageHeaderSignature" "page_header c p ! 4 = 0" "page_header c p ! 5 = p_type p"
  "slice 6 14 (page_header c p) = le64 (p_granule p)" "slice 14 18 (page_header c p) = le32 (p_serial p)"
  "slice 18 22 (page_header c p) = le32 (p_index p)" "slice 22 26 (page_header c p) = le32 c"
  "page_header c p ! 26 = of_nat (length (p_segments p))"
proof -
  obtain a b d e where s: "pageHeaderSignature = [a, b, d, e]" using length_signature by (auto simp: numeral_eq_Suc length_Suc_conv)
  show "take 4 (page_header c p) = pageHeaderSignature" "page_header c p ! 4 = 0" "page_header c p ! 5 = p_type p"
    "slice 6 14 (page_header c p) = le64 (p_granule p)" "slice 14 18 (page_header c p) = le32 (p_serial p)"
    "slice 18 22 (page_header c p) = le32 (p_index p)" "slice 22 26 (page_header c p) = le32 c"
    "page_header c p ! 26 = of_nat (length (p_segments p))"
    by (simp_all add: page_header_def s slice_def nth_append)
qed

lemma checksum_header_eq: "checksum_header (page_header c p) = page_header 0 p"
proof (rule nth_equalityI)
  fix i assume "i < length (checksum_header (page_header c p))"
  then have i: "i < 27" by (simp add: checksum_header_def)
  define pre where "pre = pageHeaderSignature @ [0, p_type p] @ le64 (p_granule p) @ le32 (p_serial p) @ le32 (p_index p)"
  have pre: "length pre = 22" by (simp add: pre_def length_signature)
  have h: "page_header x p = pre @ le32 x @ [of_nat (length (p_segments p))]" for x by (simp add: page_header_def pre_def)
  have z: "le32 0 = [0, 0, 0, 0]" by (simp add: le32_def)
  consider "i < 22" | "22 \<le> i" "i < 26" | "i = 26" using i by linarith
  then have "(if i > 21 \<and> i < 26 then 0 else page_header c p ! i) = page_header 0 p ! i"
  proof cases
    case 2
    then have "i - 22 = 0 \<or> i - 22 = 1 \<or> i - 22 = 2 \<or> i - 22 = 3" by linarith
    then show ?thesis using 2 pre unfolding h z by (auto simp: nth_append)
  qed (use pre in \<open>simp_all add: h nth_append\<close>)
  then show "checksum_header (page_header c p) ! i = page_header 0 p ! i" using i by (auto simp: checksum_header_def split: if_splits)
qed (simp add: checksum_header_def)

lemma page_checksum_eq: "page_checksum generateChecksumTable (page_header c p) (p_segments p) (p_payload p) = page_sum p"
  unfolding page_checksum_def checksum_header_eq page_sum_def
  by (simp add: page_header_def page_with_checksum_def)

abbreviation ogg_ReadFull :: "nat \<Rightarrow> stream \<Rightarrow> (ogg_error + bytes) \<times> stream" where
  "ogg_ReadFull \<equiv> ReadFull"

definition ogg_at :: "bytes \<Rightarrow> OggReader \<Rightarrow> OggReader" where
  "ogg_at d r = r\<lparr>ogg_stream := (ogg_stream r)\<lparr>st_data := d\<rparr>\<rparr>"

definition ogg_after :: "ogg_page \<Rightarrow> OggReader \<Rightarrow> OggReader" where
  "ogg_after p r = r\<lparr>ogg_bytesRead := i64 (ogg_bytesRead r + int (length (page_bytes p)))\<rparr>"

lemma unat_segments: "page_ok p \<Longrightarrow> unat (of_nat (length (p_segments p)) :: u8) = length (p_segments p)"
  by (simp add: page_ok_def unat_of_nat take_bit_nat_eq_self)

interpretation ogg: framed_stream page_bytes "\<lambda>r p. page_ok p \<and> checksumTable r = generateChecksumTable" ParseNextPage
  "\<lambda>r p. page_view p" ogg_at ogg_after
proof unfold_locales
  fix r :: OggReader and p d assume v: "page_ok p \<and> checksumTable r = generateChecksumTable"
  let ?h = "page_header (page_sum p) p" and ?s = "ogg_stream r"
  have 1: "ogg_ReadFull pageHeaderLen (?s\<lparr>st_data := page_bytes p @ d\<rparr>) = (Inr ?h, ?s\<lparr>st_data := p_segments p @ p_payload p @ d\<rparr>)"
    by (subst ReadFull_append[where a = ?h and r = "p_segments p @ p_payload p @ d"]) (simp_all add: page_bytes_eq pageHeaderLen_def)
  have 2: "ogg_ReadFull (length (p_segments p)) (?s\<lparr>st_data := p_segments p @ p_payload p @ d\<rparr>) = (Inr (p_segments p), ?s\<lparr>st_data := p_payload p @ d\<rparr>)"
    by (subst ReadFull_append[where a = "p_segments p" and r = "p_payload p @ d"]) simp_all
  have 3: "ogg_ReadFull (length (p_payload p)) (?s\<lparr>st_data := p_payload p @ d\<rparr>) = (Inr (p_payload p), ?s\<lparr>st_data := d\<rparr>)"
    by (subst ReadFull_append[where a = "p_payload p" and r = d]) simp_all
  have sg: "sum_list (map unat (p_segments p)) = length (p_payload p)" using v by (simp add: page_ok_def)
  have g: "get_le64 (le64 x) = x" "get_le32 (le32 y) = y" for x y
    using get_le64_le64[of x "[]"] get_le32_le32[of y "[]"] by simp_all
  have tb: "checksumTable r = generateChecksumTable" using v by simp
  have f: "ogg_stream (ogg_at x r) = ?s\<lparr>st_data := x\<rparr>" "checksumTable (ogg_at x r) = checksumTable r" for x by (simp_all add: ogg_at_def)
  show "ParseNextPage (ogg_at (page_bytes p @ d) r) = (Inr (page_view p), ogg_at d (ogg_after p r))"
    unfolding ParseNextPage_def f 1 prod.case sum.case Let_def OggPageHeader.simps
      page_header_fields g unat_segments[OF v[THEN conjunct1]] 2 sg 3 tb page_checksum_eq
    by (simp add: page_view_def ogg_after_def ogg_at_def length_page_bytes pageHeaderLen_def)
qed (simp_all add: ogg_after_def)

section \<open>Packets on pages\<close>

text \<open>
  The pages of one packet, described directly: full pages of 255 lacing values of 255 while 65025
  bytes or more are left, then a page whose last lacing value is below 255. Only the last page
  carries the granule position, only the later pages the continuation flag.
\<close>

function packet_pages :: "bytes \<Rightarrow> u8 \<Rightarrow> u64 \<Rightarrow> u32 \<Rightarrow> u32 \<Rightarrow> bool \<Rightarrow> ogg_page list" where
  "packet_pages d ht gp serial idx first =
     (if length d < 65025
      then [\<lparr>p_type = packetPageHeaderType ht first True, p_granule = gp, p_serial = serial, p_index = idx,
             p_segments = replicate (length d div 255) 255 @ [of_nat (length d mod 255)], p_payload = d\<rparr>]
      else \<lparr>p_type = packetPageHeaderType ht first False, p_granule = noGranulePosition, p_serial = serial, p_index = idx,
             p_segments = replicate 255 255, p_payload = take 65025 d\<rparr>
           # packet_pages (drop 65025 d) ht gp serial (idx + 1) False)"
  by pat_completeness auto
termination by (relation "measure (\<lambda>(d, _). length d)") auto

declare packet_pages.simps [simp del]

definition written_page :: "ogg_page \<Rightarrow> oggPage" where
  "written_page p = \<lparr>pg_data = page_bytes p, pg_payload = p_payload p, pg_headerType = p_type p,
     pg_granulePos = p_granule p, pg_pageIndex = p_index p\<rparr>"

lemma create_pages_eq:
  assumes "off + rm = length payload"
  shows "create_pages generateChecksumTable payload ht gp serial idx off rm first =
    map written_page (packet_pages (drop off payload) ht gp serial idx first)"
  using assms
proof (induction rm arbitrary: off idx first rule: less_induct)
  case (less rm)
  define d where "d = drop off payload"
  have ld: "length d = rm" using less.prems by (simp add: d_def)
  show ?case
  proof (cases "rm < 65025")
    case True
    then have "rm div 255 < 255" by (simp add: div_less_iff_less_mult)
    then have fs: "fill_segments [] 0 rm = (replicate (rm div 255) 255 @ [of_nat (rm mod 255)], rm, 0, True)"
      by (subst fill_segments_eq) simp_all
    have sl: "slice off (off + rm) payload = d" using less.prems by (simp add: slice_def d_def)
    show ?thesis unfolding d_def[symmetric]
      by (subst create_pages.simps, subst packet_pages.simps)
        (simp add: fs sl ld True written_page_def page_bytes_def Let_def)
  next
    case False
    then have "\<not> rm div 255 < 255" by (simp add: div_less_iff_less_mult)
    then have fs: "fill_segments [] 0 rm = (replicate 255 255, 65025, rm - 65025, False)"
      by (subst fill_segments_eq) simp_all
    have sl: "slice off (off + 65025) payload = take 65025 d" by (simp add: slice_def d_def)
    have "create_pages generateChecksumTable payload ht gp serial (idx + 1) (off + 65025) (rm - 65025) False =
        map written_page (packet_pages (drop (off + 65025) payload) ht gp serial (idx + 1) False)"
      using False less.prems by (intro less.IH) simp_all
    moreover have "drop (off + 65025) payload = drop 65025 d" by (simp add: d_def add.commute)
    ultimately show ?thesis using False unfolding d_def[symmetric]
      by (subst create_pages.simps, subst packet_pages.simps)
        (simp add: fs sl ld written_page_def page_bytes_def Let_def)
  qed
qed

lemma createPagesForSerial_eq:
  "createPagesForSerial generateChecksumTable payload ht gp serial idx = map written_page (packet_pages payload ht gp serial idx True)"
  using create_pages_eq[of 0 "length payload" payload] by (simp add: createPagesForSerial_def)

lemma packet_pages_ok: "p \<in> set (packet_pages d ht gp serial idx first) \<Longrightarrow> page_ok p \<and> p_serial p = serial"
proof (induction d ht gp serial idx first rule: packet_pages.induct)
  case (1 d ht gp serial idx first)
  show ?case
  proof (cases "length d < 65025")
    case True
    have "length d div 255 < 255" using True by (simp add: div_less_iff_less_mult)
    moreover have "unat (of_nat (length d mod 255) :: byte) = length d mod 255"
      by (simp add: unat_of_nat take_bit_nat_eq_self order.strict_trans[OF mod_less_divisor[of 255 "length d"]])
    ultimately show ?thesis using "1.prems" True
      by (subst (asm) packet_pages.simps) (simp add: page_ok_def sum_list_replicate)
  next
    case False
    then have "page_ok \<lparr>p_type = t, p_granule = g, p_serial = serial, p_index = idx, p_segments = replicate 255 255, p_payload = take 65025 d\<rparr>" for t g
      by (simp add: page_ok_def sum_list_replicate)
    then show ?thesis using "1.prems" "1.IH" False
      by (subst (asm) packet_pages.simps) (auto)
  qed
qed

lemma packet_pages_payload: "concat (map p_payload (packet_pages d ht gp serial idx first)) = d"
proof (induction d ht gp serial idx first rule: packet_pages.induct)
  case (1 d ht gp serial idx first)
  then show ?case by (subst packet_pages.simps) (auto)
qed

lemma packet_pages_index: "map p_index (packet_pages d ht gp serial idx first) = map (\<lambda>i. idx + of_nat i) [0..<length (packet_pages d ht gp serial idx first)]"
proof (induction d ht gp serial idx first rule: packet_pages.induct)
  case (1 d ht gp serial idx first)
  show ?case
  proof (cases "length d < 65025")
    case True
    then show ?thesis by (subst (1 2) packet_pages.simps) simp
  next
    case False
    have "map (\<lambda>i. idx + of_nat i) [0..<Suc n] = idx # map (\<lambda>i. idx + 1 + of_nat i) [0..<n]" for n
      by (simp add: upt_conv_Cons map_Suc_upt[symmetric] comp_def del: upt_Suc)
    then show ?thesis using "1.IH"[OF False] False
      by (subst (1 2) packet_pages.simps) (simp del: upt_Suc)
  qed
qed

lemma packet_pages_nonempty: "packet_pages d ht gp serial idx first \<noteq> []"
  by (subst packet_pages.simps) simp

lemma packet_pages_length: "length (packet_pages d ht gp serial idx first) = length d div 65025 + 1"
proof (induction d ht gp serial idx first rule: packet_pages.induct)
  case (1 d ht gp serial idx first)
  then show ?case by (subst packet_pages.simps) (auto simp: le_div_geq)
qed

section \<open>The identification header\<close>

definition mapping_ok :: "channelMapping \<Rightarrow> bool" where
  "mapping_ok m \<longleftrightarrow> cm_family m = 0 \<or>
     (cm_family m = 1 \<or> cm_family m = 2 \<or> cm_family m = 255) \<and> length (cm_mapping m) = unat (cm_channelCount m)"

lemma defaultChannelMapping_ok: "defaultChannelMapping n = Inr m \<Longrightarrow> mapping_ok m"
  by (auto simp: defaultChannelMapping_def mapping_ok_def split: if_splits)

lemma validateChannelMapping_ok: "validateChannelMapping f s c mp = Inr m \<Longrightarrow> mapping_ok m"
  by (auto simp: validateChannelMapping_def validateChannelMappingFamily_def validateChannelMappingLayout_def mapping_ok_def
      unat_of_nat take_bit_nat_eq_self split: option.splits if_splits)

definition header_of_track :: "oggTrack \<Rightarrow> OggHeader" where
  "header_of_track t = (let m = trk_channelMapping t in
     \<lparr>ChannelMap = cm_family m, Channels = cm_channelCount m, OutputGain = 0, PreSkip = trk_preSkip t,
      SampleRate = trk_sampleRate t, Version = 1,
      StreamCount = (if cm_family m = 0 then 0 else cm_streamCount m),
      CoupledCount = (if cm_family m = 0 then 0 else cm_coupledCount m),
      ChannelMapping = (if cm_family m = 0 then [] else cm_mapping m)\<rparr>)"

lemma str8: "length (str ''OpusHead'') = 8" "length (str ''OpusTags'') = 8" "str ''OpusHead'' \<noteq> str ''OpusTags''"
  by (simp_all add: str_def)

lemma ParseOpusHead_buildIDHeader:
  assumes "mapping_ok (trk_channelMapping t)"
  shows "ParseOpusHead (buildIDHeader t) = Inr (header_of_track t)"
proof -
  define m where "m = trk_channelMapping t"
  define ext where "ext = (if cm_family m \<noteq> 0
     then [cm_streamCount m, cm_coupledCount m] @ take (unat (cm_channelCount m)) (cm_mapping m @ replicate (unat (cm_channelCount m)) 0) else [])"
  define b where "b = buildIDHeader t"
  have b: "b = str ''OpusHead'' @ [1, cm_channelCount m] @ le16 (trk_preSkip t) @ le32 (trk_sampleRate t) @ le16 0 @ [cm_family m] @ ext"
    by (simp add: b_def buildIDHeader_def m_def ext_def idPageSignature_def Let_def)
  obtain s0 s1 s2 s3 s4 s5 s6 s7 where s: "str ''OpusHead'' = [s0, s1, s2, s3, s4, s5, s6, s7]"
    using str8(1) by (auto simp: numeral_eq_Suc length_Suc_conv)
  have len: "length b = 19 + length ext" by (simp add: b s)
  have f: "take 8 b = str ''OpusHead''" "b ! 8 = 1" "b ! 9 = cm_channelCount m" "slice 10 12 b = le16 (trk_preSkip t)"
    "slice 12 16 b = le32 (trk_sampleRate t)" "slice 16 18 b = le16 0" "b ! 18 = cm_family m" "drop 19 b = ext"
    by (simp_all add: b s slice_def nth_append le16_def le32_def)
  have g: "get_le16 (le16 x) = x" "get_le32 (le32 y) = y" for x y
    using get_le16_le16[of x "[]"] get_le32_le32[of y "[]"] by simp_all
  have basic: "parseBasicHeaderFields b = \<lparr>ChannelMap = cm_family m, Channels = cm_channelCount m, OutputGain = 0, PreSkip = trk_preSkip t,
      SampleRate = trk_sampleRate t, Version = 1, StreamCount = 0, CoupledCount = 0, ChannelMapping = []\<rparr>"
    unfolding parseBasicHeaderFields_def f g by simp
  have sig: "opusPayloadSignature b = (HeaderOpusID, True)"
    unfolding opusPayloadSignature_def f Let_def using len by (simp add: HeaderOpusID_def)
  have "parseChannelMapping (parseBasicHeaderFields b) b = (None, header_of_track t)"
  proof (cases "cm_family m = 0")
    case True
    then show ?thesis unfolding basic parseChannelMapping_def validatePayloadLength_def using len
      by (simp add: ext_def idPageBasePayloadLength_def header_of_track_def m_def Let_def)
  next
    case False
    then have fam: "cm_family m = 1 \<or> cm_family m = 2 \<or> cm_family m = 255" and l: "length (cm_mapping m) = unat (cm_channelCount m)"
      using assms by (auto simp: mapping_ok_def m_def)
    have ext: "ext = cm_streamCount m # cm_coupledCount m # cm_mapping m" using False l by (simp add: ext_def)
    have e: "b ! 19 = cm_streamCount m" "b ! 20 = cm_coupledCount m" "slice 21 (21 + unat (cm_channelCount m)) b = cm_mapping m"
      using l unfolding b s ext by (simp_all add: nth_append le16_def le32_def slice_def)
    show ?thesis unfolding basic parseChannelMapping_def parseExtendedChannelMapping_def validatePayloadLength_def Let_def OggHeader.simps e
      using False fam len ext l by (auto simp: header_of_track_def m_def Let_def)
  qed
  then show ?thesis unfolding ParseOpusHead_def b_def[symmetric] sig using len by (simp add: idPageBasePayloadLength_def)
qed

section \<open>The comment header\<close>

lemma validateUserComments_iff: "validateUserComments cs = None \<longleftrightarrow> (\<forall>c \<in> set cs. validateUserComment c = None)"
  by (induction cs) (auto split: option.split)

definition comment_ok :: "UserComment \<Rightarrow> bool" where
  "comment_ok c \<longleftrightarrow> 61 \<notin> set (Comment c) \<and> length (Comment c) + 1 + length (Value c) < 2 ^ 32"

definition tags_ok :: "OpusTags \<Rightarrow> bool" where
  "tags_ok t \<longleftrightarrow> length (Vendor t) < 2 ^ 32 \<and> length (UserComments t) < 2 ^ 32 \<and> (\<forall>c \<in> set (UserComments t). comment_ok c)"

lemma validateOpusTags_ok:
  assumes "validateOpusTags t = None"
  shows "tags_ok t"
proof -
  have "validateUserComment c = None \<Longrightarrow> comment_ok c" for c
    by (auto simp: validateUserComment_def comment_ok_def isValidCommentName_def maxUint32Length_def list_all_iff split: if_splits option.splits)
  then show ?thesis using assms
    by (auto simp: validateOpusTags_def validateOpusTagsWithMaxHeaderLen_def validateOpusTagString_def tags_ok_def maxUint32Length_def
        validateUserComments_iff split: if_splits option.splits)
qed

lemma SplitN2_comment: "61 \<notin> set k \<Longrightarrow> SplitN2 (k @ [61] @ v) = [k, v]"
proof -
  assume "61 \<notin> set k"
  then have "takeWhile (\<lambda>b. b \<noteq> 61) (k @ [61] @ v) = k" by (subst takeWhile_append2) auto
  then show ?thesis by (simp add: SplitN2_def Let_def)
qed

lemma unat_u32_id: "n < 2 ^ 32 \<Longrightarrow> unat (of_nat n :: u32) = n"
  by (simp add: unat_of_nat take_bit_nat_eq_self)

lemma parseSingleUserComment_bytes:
  assumes "length pre = off" "comment_ok c"
  shows "parseSingleUserComment (pre @ comment_bytes c @ r) off 4 = Inr (c, off + length (comment_bytes c))"
proof -
  define n where "n = length (Comment c) + 1 + length (Value c)"
  define d where "d = pre @ comment_bytes c @ r"
  have u: "unat (of_nat n :: u32) = n" using assms(2) by (intro unat_u32_id) (simp add: n_def comment_ok_def)
  have cb: "comment_bytes c = le32 (of_nat n) @ Comment c @ [61] @ Value c" by (simp add: comment_bytes_def n_def)
  have l: "length d = off + 4 + n + length r" using assms(1) by (simp add: d_def cb n_def)
  have s1: "slice off (off + 4) d = le32 (of_nat n)" using assms(1) by (simp add: d_def cb slice_def)
  have s2: "slice (off + 4) (off + 4 + n) d = Comment c @ [61] @ Value c" using assms(1) by (simp add: d_def cb slice_def n_def)
  have g: "get_le32 (le32 x) = x" for x using get_le32_le32[of x "[]"] by simp
  have sp: "SplitN2 (Comment c @ [61] @ Value c) = [Comment c, Value c]" using assms(2) by (intro SplitN2_comment) (simp add: comment_ok_def)
  show ?thesis unfolding d_def[symmetric] parseSingleUserComment_def s1 g u Let_def s2 sp using l
    by (simp add: cb n_def)
qed

lemma parseUserComments_loop_bytes:
  assumes "length pre = off" "\<forall>c \<in> set cs. comment_ok c"
  shows "parseUserComments_loop (pre @ concat (map comment_bytes cs)) 4 (length cs) off = Inr cs"
  using assms
proof (induction cs arbitrary: pre off)
  case (Cons c cs)
  have "parseUserComments_loop ((pre @ comment_bytes c) @ concat (map comment_bytes cs)) 4 (length cs) (off + length (comment_bytes c)) = Inr cs"
    using Cons.prems by (intro Cons.IH) auto
  then show ?case using parseSingleUserComment_bytes[OF Cons.prems(1), of c] Cons.prems(2) by simp
qed simp

lemma ParseOpusTags_buildCommentHeader:
  assumes "tags_ok t"
  shows "ParseOpusTags (buildCommentHeader t) = Inr t"
proof -
  define v where "v = Vendor t"
  define cs where "cs = UserComments t"
  define pre where "pre = str ''OpusTags'' @ le32 (of_nat (length v)) @ v"
  define d where "d = pre @ le32 (of_nat (length cs)) @ concat (map comment_bytes cs)"
  have h: "buildCommentHeader t = d" by (simp add: buildCommentHeader_def d_def pre_def v_def cs_def commentPageSignature_def)
  have lp: "length pre = 12 + length v" using str8(2) by (simp add: pre_def)
  have u: "unat (of_nat (length v) :: u32) = length v" "unat (of_nat (length cs) :: u32) = length cs"
    using assms by (simp_all add: tags_ok_def v_def cs_def unat_u32_id)
  have long: "4 * length cs \<le> length (concat (map comment_bytes cs))"
    by (induction cs) (auto simp: comment_bytes_def)
  have l: "length d = 16 + length v + length (concat (map comment_bytes cs))" by (simp add: d_def lp)
  have f: "take 8 d = str ''OpusTags''" "slice 8 12 d = le32 (of_nat (length v))" "slice 12 (12 + length v) d = v"
    "slice (12 + length v) (12 + length v + 4) d = le32 (of_nat (length cs))"
    using str8(2) lp by (simp_all add: d_def pre_def slice_def)
  have g: "get_le32 (le32 x) = x" for x using get_le32_le32[of x "[]"] by simp
  have 1: "validateOpusTagsHeader d 16 = None" using l f(1) by (simp add: validateOpusTagsHeader_def HeaderOpusTags_def)
  have 2: "parseVendorString d 8 4 16 = Inr (v, 12 + length v)"
  proof -
    have e: "(8 :: nat) + 4 = 12" by simp
    show ?thesis unfolding parseVendorString_def e f(2) g u Let_def f(3) using l by simp
  qed
  have 3: "parseUserComments d (12 + length v) 4 = Inr cs"
  proof -
    have "parseUserComments_loop d 4 (length cs) (12 + length v + 4) = Inr cs"
      using parseUserComments_loop_bytes[of "pre @ le32 (of_nat (length cs))" "12 + length v + 4" cs] assms lp
      by (simp add: d_def tags_ok_def cs_def)
    moreover have "\<not> length cs > (length d - (12 + length v)) div 4"
    proof -
      have "length cs = (4 * length cs) div 4" by simp
      also have "\<dots> \<le> (length d - (12 + length v)) div 4" by (rule div_le_mono) (use long l in simp)
      finally show ?thesis by simp
    qed
    ultimately show ?thesis unfolding parseUserComments_def f(4) g u Let_def by simp
  qed
  show ?thesis unfolding h ParseOpusTags_def Let_def using 1 2 3 by (simp add: v_def cs_def)
qed

section \<open>Pages on an output\<close>

text \<open>An output that took \<open>x\<close> at its end and is otherwise as before.\<close>

definition grown :: "sink \<Rightarrow> bytes \<Rightarrow> sink \<Rightarrow> bool" where
  "grown d x d' \<longleftrightarrow> healthy d' \<and> content d' = content d @ x \<and> can_seek d' = can_seek d \<and> can_close d' = can_close d"

lemma grown_trans: "grown a x b \<Longrightarrow> grown b y c \<Longrightarrow> grown a (x @ y) c"
  by (simp add: grown_def)

abbreviation oggw_Write :: "bytes \<Rightarrow> sink \<Rightarrow> oggw_error option \<times> sink" where
  "oggw_Write \<equiv> Write"

lemma Write_grown: "healthy d \<Longrightarrow> \<exists>d'. oggw_Write x d = (None, d') \<and> grown d x d'"
  using healthy_after_Write[of d x] by (simp add: Write_healthy grown_def)

definition remember :: "bool \<Rightarrow> nat \<Rightarrow> ogg_page list \<Rightarrow> oggTrack \<Rightarrow> oggTrack" where
  "remember rw off ps t = (if rw \<and> ps \<noteq> [] then
     t\<lparr>lastPageOffset := off + length (concat (map page_bytes (butlast ps))), lastPayload := p_payload (last ps),
       lastGranulePosition := p_granule (last ps), lastPageIndex := p_index (last ps),
       lastPageHeaderType := p_type (last ps), lastPageWritten := True\<rparr> else t)"

lemma remember_fields [simp]:
  "trk_serial (remember rw off ps t) = trk_serial t" "trk_pageIndex (remember rw off ps t) = trk_pageIndex t"
  "previousGranulePosition (remember rw off ps t) = previousGranulePosition t" "trk_opusTags (remember rw off ps t) = trk_opusTags t"
  "trk_channelMapping (remember rw off ps t) = trk_channelMapping t" "trk_preSkip (remember rw off ps t) = trk_preSkip t"
  "trk_sampleRate (remember rw off ps t) = trk_sampleRate t"
  by (simp_all add: remember_def)

lemma write_pages_healthy:
  assumes "healthy d"
  shows "\<exists>d'. write_pages rw (map written_page ps) off t d = (None, remember rw off ps t, d') \<and> grown d (concat (map page_bytes ps)) d'"
  using assms
proof (induction ps arbitrary: off t d)
  case Nil
  then show ?case by (simp add: remember_def grown_def)
next
  case (Cons p ps)
  obtain d1 where d1: "oggw_Write (page_bytes p) d = (None, d1)" "grown d (page_bytes p) d1" using Write_grown[OF Cons.prems] by blast
  define t1 where "t1 = (if rw \<and> ps = [] then remember rw off [p] t else t)"
  obtain d2 where d2: "write_pages rw (map written_page ps) (off + length (page_bytes p)) t1 d1 = (None, remember rw (off + length (page_bytes p)) ps t1, d2)"
    "grown d1 (concat (map page_bytes ps)) d2" using Cons.IH[of d1] d1(2) by (auto simp: grown_def)
  have "remember rw (off + length (page_bytes p)) ps t1 = remember rw off (p # ps) t"
    by (cases "ps = []") (auto simp: remember_def t1_def)
  moreover have "write_pages rw (map written_page (p # ps)) off t d = write_pages rw (map written_page ps) (off + length (page_bytes p)) t1 d1"
    using d1(1) by (simp add: written_page_def t1_def remember_def)
  ultimately show ?case using d2 grown_trans[OF d1(2) d2(2)] by auto
qed

definition put_pages :: "bool \<Rightarrow> nat \<Rightarrow> ogg_page list \<Rightarrow> oggTrack \<Rightarrow> oggTrack" where
  "put_pages rw off ps t = (remember rw off ps t)\<lparr>trk_pageIndex := trk_pageIndex t + of_nat (length ps)\<rparr>"

lemma writePage_healthy:
  assumes "healthy d"
  shows "\<exists>d'. writePage rw generateChecksumTable payload ht gp t d = (None,
      put_pages rw (if rw then length (content d) else 0) (packet_pages payload ht gp (trk_serial t) (trk_pageIndex t) True) t, d') \<and>
    grown d (concat (map page_bytes (packet_pages payload ht gp (trk_serial t) (trk_pageIndex t) True))) d'"
proof -
  let ?ps = "packet_pages payload ht gp (trk_serial t) (trk_pageIndex t) True"
  define d0 where "d0 = (if rw then d\<lparr>plan := tl (plan d)\<rparr> else d)"
  have d0: "healthy d0" "content d0 = content d" "can_seek d0 = can_seek d" "can_close d0 = can_close d"
    using assms healthy_plan_tl[OF assms] by (simp_all add: d0_def healthy_def)
  have sk: "(if rw then SeekCurrent d else (Inr 0, d)) = (Inr (if rw then length (content d) else 0) :: oggw_error + nat, d0)"
    using assms by (simp add: SeekCurrent_def d0_def)
  obtain d' where "write_pages rw (map written_page ?ps) (if rw then length (content d) else 0) t d0 =
      (None, remember rw (if rw then length (content d) else 0) ?ps t, d')" "grown d0 (concat (map page_bytes ?ps)) d'"
    using write_pages_healthy[OF d0(1)] by blast
  then show ?thesis using d0 unfolding writePage_def Let_def createPagesForSerial_eq sk
    by (auto simp: put_pages_def grown_def)
qed

section \<open>End of stream\<close>

definition eos :: "ogg_page \<Rightarrow> ogg_page" where
  "eos p = p\<lparr>p_type := p_type p OR pageHeaderTypeEndOfStream\<rparr>"

text \<open>A page that ends a packet is laced the way a packet of its own would be.\<close>

definition final_page :: "ogg_page \<Rightarrow> bool" where
  "final_page p \<longleftrightarrow> length (p_payload p) < 65025 \<and>
     p_segments p = replicate (length (p_payload p) div 255) 255 @ [of_nat (length (p_payload p) mod 255)]"

lemma packet_pages_final: "final_page (last (packet_pages d ht gp serial idx first))"
proof (induction d ht gp serial idx first rule: packet_pages.induct)
  case (1 d ht gp serial idx first)
  then show ?case by (subst packet_pages.simps) (auto simp: final_page_def packet_pages_nonempty)
qed

lemma final_page_single:
  assumes "final_page p"
  shows "packet_pages (p_payload p) (p_type p OR pageHeaderTypeEndOfStream) (p_granule p) (p_serial p) (p_index p) True = [eos p]"
  using assms by (subst packet_pages.simps) (simp add: final_page_def eos_def packetPageHeaderType_def)

text \<open>What a track remembers is the page \<open>p\<close>, which lies at \<open>pre\<close> bytes from the start.\<close>

definition remembers :: "oggTrack \<Rightarrow> ogg_page \<Rightarrow> nat \<Rightarrow> bool" where
  "remembers t p off \<longleftrightarrow> lastPageWritten t \<and> lastPageOffset t = off \<and> lastPayload t = p_payload p \<and> lastGranulePosition t = p_granule p \<and>
     lastPageIndex t = p_index p \<and> lastPageHeaderType t = p_type p \<and> trk_serial t = p_serial p \<and> final_page p"

lemma markTrackEndOfStream_healthy:
  assumes "remembers t p (length pre)" "content d = pre @ page_bytes p @ post" "healthy d"
  shows "\<exists>d'. markTrackEndOfStream generateChecksumTable t d = (None, d') \<and> healthy d' \<and>
    content d' = pre @ page_bytes (eos p) @ post \<and> can_seek d' = can_seek d \<and> can_close d' = can_close d"
proof -
  have "createPageForSerial generateChecksumTable (lastPayload t) (lastPageHeaderType t OR pageHeaderTypeEndOfStream) (lastGranulePosition t)
      (trk_serial t) (lastPageIndex t) = page_bytes (eos p)"
    using assms(1) final_page_single[of p] by (simp add: remembers_def createPageForSerial_def createPagesForSerial_eq written_page_def)
  moreover have len: "length (page_bytes (eos p)) = length (page_bytes p)" by (simp add: length_page_bytes eos_def)
  moreover have "overwrite (content d) (length pre) (page_bytes (eos p)) = pre @ page_bytes (eos p) @ post"
    unfolding assms(2) by (rule overwrite_middle[OF len])
  ultimately show ?thesis using assms healthy_plan_tl[OF assms(3)]
    by (simp add: markTrackEndOfStream_def remembers_def WriteAt_def healthy_def)
qed

section \<open>One logical stream\<close>

text \<open>A track whose pages so far are \<open>ps\<close>, alone on its output.\<close>

definition track_inv :: "bool \<Rightarrow> u32 \<Rightarrow> ogg_page list \<Rightarrow> oggTrack \<Rightarrow> sink \<Rightarrow> bool" where
  "track_inv rw serial ps t d \<longleftrightarrow> healthy d \<and> content d = concat (map page_bytes ps) \<and> trk_serial t = serial \<and>
     trk_pageIndex t = of_nat (length ps) \<and> list_all page_ok ps \<and>
     (rw \<and> ps \<noteq> [] \<longrightarrow> remembers t (last ps) (length (concat (map page_bytes (butlast ps)))))"

definition same_format_track :: "oggTrack \<Rightarrow> oggTrack \<Rightarrow> bool" where
  "same_format_track t t' \<longleftrightarrow> previousGranulePosition t' = previousGranulePosition t \<and> trk_opusTags t' = trk_opusTags t"

lemma put_pages_remembers:
  assumes "ps \<noteq> []" "final_page (last ps)" "p_serial (last ps) = trk_serial t"
  shows "remembers (put_pages True off ps t) (last ps) (off + length (concat (map page_bytes (butlast ps))))"
  using assms by (simp add: remembers_def put_pages_def remember_def)

lemma packet_pages_last:
  "p_serial (last (packet_pages d ht gp serial idx first)) = serial" "list_all page_ok (packet_pages d ht gp serial idx first)"
  using packet_pages_ok[of _ d ht gp serial idx first] packet_pages_nonempty[of d ht gp serial idx first]
  by (simp_all add: list_all_iff)

lemma writePage_inv:
  fixes payload :: bytes and ht :: u8 and gp :: u64
  assumes "track_inv rw serial ps t d"
  defines "pgs \<equiv> packet_pages payload ht gp serial (of_nat (length ps)) True"
  shows "\<exists>t' d'. writePage rw generateChecksumTable payload ht gp t d = (None, t', d') \<and> track_inv rw serial (ps @ pgs) t' d' \<and>
    same_format_track t t' \<and> can_seek d' = can_seek d \<and> can_close d' = can_close d"
proof -
  have inv: "healthy d" "content d = concat (map page_bytes ps)" "trk_serial t = serial" "trk_pageIndex t = of_nat (length ps)"
    "list_all page_ok ps" using assms(1) by (simp_all add: track_inv_def)
  let ?off = "if rw then length (content d) else 0"
  obtain d' where w: "writePage rw generateChecksumTable payload ht gp t d = (None, put_pages rw ?off pgs t, d')"
    "grown d (concat (map page_bytes pgs)) d'"
    using writePage_healthy[OF inv(1), of rw payload ht gp t] inv(3,4) by (auto simp: pgs_def)
  have ne: "pgs \<noteq> []" by (simp add: pgs_def packet_pages_nonempty)
  have "rw \<Longrightarrow> remembers (put_pages rw ?off pgs t) (last (ps @ pgs)) (length (concat (map page_bytes (butlast (ps @ pgs)))))"
    using put_pages_remembers[OF ne, of t "length (content d)"] packet_pages_final packet_pages_last(1) inv(2,3) ne
    by (simp add: pgs_def butlast_append)
  then have "track_inv rw serial (ps @ pgs) (put_pages rw ?off pgs t) d'"
    using w(2) inv packet_pages_last(2) by (simp add: track_inv_def grown_def put_pages_def pgs_def)
  moreover have "same_format_track t (put_pages rw ?off pgs t)" by (simp add: same_format_track_def put_pages_def)
  ultimately show ?thesis using w by (auto simp: grown_def)
qed

text \<open>The packets of a track, each with its flags and its granule position, and their pages.\<close>

fun stream_pages :: "u32 \<Rightarrow> ogg_page list \<Rightarrow> (bytes \<times> u8 \<times> u64) list \<Rightarrow> ogg_page list" where
  "stream_pages serial ps [] = ps"
| "stream_pages serial ps ((payload, ht, gp) # xs) =
     stream_pages serial (ps @ packet_pages payload ht gp serial (of_nat (length ps)) True) xs"

lemma stream_pages_append: "stream_pages serial ps (xs @ ys) = stream_pages serial (stream_pages serial ps xs) ys"
  by (induction serial ps xs rule: stream_pages.induct) simp_all

definition samples :: "bytes \<Rightarrow> u64" where
  "samples p = (case opusPacketSampleCount p of Inl _ \<Rightarrow> 0 | Inr n \<Rightarrow> n)"

fun audio_packets :: "u64 \<Rightarrow> bytes list \<Rightarrow> (bytes \<times> u8 \<times> u64) list" where
  "audio_packets g [] = []"
| "audio_packets g (p # ps) = (p, pageHeaderTypeContinuationOfStream, g + samples p) # audio_packets (g + samples p) ps"

definition header_packets :: "oggTrack \<Rightarrow> (bytes \<times> u8 \<times> u64) list" where
  "header_packets t = [(buildIDHeader t, pageHeaderTypeBeginningOfStream, 0),
     (buildCommentHeader (trk_opusTags t), pageHeaderTypeContinuationOfStream, 0)]"

text \<open>The payloads that the RTP packets carry, if all of them are valid Opus packets.\<close>

fun opus_payloads :: "(bytes \<Rightarrow> nat + bytes) \<Rightarrow> opus_rtp list \<Rightarrow> bytes list option" where
  "opus_payloads opus [] = Some []"
| "opus_payloads opus (p # ps) =
     (if rtp_Payload p = [] then opus_payloads opus ps
      else (case opus (rtp_Payload p) of
          Inl _ \<Rightarrow> None
        | Inr x \<Rightarrow> (case opusPacketSampleCount x of
            Inl _ \<Rightarrow> None
          | Inr _ \<Rightarrow> (case opus_payloads opus ps of None \<Rightarrow> None | Some xs \<Rightarrow> Some (x # xs)))))"

fun run_ogg :: "(bytes \<Rightarrow> nat + bytes) \<Rightarrow> opus_rtp list \<Rightarrow> OggWriter \<Rightarrow> oggw_error option \<times> OggWriter" where
  "run_ogg opus [] w = (None, w)"
| "run_ogg opus (p # ps) w = (case oggw_WriteRTP opus (Some p) w of
     (Some e, w1) \<Rightarrow> (Some e, w1) | (None, w1) \<Rightarrow> run_ogg opus ps w1)"

definition ogg_inv :: "u32 \<Rightarrow> ogg_page list \<Rightarrow> OggWriter \<Rightarrow> bool" where
  "ogg_inv serial ps w \<longleftrightarrow> ow_open w \<and> ow_table w = generateChecksumTable \<and> track_inv (ow_fd w) serial ps (ow_track w) (ow_out w)"

lemma track_inv_granule: "track_inv rw serial ps (t\<lparr>previousGranulePosition := g\<rparr>) d = track_inv rw serial ps t d"
  by (simp add: track_inv_def remembers_def)

lemma run_ogg_inv:
  assumes "ogg_inv serial ps w" "opus_payloads opus pkts = Some xs"
  shows "\<exists>w'. run_ogg opus pkts w = (None, w') \<and>
    ogg_inv serial (stream_pages serial ps (audio_packets (previousGranulePosition (ow_track w)) xs)) w' \<and> ow_fd w' = ow_fd w \<and>
    can_close (ow_out w') = can_close (ow_out w)"
  using assms
proof (induction pkts arbitrary: ps w xs)
  case Nil
  then show ?case by simp
next
  case (Cons p pkts)
  show ?case
  proof (cases "rtp_Payload p = []")
    case True
    then have "oggw_WriteRTP opus (Some p) w = (None, w)"
      using Cons.prems(1) by (simp add: oggw_WriteRTP_def writeRTP_def opusPayloadFromPacket_def ogg_inv_def)
    then show ?thesis using Cons True by simp
  next
    case False
    obtain x n ys where x: "opus (rtp_Payload p) = Inr x" "opusPacketSampleCount x = Inr n" "opus_payloads opus pkts = Some ys" "xs = x # ys"
      using Cons.prems(2) False by (auto split: sum.splits option.splits)
    define g where "g = previousGranulePosition (ow_track w) + n"
    define t0 where "t0 = (ow_track w)\<lparr>previousGranulePosition := g\<rparr>"
    have inv: "track_inv (ow_fd w) serial ps t0 (ow_out w)" "ow_open w" "ow_table w = generateChecksumTable"
      using Cons.prems(1) by (simp_all add: ogg_inv_def t0_def track_inv_granule)
    let ?pgs = "packet_pages x pageHeaderTypeContinuationOfStream g serial (of_nat (length ps)) True"
    obtain t' d' where w: "writePage (ow_fd w) generateChecksumTable x pageHeaderTypeContinuationOfStream g t0 (ow_out w) = (None, t', d')"
      "track_inv (ow_fd w) serial (ps @ ?pgs) t' d'" "same_format_track t0 t'" "can_close d' = can_close (ow_out w)"
      using writePage_inv[OF inv(1)] by blast
    define w1 where "w1 = w\<lparr>ow_track := t', ow_out := d'\<rparr>"
    have 1: "oggw_WriteRTP opus (Some p) w = (None, w1)"
      using False x inv w(1) by (simp add: oggw_WriteRTP_def writeRTP_def opusPayloadFromPacket_def writeOpusPayload_def Let_def t0_def g_def w1_def)
    have "ogg_inv serial (ps @ ?pgs) w1" using w(2) inv by (simp add: ogg_inv_def w1_def)
    from Cons.IH[OF this x(3)] obtain w' where w': "run_ogg opus pkts w1 = (None, w')"
      "ogg_inv serial (stream_pages serial (ps @ ?pgs) (audio_packets (previousGranulePosition (ow_track w1)) ys)) w'" "ow_fd w' = ow_fd w1"
      "can_close (ow_out w') = can_close (ow_out w1)" by blast
    have g1: "previousGranulePosition (ow_track w1) = g" "samples x = n" using w(3) x(2) by (simp_all add: w1_def same_format_track_def t0_def samples_def)
    show ?thesis using 1 w' w(4) g1 unfolding x(4) by (simp add: g_def w1_def)
  qed
qed

lemma oggw_newWith_inv:
  fixes config :: trackConfig and rnd :: u32
  assumes "healthy d" "content d = []"
  defines "serial \<equiv> if tc_serialSet config then tc_serial config else rnd"
  defines "t0 \<equiv> newTrackState (tc_sampleRate config) (tc_channelMapping config) serial (tc_opusTags config)"
  shows "\<exists>w. oggw_newWith rnd (Some d) fd config = Inr w \<and> ogg_inv serial (stream_pages serial [] (header_packets t0)) w \<and>
    ow_fd w = fd \<and> previousGranulePosition (ow_track w) = 0 \<and> can_close (ow_out w) = can_close d"
proof -
  have 0: "track_inv fd serial [] t0 d" using assms(1,2) by (simp add: track_inv_def t0_def newTrackState_def)
  let ?p1 = "packet_pages (buildIDHeader t0) pageHeaderTypeBeginningOfStream 0 serial 0 True"
  obtain t1 d1 where 1: "writePage fd generateChecksumTable (buildIDHeader t0) pageHeaderTypeBeginningOfStream 0 t0 d = (None, t1, d1)"
    "track_inv fd serial (?p1) t1 d1" "same_format_track t0 t1" "can_close d1 = can_close d"
    using writePage_inv[OF 0, of "buildIDHeader t0" pageHeaderTypeBeginningOfStream 0] by auto
  let ?p2 = "packet_pages (buildCommentHeader (trk_opusTags t1)) pageHeaderTypeContinuationOfStream 0 serial (of_nat (length (?p1))) True"
  obtain t2 d2 where 2: "writePage fd generateChecksumTable (buildCommentHeader (trk_opusTags t1)) pageHeaderTypeContinuationOfStream 0 t1 d1 = (None, t2, d2)"
    "track_inv fd serial ((?p1) @ ?p2) t2 d2" "same_format_track t1 t2" "can_close d2 = can_close d1"
    using writePage_inv[OF 1(2)] by blast
  have "trk_opusTags t1 = trk_opusTags t0" "previousGranulePosition t2 = 0"
    using 1(3) 2(3) by (simp_all add: same_format_track_def t0_def newTrackState_def)
  then show ?thesis using 1 2
    by (simp add: oggw_newWith_def Let_def serial_def[symmetric] t0_def[symmetric] writeTrackHeaders_def writeTrackIDHeader_def
        writeTrackCommentHeader_def ogg_inv_def header_packets_def)
qed

definition closing_pages :: "bool \<Rightarrow> ogg_page list \<Rightarrow> ogg_page list" where
  "closing_pages fd ps = (if fd then butlast ps @ [eos (last ps)] else ps)"

abbreviation oggw_CloseSink :: "sink \<Rightarrow> oggw_error option \<times> sink" where
  "oggw_CloseSink \<equiv> Close"

lemma oggw_Close_inv:
  assumes "ogg_inv serial ps w" "ps \<noteq> []"
  shows "\<exists>w'. oggw_Close w = (None, w') \<and> \<not> ow_open w' \<and> content (ow_out w') = concat (map page_bytes (closing_pages (ow_fd w) ps)) \<and>
    (ow_fd w \<or> can_close (ow_out w) \<longrightarrow> closed (ow_out w'))"
proof -
  have inv: "healthy (ow_out w)" "content (ow_out w) = concat (map page_bytes ps)" "ow_open w" "ow_table w = generateChecksumTable"
    "ow_fd w \<Longrightarrow> remembers (ow_track w) (last ps) (length (concat (map page_bytes (butlast ps))))"
    using assms by (simp_all add: ogg_inv_def track_inv_def)
  have cl: "oggw_CloseSink d = (None, d\<lparr>closed := True, plan := tl (plan d)\<rparr>)" if "healthy d" for d
    using that by (simp add: Close_def)
  show ?thesis
  proof (cases "ow_fd w")
    case False
    then show ?thesis using inv cl[OF inv(1)] by (auto simp: oggw_Close_def Let_def closing_pages_def)
  next
    case True
    have split: "ps = butlast ps @ [last ps]" using assms(2) by simp
    have c: "content (ow_out w) = concat (map page_bytes (butlast ps)) @ page_bytes (last ps) @ []"
      unfolding inv(2) by (subst split) (simp only: map_append concat_append list.map concat.simps append_Nil2)
    obtain d' where d': "markTrackEndOfStream generateChecksumTable (ow_track w) (ow_out w) = (None, d')" "healthy d'"
      "content d' = concat (map page_bytes (butlast ps)) @ page_bytes (eos (last ps)) @ []"
      using markTrackEndOfStream_healthy[OF inv(5)[OF True] c inv(1)] by blast
    then show ?thesis using True inv cl[OF d'(2)]
      by (auto simp: oggw_Close_def Let_def closing_pages_def errors_Join_def)
  qed
qed

section \<open>Putting packets together again\<close>

text \<open>
  A receiver that joins a page with the continuation flag to the packet before it; a page without
  lacing values carries no part of a packet.
\<close>

definition join_page :: "bytes list \<Rightarrow> bytes \<times> OggPageHeader \<Rightarrow> bytes list" where
  "join_page acc pg = (if segmentsCount (snd pg) = 0 then acc
     else if bit (page_headerType (snd pg)) 0 \<and> acc \<noteq> [] then butlast acc @ [last acc @ fst pg] else acc @ [fst pg])"

definition reassemble :: "(bytes \<times> OggPageHeader) list \<Rightarrow> bytes list" where
  "reassemble pgs = foldl join_page [] pgs"

lemma flag_bits: "\<not> bit pageHeaderTypeEndOfStream 0" "bit pageHeaderTypeContinuationOfPacket 0"
  by (simp_all add: pageHeaderTypeEndOfStream_def pageHeaderTypeContinuationOfPacket_def bit_0)

lemma type_flag:
  "bit (packetPageHeaderType ht True c) 0 = bit ht 0" "bit (packetPageHeaderType ht False c) 0"
  by (auto simp: packetPageHeaderType_def flag_bits bit_or_iff bit_and_iff bit_not_iff)

lemma lacing_count: "length d < 65025 \<Longrightarrow> 1 + (of_nat (length d div 255) :: byte) \<noteq> 0"
proof -
  assume "length d < 65025"
  then have "Suc (length d div 255) < 256" by (simp add: div_less_iff_less_mult less_Suc_eq_le)
  then have "unat (of_nat (Suc (length d div 255)) :: byte) = Suc (length d div 255)" by (simp add: unat_of_nat take_bit_nat_eq_self del: of_nat_Suc)
  then show ?thesis by (metis Zero_not_Suc of_nat_Suc unsigned_0)
qed

lemma join_continued:
  "foldl join_page (acc @ [e]) (map page_view (packet_pages d ht gp serial idx False)) = acc @ [e @ d]"
proof (induction d ht gp serial idx "False" arbitrary: e rule: packet_pages.induct)
  case (1 d ht gp serial idx)
  show ?case
  proof (cases "length d < 65025")
    case True
    then show ?thesis by (subst packet_pages.simps) (simp add: join_page_def page_view_def type_flag lacing_count)
  next
    case False
    have "foldl join_page (acc @ [e @ take 65025 d]) (map page_view (packet_pages (drop 65025 d) ht gp serial (idx + 1) False)) = acc @ [e @ d]"
      using "1.hyps"[OF False, of "e @ take 65025 d"] by simp
    then show ?thesis using False by (subst packet_pages.simps) (simp add: join_page_def page_view_def type_flag lacing_count)
  qed
qed

lemma join_packet:
  assumes "\<not> bit ht 0"
  shows "foldl join_page acc (map page_view (packet_pages d ht gp serial idx True)) = acc @ [d]"
proof (cases "length d < 65025")
  case True
  then show ?thesis using assms by (subst packet_pages.simps) (simp add: join_page_def page_view_def type_flag lacing_count)
next
  case False
  then show ?thesis using assms join_continued[of acc "take 65025 d" "drop 65025 d"]
    by (subst packet_pages.simps) (simp add: join_page_def page_view_def type_flag lacing_count)
qed

lemma eos_bit: "bit pageHeaderTypeEndOfStream 2" "\<not> bit pageHeaderTypeContinuationOfPacket 2"
  by (simp_all add: pageHeaderTypeEndOfStream_def pageHeaderTypeContinuationOfPacket_def)

lemma packet_pages_not_eos: "\<not> bit ht 2 \<Longrightarrow> p \<in> set (packet_pages d ht gp serial idx first) \<Longrightarrow> \<not> bit (p_type p) 2"
proof (induction d ht gp serial idx first rule: packet_pages.induct)
  case (1 d ht gp serial idx first)
  have "\<not> bit (packetPageHeaderType ht first c) 2" for c
    using "1.prems"(1) eos_bit by (auto simp: packetPageHeaderType_def bit_or_iff bit_and_iff)
  then show ?case using "1.prems" "1.IH" by (subst (asm) packet_pages.simps) (auto split: if_splits)
qed

text \<open>Packets that start neither with a continuation nor with the end of the stream.\<close>

definition plain_packets :: "(bytes \<times> u8 \<times> u64) list \<Rightarrow> bool" where
  "plain_packets xs \<longleftrightarrow> (\<forall>(d, ht, gp) \<in> set xs. \<not> bit ht 0 \<and> \<not> bit ht 2)"

lemma stream_pages_join:
  assumes "plain_packets xs"
  shows "\<exists>qs. stream_pages serial ps xs = ps @ qs \<and> (\<forall>acc. foldl join_page acc (map page_view qs) = acc @ map fst xs) \<and>
    (\<forall>p \<in> set qs. \<not> bit (p_type p) 2)"
  using assms
proof (induction serial ps xs rule: stream_pages.induct)
  case (2 serial ps payload ht gp xs)
  let ?pgs = "packet_pages payload ht gp serial (of_nat (length ps)) True"
  have ht: "\<not> bit ht 0" "\<not> bit ht 2" "plain_packets xs" using "2.prems" by (auto simp: plain_packets_def)
  obtain qs where qs: "stream_pages serial (ps @ ?pgs) xs = (ps @ ?pgs) @ qs" "\<forall>acc. foldl join_page acc (map page_view qs) = acc @ map fst xs"
    "\<forall>p \<in> set qs. \<not> bit (p_type p) 2" using "2.IH"[OF ht(3)] by blast
  show ?case using qs ht join_packet[OF ht(1)] packet_pages_not_eos[OF ht(2)] by (intro exI[of _ "?pgs @ qs"]) auto
qed simp

lemma audio_plain: "plain_packets (audio_packets g xs)" "map fst (audio_packets g xs) = xs"
  by (induction xs arbitrary: g) (auto simp: pageHeaderTypeContinuationOfStream_def plain_packets_def)

lemma join_eos: "join_page acc (page_view (eos p)) = join_page acc (page_view p)"
  by (simp add: join_page_def page_view_def eos_def flag_bits bit_or_iff)

lemma join_closing: "ps \<noteq> [] \<Longrightarrow> foldl join_page acc (map page_view (closing_pages fd ps)) = foldl join_page acc (map page_view ps)"
proof (cases fd)
  case True
  assume "ps \<noteq> []"
  then have "map page_view ps = map page_view (butlast ps) @ [page_view (last ps)]" by (metis append_butlast_last_id list.simps(8,9) map_append)
  then show ?thesis using True by (simp add: closing_pages_def join_eos)
qed (simp add: closing_pages_def)

section \<open>A whole file\<close>

lemma closing_pages_ok: "ps \<noteq> [] \<Longrightarrow> list_all page_ok ps \<Longrightarrow> list_all page_ok (closing_pages fd ps)"
  by (cases ps rule: rev_cases) (auto simp: closing_pages_def page_ok_def eos_def)

lemma id_page:
  "packet_pages (buildIDHeader t) pageHeaderTypeBeginningOfStream 0 serial 0 True =
     [\<lparr>p_type = pageHeaderTypeBeginningOfStream, p_granule = 0, p_serial = serial, p_index = 0,
       p_segments = replicate (length (buildIDHeader t) div 255) 255 @ [of_nat (length (buildIDHeader t) mod 255)],
       p_payload = buildIDHeader t\<rparr>]"
proof -
  define n where "n = unat (cm_channelCount (trk_channelMapping t))"
  have n: "n < 256" by (simp add: n_def)
  have "length (take n (xs @ replicate n 0)) \<le> n" for xs :: bytes by simp
  then have "length (buildIDHeader t) \<le> 21 + n"
    unfolding buildIDHeader_def Let_def n_def[symmetric] idPageSignature_def str_def by auto
  then have "length (buildIDHeader t) < 65025" using n by simp
  then show ?thesis by (subst packet_pages.simps) (simp add: packetPageHeaderType_def)
qed

lemma opens_first:
  assumes "page_ok p" "p_type p = pageHeaderTypeBeginningOfStream" "ParseOpusHead (p_payload p) = Inr hdr"
  defines "r0 \<equiv> \<lparr>ogg_stream = \<lparr>st_data = [], st_end = None\<rparr>, ogg_bytesRead = 0, checksumTable = generateChecksumTable, doChecksum = True\<rparr>"
  shows "ogg_NewWith (Some \<lparr>st_data = page_bytes p @ rest, st_end = None\<rparr>) = Inr (ogg_at rest (ogg_after p r0), hdr)"
proof -
  define s where "s = \<lparr>ogg_stream = \<lparr>st_data = page_bytes p @ rest, st_end = None\<rparr>, ogg_bytesRead = 0,
     checksumTable = generateChecksumTable, doChecksum = True\<rparr>"
  have "ParseNextPage (ogg_at (page_bytes p @ rest) r0) = (Inr (page_view p), ogg_at rest (ogg_after p r0))"
    by (rule ogg.step_enc) (simp add: assms(1) r0_def)
  moreover have "ogg_at (page_bytes p @ rest) r0 = s" by (simp add: ogg_at_def r0_def s_def)
  ultimately have 1: "ParseNextPage s = (Inr (page_view p), ogg_at rest (ogg_after p r0))" by simp
  have 2: "s\<lparr>doChecksum := True\<rparr> = s" by (simp add: s_def)
  show ?thesis
    using assms(2,3) 1 by (simp add: ogg_NewWith_def newWith_def ogg_NewWithOptions_def WithDoChecksum_def s_def[symmetric]
        readOpusHeader_def page_view_def 2) (simp add: validateOpusPageHeader_def)
qed

lemma opens_pages:
  assumes "list_all page_ok (p # ps)" "p_type p = pageHeaderTypeBeginningOfStream" "ParseOpusHead (p_payload p) = Inr hdr"
  shows "\<exists>r r'. ogg_NewWith (Some \<lparr>st_data = concat (map page_bytes (p # ps)), st_end = None\<rparr>) = Inr (r, hdr) \<and>
    reads ParseNextPage r (map page_view ps) r' \<and> fst (ParseNextPage r') = Inl EOF"
proof -
  define r0 where "r0 = ogg_after p \<lparr>ogg_stream = \<lparr>st_data = [], st_end = None\<rparr>, ogg_bytesRead = 0,
     checksumTable = generateChecksumTable, doChecksum = True\<rparr>"
  have "ogg_NewWith (Some \<lparr>st_data = concat (map page_bytes (p # ps)), st_end = None\<rparr>) = Inr (ogg_at (concat (map page_bytes ps)) r0, hdr)"
    using opens_first[OF _ assms(2,3)] assms(1) by (simp add: r0_def)
  moreover have "list_all (\<lambda>x. page_ok x \<and> checksumTable r0 = generateChecksumTable) ps"
    using assms(1) by (auto simp: list_all_iff ogg_after_def r0_def)
  then have "reads ParseNextPage (ogg_at (concat (map page_bytes ps)) r0) (map page_view ps) (ogg_at [] (fold ogg_after ps r0))"
    using ogg.reads_all[of r0 ps "[]"] by simp
  moreover have "st_end (ogg_stream (fold ogg_after xs q)) = st_end (ogg_stream q)" for xs q
    by (induction xs arbitrary: q) (simp_all add: ogg_after_def)
  then have "fst (ParseNextPage (ogg_at [] (fold ogg_after ps r0))) = Inl EOF"
    by (simp add: ParseNextPage_def ogg_at_def ReadFull_end pageHeaderLen_def end_error_def ogg_after_def r0_def)
  ultimately show ?thesis by blast
qed

lemma newTrackConfig_ok:
  assumes "newTrackConfig rate channels = Inr config"
  shows "mapping_ok (tc_channelMapping config)" "\<not> tc_serialSet config" "tc_sampleRate config = rate" "tc_opusTags config = defaultOpusTags"
    "defaultChannelMapping channels = Inr (tc_channelMapping config)"
  using assms by (auto simp: newTrackConfig_def Let_def defaultChannelMapping_ok split: sum.splits option.splits)

lemma default_tags_valid: "validateOpusTags defaultOpusTags = None"
  by (simp add: validateOpusTags_def validateOpusTagsWithMaxHeaderLen_def validateOpusTagString_def utf8_Valid.simps
      validateOpusTagsHeaderLen_def defaultOpusTags_def defaultVendor_def str_def commentPageSignature_def maxUint32Length_def)

text \<open>
  C5: A recorded Opus stream round-trips through an Ogg file. For one or two channels, any Opus payload format and
  any packets it takes apart into valid Opus packets, of any size: creating the file, writing the packets
  and closing succeed; the reader opens the file with the parameters of the writer, every page passes its
  checksum and the pages end with \<open>io.EOF\<close>; joined at the continuation flags they are the comment header,
  which parses to the tags of the writer, and exactly the packets. A file (\<open>New\<close>) ends with an
  end-of-stream page, a plain output (\<open>NewWith\<close>) has no such mark.
\<close>

theorem ogg_file:
  assumes "healthy d" "content d = []" "defaultChannelMapping channels = Inr m" "opus_payloads opus pkts = Some xs"
    and "newTrackState rate m rnd defaultOpusTags = t0"
  shows "\<exists>w w1 w2 r r' pgs tags. (if isFile then oggw_New rnd (Inr d) rate channels else oggw_NewWith rnd (Some d) rate channels) = Inr w \<and>
    run_ogg opus pkts w = (None, w1) \<and> oggw_Close w1 = (None, w2) \<and>
    ogg_NewWith (Some \<lparr>st_data = content (ow_out w2), st_end = None\<rparr>) = Inr (r, header_of_track t0) \<and>
    reads ParseNextPage r pgs r' \<and> fst (ParseNextPage r') = Inl EOF \<and>
    reassemble pgs = tags # xs \<and> ParseOpusTags tags = Inr defaultOpusTags \<and>
    bit (page_headerType (snd (last pgs))) 2 = isFile"
proof -
  obtain config where c: "newTrackConfig rate channels = Inr config" "tc_channelMapping config = m" "\<not> tc_serialSet config"
      "tc_sampleRate config = rate" "tc_opusTags config = defaultOpusTags"
    using assms(3) that default_tags_valid by (simp add: newTrackConfig_def Let_def)
  have serial: "(if tc_serialSet config then tc_serial config else rnd) = rnd" using c(3) by simp
  define hp where "hp = stream_pages rnd [] (header_packets t0)"
  obtain w where w: "oggw_newWith rnd (Some d) isFile config = Inr w" "ogg_inv rnd hp w" "ow_fd w = isFile"
      "previousGranulePosition (ow_track w) = 0"
    using oggw_newWith_inv[OF assms(1,2), where config = config and rnd = rnd and fd = isFile] unfolding serial hp_def c(2,4,5) assms(5) by blast
  have new: "(if isFile then oggw_New rnd (Inr d) rate channels else oggw_NewWith rnd (Some d) rate channels) = Inr w"
    using w(1) c(1) by (cases isFile) (simp_all add: oggw_New_def oggw_NewWith_def)
  define ps where "ps = stream_pages rnd hp (audio_packets 0 xs)"
  obtain w1 where w1: "run_ogg opus pkts w = (None, w1)" "ogg_inv rnd ps w1" "ow_fd w1 = isFile"
    using run_ogg_inv[OF w(2) assms(4)] w(3,4) unfolding ps_def by auto
  define p0 where "p0 = hd (packet_pages (buildIDHeader t0) pageHeaderTypeBeginningOfStream 0 rnd 0 True)"
  define tp where "tp = packet_pages (buildCommentHeader (trk_opusTags t0)) pageHeaderTypeContinuationOfStream 0 rnd 1 True"
  have hp: "hp = p0 # tp" by (simp add: hp_def header_packets_def id_page p0_def tp_def)
  obtain qs where qs: "ps = p0 # tp @ qs" "\<And>acc. foldl join_page acc (map page_view qs) = acc @ xs" "\<forall>p \<in> set qs. \<not> bit (p_type p) 2"
    using stream_pages_join[OF audio_plain(1), of rnd hp 0 xs] audio_plain(2) by (auto simp: ps_def hp)
  have ne: "tp @ qs \<noteq> []" "ps \<noteq> []" by (simp_all add: qs(1) tp_def packet_pages_nonempty)
  obtain w2 where w2: "oggw_Close w1 = (None, w2)" "content (ow_out w2) = concat (map page_bytes (closing_pages isFile ps))"
    using oggw_Close_inv[OF w1(2) ne(2)] w1(3) by blast
  have cl: "closing_pages isFile ps = p0 # closing_pages isFile (tp @ qs)" using ne(1) by (auto simp: closing_pages_def qs(1))
  have t0: "trk_channelMapping t0 = m" "trk_opusTags t0 = defaultOpusTags" using assms(5) by (auto simp: newTrackState_def)
  have "ParseOpusHead (p_payload p0) = Inr (header_of_track t0)"
    using ParseOpusHead_buildIDHeader[of t0] defaultChannelMapping_ok[OF assms(3)] t0 by (simp add: p0_def id_page)
  moreover have "list_all page_ok (closing_pages isFile ps)"
    using w1(2) ne(2) by (intro closing_pages_ok) (simp_all add: ogg_inv_def track_inv_def)
  moreover have "p_type p0 = pageHeaderTypeBeginningOfStream" by (simp add: p0_def id_page)
  ultimately obtain r r' where r: "ogg_NewWith (Some \<lparr>st_data = content (ow_out w2), st_end = None\<rparr>) = Inr (r, header_of_track t0)"
    "reads ParseNextPage r (map page_view (closing_pages isFile (tp @ qs))) r'" "fst (ParseNextPage r') = Inl EOF"
    using opens_pages[of p0 "closing_pages isFile (tp @ qs)"] unfolding w2(2) cl by blast
  have zero: "\<not> bit pageHeaderTypeContinuationOfStream n" for n by (simp add: pageHeaderTypeContinuationOfStream_def)
  have "foldl join_page [] (map page_view (tp @ qs)) = buildCommentHeader (trk_opusTags t0) # xs"
    using qs(2) join_packet[OF zero] by (simp add: tp_def)
  then have re: "reassemble (map page_view (closing_pages isFile (tp @ qs))) = buildCommentHeader (trk_opusTags t0) # xs"
    using join_closing[OF ne(1)] by (simp add: reassemble_def)
  have "\<not> bit (p_type (last (tp @ qs))) 2"
    using last_in_set[OF ne(1)] qs(3) packet_pages_not_eos[OF zero] by (auto simp: tp_def)
  then have eb: "bit (page_headerType (snd (last (map page_view (closing_pages isFile (tp @ qs)))))) 2 = isFile"
    using ne(1) eos_bit(1) by (auto simp: last_map closing_pages_def page_view_def eos_def bit_or_iff)
  have "tags_ok defaultOpusTags" by (simp add: tags_ok_def defaultOpusTags_def defaultVendor_def str_def)
  then have tg: "ParseOpusTags (buildCommentHeader (trk_opusTags t0)) = Inr defaultOpusTags"
    using ParseOpusTags_buildCommentHeader[of defaultOpusTags] t0(2) by simp
  show ?thesis using new w1(1) w2(1) r re tg eb by blast
qed

definition ogg_witness_file :: sink where
  "ogg_witness_file = \<lparr>content = [], pos = 0, plan = [], can_seek = True, can_close = True, closed = False\<rparr>"

definition witness_opus :: "opus_rtp list" where
  "witness_opus = [\<lparr>rtp_SSRC = 1, rtp_Payload = [0xF8, 0xFF, 0xFE]\<rparr>, \<lparr>rtp_SSRC = 1, rtp_Payload = []\<rparr>, \<lparr>rtp_SSRC = 1, rtp_Payload = [0x03, 0x02, 9]\<rparr>]"

definition stereo :: channelMapping where
  "stereo = \<lparr>cm_family = 0, cm_channelCount = 2, cm_streamCount = 1, cm_coupledCount = 1, cm_mapping = []\<rparr>"

lemma stereo_default: "defaultChannelMapping 2 = Inr stereo"
  by (simp add: defaultChannelMapping_def stereo_def)

lemma witness_samples: "opusPacketSampleCount [0xF8, 0xFF, 0xFE] = Inr 960" "opusPacketSampleCount [0x03, 0x02, 9] = Inr 960"
  by code_simp+

lemma witness_payloads: "opus_payloads Inr witness_opus = Some [[0xF8, 0xFF, 0xFE], [0x03, 0x02, 9]]"
  by (simp add: witness_opus_def witness_samples)

theorem ogg_file_witness:
  "\<exists>w w1 w2 r r' pgs tags. oggw_New 7 (Inr ogg_witness_file) 48000 2 = Inr w \<and>
    run_ogg Inr witness_opus w = (None, w1) \<and> oggw_Close w1 = (None, w2) \<and>
    ogg_NewWith (Some \<lparr>st_data = content (ow_out w2), st_end = None\<rparr>) =
      Inr (r, header_of_track (newTrackState 48000 stereo 7 defaultOpusTags)) \<and>
    reads ParseNextPage r pgs r' \<and> fst (ParseNextPage r') = Inl EOF \<and>
    reassemble pgs = [tags, [0xF8, 0xFF, 0xFE], [0x03, 0x02, 9]] \<and> ParseOpusTags tags = Inr defaultOpusTags \<and>
    bit (page_headerType (snd (last pgs))) 2"
  using ogg_file[OF _ _ stereo_default witness_payloads refl, of ogg_witness_file True 7 48000]
  by (simp add: ogg_witness_file_def healthy_def)

lemma packet_pages_flags:
  "map (\<lambda>p. bit (p_type p) 0) (packet_pages d ht gp serial idx first) =
     (bit ht 0 \<or> \<not> first) # replicate (length d div 65025) True"
proof (induction d ht gp serial idx first rule: packet_pages.induct)
  case (1 d ht gp serial idx first)
  have b: "bit (packetPageHeaderType ht first c) 0 = (bit ht 0 \<or> \<not> first)" for c by (cases first) (simp_all add: type_flag)
  show ?case
  proof (cases "length d < 65025")
    case True
    then show ?thesis by (subst packet_pages.simps) (simp add: b)
  next
    case False
    then have "replicate (length d div 65025) True = True # replicate (length (drop 65025 d) div 65025) True" by (simp add: le_div_geq)
    then show ?thesis using "1.IH"[OF False] False by (subst packet_pages.simps) (simp add: b)
  qed
qed

lemma packet_pages_granules:
  "map p_granule (packet_pages d ht gp serial idx first) = replicate (length d div 65025) noGranulePosition @ [gp]"
proof (induction d ht gp serial idx first rule: packet_pages.induct)
  case (1 d ht gp serial idx first)
  then show ?case by (subst packet_pages.simps) (auto simp: le_div_geq)
qed

lemma type_flags:
  "bit (packetPageHeaderType ht first c) 1 = (first \<and> bit ht 1)" "bit (packetPageHeaderType ht first c) 2 = (c \<and> bit ht 2)"
  proof -
  have b: "\<not> bit pageHeaderTypeContinuationOfPacket 1" "\<not> bit pageHeaderTypeContinuationOfPacket 2"
    "\<not> bit pageHeaderTypeEndOfStream 1" "bit pageHeaderTypeEndOfStream 2"
    by (simp_all add: pageHeaderTypeEndOfStream_def pageHeaderTypeContinuationOfPacket_def bit_1_iff bit_numeral_rec)
  show "bit (packetPageHeaderType ht first c) 1 = (first \<and> bit ht 1)" "bit (packetPageHeaderType ht first c) 2 = (c \<and> bit ht 2)"
    using b by (auto simp: packetPageHeaderType_def bit_or_iff bit_and_iff bit_not_iff)
qed

lemma packet_pages_marks:
  "map (\<lambda>p. bit (p_type p) 1) (packet_pages d ht gp serial idx first) = (first \<and> bit ht 1) # replicate (length d div 65025) False"
  "map (\<lambda>p. bit (p_type p) 2) (packet_pages d ht gp serial idx first) = replicate (length d div 65025) False @ [bit ht 2]"
proof (induction d ht gp serial idx first rule: packet_pages.induct)
  case (1 d ht gp serial idx first)
  { case 1 then show ?case using "1.IH"(1) by (subst packet_pages.simps) (auto simp: type_flags[unfolded One_nat_def] le_div_geq) }
  { case 2 then show ?case using "1.IH"(2) by (subst packet_pages.simps) (auto simp: type_flags le_div_geq) }
qed

text \<open>The lacing values of the pages joined: 255 for every 255 bytes, and a smaller one, possibly 0, that ends the packet.\<close>

lemma packet_pages_lacing:
  "concat (map p_segments (packet_pages d ht gp serial idx first)) = replicate (length d div 255) 255 @ [of_nat (length d mod 255)]"
proof (induction d ht gp serial idx first rule: packet_pages.induct)
  case (1 d ht gp serial idx first)
  show ?case
  proof (cases "length d < 65025")
    case False
    then have "length d = 255 * 255 + (length d - 65025)" by simp
    then obtain n where n: "length d = 255 * 255 + n" "length (drop 65025 d) = n" by simp
    then have "replicate (length d div 255) (255 :: byte) = replicate 255 255 @ replicate (n div 255) 255" "length d mod 255 = n mod 255"
      unfolding n(1) by (simp_all only: div_mult_self3 mod_mult_self3 replicate_add)
    moreover have "packet_pages d ht gp serial idx first =
      \<lparr>p_type = packetPageHeaderType ht first False, p_granule = noGranulePosition, p_serial = serial, p_index = idx,
        p_segments = replicate 255 255, p_payload = take 65025 d\<rparr> # packet_pages (drop 65025 d) ht gp serial (idx + 1) False"
      using False by (subst packet_pages.simps) simp
    ultimately show ?thesis using "1.IH"[OF False] unfolding n(2) by (simp only: list.map concat.simps ogg_page.simps append_assoc)
  qed (subst packet_pages.simps, simp)
qed

lemma packet_pages_full: "list_all (\<lambda>p. length (p_segments p) = 255) (butlast (packet_pages d ht gp serial idx first))"
proof (induction d ht gp serial idx first rule: packet_pages.induct)
  case (1 d ht gp serial idx first)
  then show ?case by (subst packet_pages.simps) (auto simp: packet_pages_nonempty)
qed

text \<open>The segment table of a page as its bytes have it: the number of segments is at offset 26.\<close>

definition page_table :: "bytes \<Rightarrow> bytes" where
  "page_table b = take (unat (b ! 26)) (drop 27 b)"

lemma page_table_bytes: "page_ok p \<Longrightarrow> page_table (page_bytes p) = p_segments p"
  by (simp add: page_table_def page_bytes_eq nth_append page_header_fields page_ok_def unat_of_nat take_bit_nat_eq_self)

text \<open>
  C18: A packet of any size is cut into pages the way RFC 3533 demands. The payloads of the pages joined are the packet. The
  segment tables joined are one lacing value of 255 for every 255 bytes of the packet and then a value below 255 that ends it,
  zero when its length is a multiple of 255; each table sums up to the payload of its page, and all but the last are full, so
  there is one page more than there are full pages of 65025 bytes. The pages are numbered consecutively. Every page after the first has the
  continuation flag, only the first can begin the stream, only the last can end it, and only the last has the granule
  position of the packet.
\<close>

theorem packet_paging:
  fixes payload :: bytes and ht :: u8 and granulePos :: u64 and serial :: u32 and idx :: u32
  defines "pgs \<equiv> createPagesForSerial generateChecksumTable payload ht granulePos serial idx"
  shows "concat (map pg_payload pgs) = payload \<and> length pgs = length payload div 65025 + 1 \<and>
    concat (map (\<lambda>pg. page_table (pg_data pg)) pgs) = replicate (length payload div 255) 255 @ [of_nat (length payload mod 255)] \<and>
    list_all (\<lambda>pg. length (page_table (pg_data pg)) = 255) (butlast pgs) \<and>
    list_all (\<lambda>pg. sum_list (map unat (page_table (pg_data pg))) = length (pg_payload pg) \<and>
      pg_data pg = createPageForSerialWithSegments generateChecksumTable (pg_payload pg) (page_table (pg_data pg)) (pg_headerType pg)
        (pg_granulePos pg) serial (pg_pageIndex pg)) pgs \<and>
    map pg_pageIndex pgs = map (\<lambda>i. idx + of_nat i) [0..<length pgs] \<and>
    map (\<lambda>pg. bit (pg_headerType pg) 0) pgs = bit ht 0 # replicate (length pgs - 1) True \<and>
    map (\<lambda>pg. bit (pg_headerType pg) 1) pgs = bit ht 1 # replicate (length pgs - 1) False \<and>
    map (\<lambda>pg. bit (pg_headerType pg) 2) pgs = replicate (length pgs - 1) False @ [bit ht 2] \<and>
    map pg_granulePos pgs = replicate (length pgs - 1) noGranulePosition @ [granulePos]"
proof -
  let ?ps = "packet_pages payload ht granulePos serial idx True"
  have w: "pg_payload (written_page p) = p_payload p" "pg_pageIndex (written_page p) = p_index p"
    "pg_headerType (written_page p) = p_type p" "pg_granulePos (written_page p) = p_granule p"
    "pg_data (written_page p) = page_bytes p" for p by (simp_all add: written_page_def)
  have pgs: "pgs = map written_page ?ps" by (simp add: pgs_def createPagesForSerial_eq)
  have ok: "page_ok p \<and> p_serial p = serial" if "p \<in> set ?ps" for p using packet_pages_ok that by blast
  then have t: "page_table (page_bytes p) = p_segments p" if "p \<in> set ?ps" for p using page_table_bytes that by blast
  have tables: "map (\<lambda>p. page_table (page_bytes p)) ?ps = map p_segments ?ps" using t by simp
  have full: "list_all (\<lambda>p. length (page_table (page_bytes p)) = 255) (butlast ?ps)"
    unfolding list_all_iff
  proof
    fix p assume p: "p \<in> set (butlast ?ps)"
    then show "length (page_table (page_bytes p)) = 255"
      using packet_pages_full[of payload ht granulePos serial idx True] t[OF in_set_butlastD[OF p]] by (simp add: list_all_iff)
  qed
  have body: "list_all (\<lambda>p. sum_list (map unat (page_table (page_bytes p))) = length (p_payload p) \<and>
      page_bytes p = createPageForSerialWithSegments generateChecksumTable (p_payload p) (page_table (page_bytes p)) (p_type p)
        (p_granule p) serial (p_index p)) ?ps"
    unfolding list_all_iff using ok t by (simp add: page_ok_def) (simp add: page_bytes_def)
  show ?thesis unfolding pgs
    using packet_pages_payload[of payload] packet_pages_length[of payload] packet_pages_index[of payload] full body
      packet_pages_flags[of payload ht granulePos serial idx True] packet_pages_granules[of payload]
      packet_pages_marks[of payload ht granulePos serial idx True] packet_pages_lacing[of payload ht granulePos serial idx True]
    by (simp add: w comp_def list.pred_map tables map_butlast[symmetric])
qed

section \<open>Headers\<close>

text \<open>
  C37: Every channel mapping that \<open>WithChannelMapping\<close> accepts survives the identification header: the reader
  finds the family, the stream counts and the mapping table of the option, the number of channels of the
  table, the sample rate and the pre-skip of the writer.
\<close>

theorem channel_mapping_roundtrip:
  assumes "validateChannelMapping family streams coupled mapping = Inr m"
  shows "ParseOpusHead (buildIDHeader (newTrackState rate m serial tags)) =
    Inr \<lparr>ChannelMap = family, Channels = of_nat (length mapping), OutputGain = 0, PreSkip = defaultPreSkip, SampleRate = rate,
      Version = 1, StreamCount = streams, CoupledCount = coupled, ChannelMapping = mapping\<rparr>"
proof -
  have m: "m = \<lparr>cm_family = family, cm_channelCount = of_nat (length mapping), cm_streamCount = streams, cm_coupledCount = coupled,
      cm_mapping = mapping\<rparr>" "family \<noteq> 0"
    using assms by (auto simp: validateChannelMapping_def validateChannelMappingFamily_def split: option.splits if_splits)
  then show ?thesis using ParseOpusHead_buildIDHeader[of "newTrackState rate m serial tags"] validateChannelMapping_ok[OF assms]
    by (simp add: newTrackState_def header_of_track_def)
qed

text \<open>
  C38: Opus tags that the writer's validation accepts (vendor and any number of user comments, in order) are
  what the reader parses from the comment header.
\<close>

theorem tags_roundtrip:
  assumes "validateOpusTags t = None"
  shows "ParseOpusTags (buildCommentHeader t) = Inr t"
  using assms by (intro ParseOpusTags_buildCommentHeader validateOpusTags_ok)

section \<open>Durations of Opus packets\<close>

text \<open>Table 2 of RFC 6716, frame sizes of the 32 configurations, in samples at 48 kHz, and the frame count of section 3.2.\<close>

definition rfc_frame_size :: "nat \<Rightarrow> nat" where
  "rfc_frame_size config =
     (if config < 12 then [480, 960, 1920, 2880] ! (config mod 4)
      else if config < 16 then [480, 960] ! (config mod 2)
      else [120, 240, 480, 960] ! (config mod 4))"

fun rfc_frames :: "bytes \<Rightarrow> nat option" where
  "rfc_frames [] = None"
| "rfc_frames (toc # r) =
     (case unat toc mod 4 of 0 \<Rightarrow> Some 1 | Suc 0 \<Rightarrow> Some 2 | Suc (Suc 0) \<Rightarrow> Some 2
      | _ \<Rightarrow> (case r of [] \<Rightarrow> None | m # _ \<Rightarrow> if unat m mod 64 = 0 then None else Some (unat m mod 64)))"

lemma frame_size_high_bits: "opusSamplesPerFrame toc = opusSamplesPerFrame (toc AND 0xF8)"
  by (simp add: opusSamplesPerFrame_def and.assoc drop_bit_and)

lemma high_bits: "(toc :: byte) AND 0xF8 = of_nat (8 * (unat toc div 8))"
proof -
  have "(0xF8 :: byte) = NOT (mask 3)" by (simp add: mask_eq_exp_minus_1)
  moreover have "toc AND NOT (mask 3) = push_bit 3 (drop_bit 3 toc)" by (rule bit_word_eqI) (auto simp: bit_simps)
  ultimately have "toc AND 0xF8 = push_bit 3 (drop_bit 3 toc)" by metis
  moreover have "of_nat (unat toc div 8) = toc div 8" by (simp add: word_arith_nat_div)
  ultimately show ?thesis by (simp add: push_bit_eq_mult drop_bit_eq_div)
qed

lemma samples_table: "n < 32 \<Longrightarrow> opusSamplesPerFrame (of_nat (8 * n)) = of_nat (rfc_frame_size n)"
proof -
  have "list_all (\<lambda>n. opusSamplesPerFrame (of_nat (8 * n)) = of_nat (rfc_frame_size n)) [0..<32]" by code_simp
  then show "n < 32 \<Longrightarrow> ?thesis" by (simp add: list_all_iff)
qed

lemma frame_size_le: "rfc_frame_size n \<le> 2880 \<and> 0 < rfc_frame_size n"
proof -
  have "n mod 4 = 0 \<or> n mod 4 = 1 \<or> n mod 4 = 2 \<or> n mod 4 = 3" "n mod 2 = 0 \<or> n mod 2 = 1" by presburger+
  then show ?thesis by (auto simp: rfc_frame_size_def)
qed

lemma samples_of_toc: "opusSamplesPerFrame toc = of_nat (rfc_frame_size (unat toc div 8))"
proof -
  have "unat toc div 8 < 32" using unsigned_less[of toc] by (simp add: div_less_iff_less_mult)
  then show ?thesis using samples_table frame_size_high_bits[of toc] high_bits[of toc] by metis
qed

lemma masked_byte: "unat (b AND 0x03 :: byte) = unat b mod 4" "unat (b AND 0x3F :: byte) = unat b mod 64"
proof -
  have "(0x03 :: byte) = mask 2" "(0x3F :: byte) = mask 6" by (simp_all add: mask_eq_exp_minus_1)
  then have "b AND 0x03 = take_bit 2 b" "b AND 0x3F = take_bit 6 b" by (simp_all add: take_bit_eq_mask)
  then show "unat (b AND 0x03) = unat b mod 4" "unat (b AND 0x3F) = unat b mod 64"
    by (simp_all add: take_bit_eq_mod unat_mod_distrib)
qed

lemma frames_spec: "payload \<noteq> [] \<Longrightarrow> opusPacketFrameCount payload =
   (case rfc_frames payload of None \<Rightarrow> Inl (Err errInvalidOpusPacket) | Some n \<Rightarrow> Inr (of_nat n))"
proof (cases payload)
  case (Cons toc r)
  define c where "c = toc AND 0x03"
  have u: "unat toc mod 4 = unat c" by (simp add: c_def masked_byte)
  have z: "(b = 0) = (unat b = 0)" "(b = 1) = (unat b = 1)" "(b = 2) = (unat b = 2)" "(b = 3) = (unat b = 3)" for b :: byte
    by (simp_all add: word_unat_eq_iff)
  have "unat c = 0 \<or> unat c = 1 \<or> unat c = 2 \<or> unat c = 3" unfolding u[symmetric] by presburger
  moreover have "of_nat (unat b mod 64) = b AND 0x3F" for b :: byte by (simp flip: masked_byte)
  ultimately show ?thesis using Cons
    by (elim disjE) (auto simp: opusPacketFrameCount_def Let_def c_def[symmetric] u z masked_byte numeral_3_eq_3 numeral_2_eq_2 split: list.split)
qed simp

text \<open>
  C20: The duration the writer computes for an Opus packet is the one of RFC 6716 (table 2 and section 3.2) at
  48 kHz: the frame size of the configuration times the frame count, and an error exactly when the packet is
  empty, has no or a zero frame count, or lasts longer than 120 ms.
\<close>

theorem opus_duration:
  "opusPacketSampleCount payload =
     (case rfc_frames payload of
        None \<Rightarrow> Inl (Err errInvalidOpusPacket)
      | Some n \<Rightarrow>
          if n * rfc_frame_size (unat (hd payload) div 8) > 5760 then Inl (Err errInvalidOpusPacket)
          else Inr (of_nat (n * rfc_frame_size (unat (hd payload) div 8))))"
proof (cases "payload = []")
  case False
  define f where "f = rfc_frame_size (unat (hd payload) div 8)"
  have f: "f \<le> 2880" using frame_size_le by (simp add: f_def)
  show ?thesis
  proof (cases "rfc_frames payload")
    case (Some n)
    have n: "n < 64" using Some by (cases payload) (auto split: nat.splits list.splits if_splits)
    have nf: "n * f \<le> 64 * 2880" using n f by (intro mult_le_mono) simp_all
    have "to64 (opusSamplesPerFrame (payload ! 0)) = (of_nat f :: u64)"
      using f False by (simp add: samples_of_toc hd_conv_nth f_def word_unat_eq_iff unsigned_ucast_eq unat_of_nat take_bit_nat_eq_self)
    moreover have "to64 (of_nat n :: byte) = (of_nat n :: u64)" using n by (simp add: word_unat_eq_iff unsigned_ucast_eq unat_of_nat take_bit_nat_eq_self)
    moreover have "unat (of_nat (n * f) :: u64) = n * f" using nf by (simp add: unat_of_nat take_bit_nat_eq_self del: of_nat_mult)
    moreover have "unat maxOpusPacketSamples = 5760" by (simp add: maxOpusPacketSamples_def)
    ultimately show ?thesis using False Some frames_spec[OF False]
      by (simp add: opusPacketSampleCount_def f_def[symmetric] word_less_nat_alt mult.commute flip: of_nat_mult)
  qed (use False frames_spec in \<open>simp add: opusPacketSampleCount_def\<close>)
qed (simp add: opusPacketSampleCount_def)

section \<open>Corrupted pages\<close>

text \<open>The bytes that the checksum covers: those of the page, with its checksum field zero.\<close>

definition covered :: "bytes \<Rightarrow> bytes" where
  "covered b = take 22 b @ [0, 0, 0, 0] @ drop 26 b"

lemma checksum_header_covered: "length h = 27 \<Longrightarrow> checksum_header h = covered h"
proof (rule nth_equalityI)
  fix i assume l: "length h = 27" and i: "i < length (checksum_header h)"
  then have "i < 22 \<or> i = 22 \<or> i = 23 \<or> i = 24 \<or> i = 25 \<or> i = 26" by (simp add: checksum_header_def) linarith
  then show "checksum_header h ! i = covered h ! i" using l by (elim disjE) (simp_all add: checksum_header_def covered_def nth_append)
qed (simp add: checksum_header_def covered_def)

lemma ParseNextPage_mismatch:
  assumes "length h = 27" "length segs = unat (h ! 26)" "length payload = sum_list (map unat segs)"
    and "get_le32 (slice 22 26 h) \<noteq> foldl (crc_update generateChecksumTable) 0 (covered (h @ segs @ payload))"
    and "ogg_stream r = \<lparr>st_data = h @ segs @ payload @ rest, st_end = e\<rparr>" "checksumTable r = generateChecksumTable" "doChecksum r"
  shows "fst (ParseNextPage r) = Inl (Err errChecksumMismatch)"
proof -
  have 1: "ogg_ReadFull pageHeaderLen (ogg_stream r) = (Inr h, \<lparr>st_data = segs @ payload @ rest, st_end = e\<rparr>)"
    unfolding assms(5) by (subst ReadFull_append[where a = h and r = "segs @ payload @ rest"]) (simp_all add: pageHeaderLen_def assms(1))
  have 2: "ogg_ReadFull (length segs) \<lparr>st_data = segs @ payload @ rest, st_end = e\<rparr> = (Inr segs, \<lparr>st_data = payload @ rest, st_end = e\<rparr>)"
    by (subst ReadFull_append[where a = segs and r = "payload @ rest"]) simp_all
  have 3: "ogg_ReadFull (length payload) \<lparr>st_data = payload @ rest, st_end = e\<rparr> = (Inr payload, \<lparr>st_data = rest, st_end = e\<rparr>)"
    by (subst ReadFull_append[where a = payload and r = rest]) simp_all
  have "page_checksum generateChecksumTable h segs payload = foldl (crc_update generateChecksumTable) 0 (covered (h @ segs @ payload))"
    using assms(1) by (simp add: page_checksum_def checksum_header_covered covered_def)
  then show ?thesis
    unfolding ParseNextPage_def 1 prod.case sum.case Let_def OggPageHeader.simps assms(2)[symmetric] 2 assms(3)[symmetric] 3 assms(6)
    using assms(1,4,7) by (simp add: pageHeaderLen_def)
qed

lemma covered_page: "foldl (crc_update generateChecksumTable) 0 (covered (page_bytes p)) = page_sum p" "slice 22 26 (page_bytes p) = le32 (page_sum p)"
proof -
  have "page_bytes p = page_header (page_sum p) p @ p_segments p @ p_payload p" by (rule page_bytes_eq)
  moreover have "slice 22 26 (page_header c p @ r) = slice 22 26 (page_header c p)" for c r by (simp add: slice_def)
  ultimately show "slice 22 26 (page_bytes p) = le32 (page_sum p)" by (simp add: page_header_fields)
  have "covered (page_bytes p) = checksum_header (page_header (page_sum p) p) @ p_segments p @ p_payload p"
    by (simp add: page_bytes_eq checksum_header_covered covered_def)
  then show "foldl (crc_update generateChecksumTable) 0 (covered (page_bytes p)) = page_sum p"
    using page_checksum_eq[of "page_sum p" p] by (simp add: page_checksum_def)
qed

lemma le32_get_le32: "length x = 4 \<Longrightarrow> le32 (get_le32 x) = x"
proof -
  assume "length x = 4"
  then obtain a b c d where "x = [a, b, c, d]" using length_4_cases by blast
  then show ?thesis by (auto simp: get_le32_def le32_def bit_simps intro!: bit_word_eqI)
qed

text \<open>Where a change may lie: before the checksum field, in it, or in the payload.\<close>

definition burst_at :: "ogg_page \<Rightarrow> nat \<Rightarrow> nat \<Rightarrow> bool" where
  "burst_at p i n \<longleftrightarrow> i + n \<le> 22 \<or> 22 \<le> i \<and> i + n \<le> 26 \<or> 27 + length (p_segments p) \<le> i"

lemma burst_covered:
  assumes "page_bytes p = a @ x @ z" "length x = length y" "length x \<le> 4" "x \<noteq> y" "burst_at p (length a) (length x)"
  shows "get_le32 (slice 22 26 (a @ y @ z)) \<noteq> foldl (crc_update generateChecksumTable) 0 (covered (a @ y @ z))"
proof -
  have len: "26 < length (a @ x @ z)" using length_page_bytes[of p] assms(1) by simp
  have g: "get_le32 (le32 v) = v" for v using get_le32_le32[of v "[]"] by simp
  consider "length a + length x \<le> 22" | "22 \<le> length a" "length a + length x \<le> 26" | "27 \<le> length a"
    using assms(5) by (auto simp: burst_at_def)
  then show ?thesis
  proof cases
    case 1
    then have "slice 22 26 (a @ y @ z) = slice 22 26 (a @ x @ z)" using assms(2) by (simp add: slice_def)
    moreover have "covered (a @ w @ z) = a @ w @ covered_rest" if "length w = length x" "covered_rest = take (22 - length a - length x) z @ [0, 0, 0, 0] @ drop (26 - length a - length x) z" for w covered_rest
      using 1 that by (simp add: covered_def)
    ultimately show ?thesis using ogg_crc.detects_burst[OF assms(2-4)] covered_page[of p] assms(1,2) g by metis
  next
    case 2
    have "covered (a @ y @ z) = covered (a @ x @ z)" using 2 assms(2) by (simp add: covered_def)
    moreover have "slice 22 26 (a @ y @ z) \<noteq> slice 22 26 (a @ x @ z)"
    proof -
      have "slice 22 26 (a @ w @ z) = drop 22 a @ w @ take (26 - length a - length x) z" if "length w = length x" for w
        using 2 that by (simp add: slice_def)
      then show ?thesis using assms(2,4) by simp
    qed
    moreover have "length (slice 22 26 (a @ w @ z)) = 4" if "length w = length x" for w using len that 2 by (simp add: slice_def min_def)
    ultimately show ?thesis using covered_page[of p] assms(1,2) g le32_get_le32 by metis
  next
    case 3
    then have "slice 22 26 (a @ y @ z) = slice 22 26 (a @ x @ z)" by (simp add: slice_def)
    moreover have "covered (a @ w @ z) = covered a @ w @ z" for w using 3 by (simp add: covered_def)
    ultimately show ?thesis using ogg_crc.detects_burst[OF assms(2-4)] covered_page[of p] assms(1,2) g by metis
  qed
qed

text \<open>
  C17: A damaged page is detected. If up to four consecutive bytes of a page are replaced by others, before the
  checksum field, in it or in the payload, \<open>ParseNextPage\<close> with checksums on reports a mismatch, whatever follows.
\<close>

theorem ogg_rejects_burst:
  assumes "page_ok p" "page_bytes p = a @ x @ z" "length x = length y" "length x \<le> 4" "x \<noteq> y" "burst_at p (length a) (length x)"
  shows "fst (ParseNextPage \<lparr>ogg_stream = \<lparr>st_data = a @ y @ z @ rest, st_end = e\<rparr>, ogg_bytesRead = n,
    checksumTable = generateChecksumTable, doChecksum = True\<rparr>) = Inl (Err errChecksumMismatch)"
proof -
  define b where "b = a @ x @ z"
  define b' where "b' = a @ y @ z"
  define k where "k = length (p_segments p)"
  have len: "length b = 27 + k + length (p_payload p)" using length_page_bytes[of p] assms(2) by (simp add: b_def k_def)
  have len': "length b' = length b" using assms(3) by (simp add: b_def b'_def)
  have B: "b = page_header (page_sum p) p @ p_segments p @ p_payload p" using assms(2) by (simp add: b_def page_bytes_eq)
  have same: "b' ! i = b ! i" if "26 \<le> i" "i < 27 + k" for i
    using assms(3,6) that by (auto simp: b_def b'_def burst_at_def k_def nth_append)
  have 26: "take 27 b' ! 26 = of_nat k" using same[of 26] B by (simp add: nth_append page_header_fields k_def)
  have seg: "take k (drop 27 b') = p_segments p"
  proof (rule nth_equalityI)
    fix i assume "i < length (take k (drop 27 b'))"
    then have "i < k" by simp
    then show "take k (drop 27 b') ! i = p_segments p ! i" using same[of "27 + i"] len len' B by (simp add: nth_append k_def)
  qed (use len len' in \<open>simp add: k_def\<close>)
  have split: "take 27 b' @ take k (drop 27 b') @ drop (27 + k) b' = b'" by (metis append_take_drop_id drop_drop add.commute)
  have "get_le32 (slice 22 26 b') \<noteq> foldl (crc_update generateChecksumTable) 0 (covered b')"
    using burst_covered[OF assms(2-6)] by (simp add: b'_def)
  moreover have "slice 22 26 (take 27 b') = slice 22 26 b'" by (simp add: slice_def drop_take)
  moreover have "a @ y @ z @ rest = take 27 b' @ p_segments p @ drop (27 + k) b' @ rest"
    using arg_cong[OF split, of "\<lambda>t. t @ rest"] unfolding seg by (simp only: b'_def append_assoc)
  ultimately show ?thesis using len len' 26 split assms(1) unat_segments[OF assms(1)] unfolding seg
    by (intro ParseNextPage_mismatch[of "take 27 b'" "p_segments p" "drop (27 + k) b'" _ rest e]) (simp_all add: page_ok_def k_def)
qed

section \<open>Examples\<close>

definition witness_page :: ogg_page where
  "witness_page = \<lparr>p_type = 0, p_granule = 960, p_serial = 7, p_index = 2, p_segments = [3], p_payload = [0xF8, 0xFF, 0xFE]\<rparr>"

theorem ogg_rejects_burst_witness:
  "fst (ParseNextPage \<lparr>ogg_stream = \<lparr>st_data = (page_header (page_sum witness_page) witness_page @ [3, 0xF8]) @ [0, 0xFF] @ [] @ [79], st_end = None\<rparr>,
     ogg_bytesRead = 0, checksumTable = generateChecksumTable, doChecksum = True\<rparr>) = Inl (Err errChecksumMismatch)"
  by (rule ogg_rejects_burst[where p = witness_page and x = "[0xFF, 0xFE]"])
    (simp_all add: page_bytes_eq, simp_all add: page_ok_def burst_at_def witness_page_def)

theorem channel_mapping_roundtrip_witness:
  "ParseOpusHead (buildIDHeader (newTrackState 48000 \<lparr>cm_family = 255, cm_channelCount = 3, cm_streamCount = 1, cm_coupledCount = 1,
      cm_mapping = [0, 255, 1]\<rparr> 7 defaultOpusTags)) =
    Inr \<lparr>ChannelMap = 255, Channels = of_nat (length [0, 255, 1 :: byte]), OutputGain = 0, PreSkip = defaultPreSkip, SampleRate = 48000,
      Version = 1, StreamCount = 1, CoupledCount = 1, ChannelMapping = [0, 255, 1]\<rparr>"
  by (rule channel_mapping_roundtrip) code_simp

definition witness_tags :: OpusTags where
  "witness_tags = \<lparr>Vendor = str ''pion'', UserComments = [\<lparr>Comment = str ''TITLE'', Value = str ''a=b''\<rparr>, \<lparr>Comment = str ''X'', Value = []\<rparr>]\<rparr>"

lemma witness_tags_valid: "validateOpusTags witness_tags = None"
  by (simp add: witness_tags_def validateOpusTags_def validateOpusTagsWithMaxHeaderLen_def validateOpusTagString_def utf8_Valid.simps
      validateUserComment_def isValidCommentName_def validateOpusTagsHeaderLen_def str_def commentPageSignature_def maxUint32Length_def)

theorem tags_roundtrip_witness: "ParseOpusTags (buildCommentHeader witness_tags) = Inr witness_tags"
  by (rule tags_roundtrip[OF witness_tags_valid])

end
