(* ===== verification/OggMultiplex.thy ===== *)
theory OggMultiplex
  imports OggRoundTrip "HOL-Library.Sublist"
begin

text \<open>
  The multi-track \<open>Writer\<close> of \<open>oggwriter/oggwriter.go\<close>: the pages of several logical streams interleaved on one
  output. Writing on one track leaves the bookkeeping of the others true, the headers of all tracks
  come first, and closing ends every track, by rewriting its last page on a seekable
  output or with an empty page otherwise. The chapter ends with a whole file: what each track was
  given is what a reader finds under its serial number.
\<close>

section \<open>Several logical streams on one output\<close>

definition own :: "u32 \<Rightarrow> ogg_page list \<Rightarrow> ogg_page list" where
  "own s ps = filter (\<lambda>p. p_serial p = s) ps"

lemma own_append [simp]: "own s (ps @ qs) = own s ps @ own s qs"
  by (simp add: own_def)

lemma own_Nil [simp]: "own s [] = []"
  by (simp add: own_def)

lemma own_all: "\<forall>p \<in> set ps. p_serial p = s \<Longrightarrow> own s' ps = (if s' = s then ps else [])"
  by (auto simp: own_def filter_empty_conv)

definition on_output :: "sink \<Rightarrow> ogg_page list \<Rightarrow> bool" where
  "on_output d ps \<longleftrightarrow> healthy d \<and> content d = concat (map page_bytes ps) \<and> list_all page_ok ps"

definition offset_of :: "ogg_page list \<Rightarrow> nat \<Rightarrow> nat" where
  "offset_of ps i = length (concat (map page_bytes (take i ps)))"

text \<open>
  The state of a track among the pages \<open>ps\<close> of all tracks: it counts its own pages, and with a
  seekable output it remembers the last of them and where it lies.
\<close>

definition track_state :: "bool \<Rightarrow> ogg_page list \<Rightarrow> oggTrack \<Rightarrow> bool" where
  "track_state rw ps t \<longleftrightarrow> trk_pageIndex t = of_nat (length (own (trk_serial t) ps)) \<and>
     (rw \<and> own (trk_serial t) ps \<noteq> [] \<longrightarrow>
        (\<exists>i < length ps. remembers t (ps ! i) (offset_of ps i) \<and> own (trk_serial t) (drop (Suc i) ps) = []))"

definition same_track :: "oggTrack \<Rightarrow> oggTrack \<Rightarrow> bool" where
  "same_track t t' \<longleftrightarrow> trk_serial t' = trk_serial t \<and> trk_opusTags t' = trk_opusTags t \<and> buildIDHeader t' = buildIDHeader t"

lemma same_track_trans: "same_track a b \<Longrightarrow> same_track b c \<Longrightarrow> same_track a c"
  by (simp add: same_track_def)

lemma track_state_granule [simp]: "track_state rw ps (t\<lparr>previousGranulePosition := g\<rparr>) = track_state rw ps t"
  by (simp add: track_state_def remembers_def)

text \<open>Pages of other tracks do not disturb a track.\<close>

lemma track_state_other:
  assumes "track_state rw ps t" "own (trk_serial t) qs = []"
  shows "track_state rw (ps @ qs) t"
proof -
  have "offset_of (ps @ qs) i = offset_of ps i" if "i < length ps" for i using that by (simp add: offset_of_def)
  moreover have "own (trk_serial t) (drop (Suc i) (ps @ qs)) = []" if "own (trk_serial t) (drop (Suc i) ps) = []" "i < length ps" for i
    using that assms(2) by (simp add: own_def)
  ultimately show ?thesis using assms unfolding track_state_def
    by (auto simp: nth_append intro: less_trans)
qed

lemma writePage_among:
  fixes payload :: bytes and ht :: u8 and gp :: u64
  assumes "on_output d ps" "track_state rw ps t"
  defines "pgs \<equiv> packet_pages payload ht gp (trk_serial t) (trk_pageIndex t) True"
  shows "\<exists>t' d'. writePage rw generateChecksumTable payload ht gp t d = (None, t', d') \<and> on_output d' (ps @ pgs) \<and>
    track_state rw (ps @ pgs) t' \<and> same_track t t' \<and> previousGranulePosition t' = previousGranulePosition t \<and>
    can_close d' = can_close d"
proof -
  have d: "healthy d" "content d = concat (map page_bytes ps)" "list_all page_ok ps" using assms(1) by (simp_all add: on_output_def)
  let ?off = "if rw then length (content d) else 0" and ?s = "trk_serial t"
  obtain d' where w: "writePage rw generateChecksumTable payload ht gp t d = (None, put_pages rw ?off pgs t, d')"
    "grown d (concat (map page_bytes pgs)) d'"
    using writePage_healthy[OF d(1), of rw payload ht gp t] by (auto simp: pgs_def)
  have pg: "\<forall>p \<in> set pgs. page_ok p \<and> p_serial p = ?s" using packet_pages_ok by (auto simp: pgs_def)
  then have o: "own ?s pgs = pgs" using own_all[of pgs ?s] by simp
  have ne: "pgs \<noteq> []" by (simp add: pgs_def packet_pages_nonempty)
  have "track_state rw (ps @ pgs) (put_pages rw ?off pgs t)"
  proof -
    define i where "i = length ps + (length pgs - 1)"
    have "(ps @ pgs) ! i = last pgs" using ne by (simp add: i_def nth_append last_conv_nth)
    moreover have "take i (ps @ pgs) = ps @ butlast pgs" by (simp add: i_def butlast_conv_take)
    moreover have "drop (Suc i) (ps @ pgs) = []" using ne by (simp add: i_def)
    moreover have "rw \<Longrightarrow> remembers (put_pages rw ?off pgs t) (last pgs) (length (content d) + length (concat (map page_bytes (butlast pgs))))"
      using put_pages_remembers[OF ne, of t "length (content d)"] packet_pages_final ne pg by (simp add: pgs_def)
    moreover have "i < length (ps @ pgs)" using ne by (cases pgs) (simp_all add: i_def)
    ultimately have "rw \<Longrightarrow> \<exists>i < length (ps @ pgs). remembers (put_pages rw ?off pgs t) ((ps @ pgs) ! i) (offset_of (ps @ pgs) i) \<and>
        own ?s (drop (Suc i) (ps @ pgs)) = []"
      using d(2) by (intro exI[of _ i]) (simp add: offset_of_def)
    then show ?thesis using assms(2) o by (auto simp: track_state_def put_pages_def)
  qed
  moreover have "same_track t (put_pages rw ?off pgs t)" by (simp add: same_track_def put_pages_def buildIDHeader_def)
  moreover have "on_output d' (ps @ pgs)" using w(2) d pg by (auto simp: on_output_def grown_def list_all_iff)
  ultimately show ?thesis using w by (auto simp: put_pages_def grown_def)
qed

section \<open>Headers of all tracks\<close>

abbreviation serial_of :: "Track \<Rightarrow> u32" where "serial_of t \<equiv> trk_serial (tr_track t)"

text \<open>A track before and after one packet of it was written among the pages of all tracks.\<close>

definition wrote ::
  "bool \<Rightarrow> (oggTrack \<Rightarrow> bytes) \<Rightarrow> u8 \<Rightarrow> ogg_page list \<Rightarrow> ogg_page list \<Rightarrow> Track \<Rightarrow> Track \<Rightarrow> bool" where
  "wrote rw body ht ps ps' t t' \<longleftrightarrow> tr_ssrc t' = tr_ssrc t \<and> same_track (tr_track t) (tr_track t') \<and>
     previousGranulePosition (tr_track t') = previousGranulePosition (tr_track t) \<and> track_state rw ps' (tr_track t') \<and>
     own (serial_of t) ps' = own (serial_of t) ps @ packet_pages (body (tr_track t)) ht 0 (serial_of t) (trk_pageIndex (tr_track t)) True"

lemma each_track_writes:
  assumes "on_output d ps" "list_all (\<lambda>t. track_state rw ps (tr_track t)) ts" "distinct (map serial_of ts)"
  shows "\<exists>ts' d' qs. each_track (\<lambda>t. writePage rw generateChecksumTable (body t) ht 0 t) ts d = (None, ts', d') \<and>
    on_output d' (ps @ qs) \<and> list_all2 (wrote rw body ht ps (ps @ qs)) ts ts' \<and> (\<forall>s. s \<notin> serial_of ` set ts \<longrightarrow> own s qs = []) \<and>
    can_close d' = can_close d"
  using assms
proof (induction ts arbitrary: d ps)
  case Nil
  then show ?case by (intro exI[of _ "[]"] exI[of _ d]) simp
next
  case (Cons t ts)
  let ?s = "serial_of t"
  let ?pgs = "packet_pages (body (tr_track t)) ht 0 ?s (trk_pageIndex (tr_track t)) True"
  have ow: "own s ?pgs = (if s = ?s then ?pgs else [])" for s using packet_pages_ok by (intro own_all) blast
  obtain k d1 where 1: "writePage rw generateChecksumTable (body (tr_track t)) ht 0 (tr_track t) d = (None, k, d1)"
    "on_output d1 (ps @ ?pgs)" "track_state rw (ps @ ?pgs) k" "same_track (tr_track t) k"
    "previousGranulePosition k = previousGranulePosition (tr_track t)" "can_close d1 = can_close d"
    using writePage_among[OF Cons.prems(1), of rw "tr_track t" "body (tr_track t)" ht 0] Cons.prems(2) by auto
  have "?s \<notin> serial_of ` set ts" using Cons.prems(3) by simp
  then have ne: "serial_of u \<noteq> ?s" if "u \<in> set ts" for u using imageI[OF that, of serial_of] by metis
  have st: "list_all (\<lambda>t. track_state rw (ps @ ?pgs) (tr_track t)) ts"
    unfolding list_all_iff
  proof
    fix u assume u: "u \<in> set ts"
    show "track_state rw (ps @ ?pgs) (tr_track u)" using Cons.prems(2) u ow ne[OF u] by (intro track_state_other) (auto simp: list_all_iff)
  qed
  obtain ts' d' qs where 2: "each_track (\<lambda>t. writePage rw generateChecksumTable (body t) ht 0 t) ts d1 = (None, ts', d')"
    "on_output d' ((ps @ ?pgs) @ qs)" "list_all2 (wrote rw body ht (ps @ ?pgs) ((ps @ ?pgs) @ qs)) ts ts'"
    "\<forall>s. s \<notin> serial_of ` set ts \<longrightarrow> own s qs = []" "can_close d' = can_close d1"
    using Cons.IH[OF 1(2) st] Cons.prems(3) by auto
  have q: "own ?s qs = []" using 2(4)[rule_format, of ?s] \<open>?s \<notin> serial_of ` set ts\<close> by blast
  have w1: "wrote rw body ht ps (ps @ ?pgs @ qs) t (t\<lparr>tr_track := k\<rparr>)"
    using 1(3-5) q ow track_state_other[OF 1(3), of qs] by (simp add: wrote_def same_track_def)
  have w2: "list_all2 (wrote rw body ht ps (ps @ ?pgs @ qs)) ts ts'"
    using 2(3)
  proof (rule list.rel_mono_strong)
    fix u u' assume "u \<in> set ts" "wrote rw body ht (ps @ ?pgs) ((ps @ ?pgs) @ qs) u u'"
    then show "wrote rw body ht ps (ps @ ?pgs @ qs) u u'" using ow ne by (simp add: wrote_def)
  qed
  show ?case
  proof (intro exI conjI allI impI)
    show "each_track (\<lambda>t. writePage rw generateChecksumTable (body t) ht 0 t) (t # ts) d = (None, t\<lparr>tr_track := k\<rparr> # ts', d')"
      unfolding each_track.simps 1(1) prod.case option.case 2(1) ..
    show "on_output d' (ps @ ?pgs @ qs)" using 2(2) by (simp only: append_assoc)
    show "list_all2 (wrote rw body ht ps (ps @ ?pgs @ qs)) (t # ts) (t\<lparr>tr_track := k\<rparr> # ts')" using w1 w2 by (rule list.rel_intros(2))
    show "own s (?pgs @ qs) = []" if "s \<notin> serial_of ` set (t # ts)" for s using 2(4)[rule_format, of s] ow[of s] that by simp
    show "can_close d' = can_close d" using 1(6) 2(5) by simp
  qed
qed

section \<open>The invariant of the multi-track writer\<close>

definition total_samples :: "bytes list \<Rightarrow> u64" where
  "total_samples xs = fold (\<lambda>x g. g + samples x) xs 0"

lemma audio_packets_snoc:
  "audio_packets g (xs @ [x]) = audio_packets g xs @
     [(x, pageHeaderTypeContinuationOfStream, fold (\<lambda>x g. g + samples x) xs g + samples x)]"
  by (induction xs arbitrary: g) simp_all

text \<open>
  A track \<open>t\<close> that was \<open>t0\<close> when it was created and has been given the packets \<open>xs\<close>: among the
  pages of all tracks its own are those of its headers, once they are written, and of the packets.
\<close>

definition track_has :: "bool \<Rightarrow> ogg_page list \<Rightarrow> bool \<Rightarrow> Track \<Rightarrow> bytes list \<Rightarrow> Track \<Rightarrow> bool" where
  "track_has rw ps started t0 xs t \<longleftrightarrow> tr_ssrc t = tr_ssrc t0 \<and> same_track (tr_track t0) (tr_track t) \<and>
     previousGranulePosition (tr_track t) = total_samples xs \<and> track_state rw ps (tr_track t) \<and>
     own (serial_of t0) ps = stream_pages (serial_of t0) [] (if started then header_packets (tr_track t0) @ audio_packets 0 xs else []) \<and>
     (\<not> started \<longrightarrow> xs = [])"

definition mux_inv :: "Track list \<Rightarrow> (nat \<Rightarrow> bytes list) \<Rightarrow> ogg_page list \<Rightarrow> Writer \<Rightarrow> bool" where
  "mux_inv ts0 aud ps w \<longleftrightarrow> mw_open w \<and> mw_table w = generateChecksumTable \<and> on_output (mw_out w) ps \<and>
     distinct (map serial_of ts0) \<and> length (trackOrder w) = length ts0 \<and>
     (\<forall>i < length ts0. track_has (mw_rewriter w) ps (mw_started w) (ts0 ! i) (aud i) (trackOrder w ! i))"

lemma mux_serials: "mux_inv ts0 aud ps w \<Longrightarrow> map serial_of (trackOrder w) = map serial_of ts0"
  by (rule nth_equalityI) (simp_all add: mux_inv_def track_has_def same_track_def)

lemma headers_written:
  assumes "track_has rw ps False t0 xs t" "wrote rw buildIDHeader pageHeaderTypeBeginningOfStream ps ps1 t t1"
    and "wrote rw (\<lambda>t. buildCommentHeader (trk_opusTags t)) pageHeaderTypeContinuationOfStream ps1 ps2 t1 t2"
  shows "track_has rw ps2 True t0 xs t2"
proof -
  let ?s = "serial_of t0"
  have s: "serial_of t = ?s" "serial_of t1 = ?s" "trk_opusTags (tr_track t1) = trk_opusTags (tr_track t0)"
    "buildIDHeader (tr_track t) = buildIDHeader (tr_track t0)"
    using assms by (simp_all add: track_has_def wrote_def same_track_def)
  have 0: "own ?s ps = []" "trk_pageIndex (tr_track t) = 0" "xs = []" "total_samples xs = 0"
    using assms(1) s(1) by (simp_all add: track_has_def track_state_def total_samples_def)
  have 1: "own ?s ps1 = packet_pages (buildIDHeader (tr_track t0)) pageHeaderTypeBeginningOfStream 0 ?s 0 True"
    using assms(2) 0(1,2) unfolding wrote_def s by simp
  have 2: "trk_pageIndex (tr_track t1) = of_nat (length (own ?s ps1))"
    using assms(2) s by (simp add: wrote_def track_state_def)
  have "own ?s ps2 = stream_pages ?s [] (header_packets (tr_track t0))"
    using assms(3) unfolding wrote_def s 2 by (simp add: 1 header_packets_def)
  then show ?thesis using assms 0(3) by (auto simp: track_has_def wrote_def intro: same_track_trans)
qed

lemma writeTrackID_fun: "writeTrackIDHeader rw table = (\<lambda>t. writePage rw table (buildIDHeader t) pageHeaderTypeBeginningOfStream 0 t)"
  and writeTrackComment_fun: "writeTrackCommentHeader rw table =
    (\<lambda>t. writePage rw table (buildCommentHeader (trk_opusTags t)) pageHeaderTypeContinuationOfStream 0 t)"
  by (intro ext, simp add: writeTrackIDHeader_def, intro ext, simp add: writeTrackCommentHeader_def)

lemma startLocked_inv:
  assumes "mux_inv ts0 aud ps w"
  shows "\<exists>w' ps'. startLocked w = (None, w') \<and> mux_inv ts0 aud ps' w' \<and> mw_started w' \<and> mw_rewriter w' = mw_rewriter w \<and>
    can_close (mw_out w') = can_close (mw_out w)"
proof (cases "mw_started w")
  case True
  then show ?thesis using assms by (auto simp: startLocked_def)
next
  case False
  let ?rw = "mw_rewriter w" and ?ts = "trackOrder w"
  have inv: "mw_open w" "mw_table w = generateChecksumTable" "on_output (mw_out w) ps" "distinct (map serial_of ts0)" "length ?ts = length ts0"
    "\<And>i. i < length ts0 \<Longrightarrow> track_has ?rw ps False (ts0 ! i) (aud i) (?ts ! i)"
    using assms False by (simp_all add: mux_inv_def)
  have d: "distinct (map serial_of ?ts)" using inv(4) mux_serials[OF assms] by simp
  have st: "list_all (\<lambda>t. track_state ?rw ps (tr_track t)) ?ts" using inv(5,6) by (simp add: list_all_length track_has_def)
  obtain ts1 d1 qs where 1: "each_track (writeTrackIDHeader ?rw generateChecksumTable) ?ts (mw_out w) = (None, ts1, d1)"
    "on_output d1 (ps @ qs)" "list_all2 (wrote ?rw buildIDHeader pageHeaderTypeBeginningOfStream ps (ps @ qs)) ?ts ts1"
    "can_close d1 = can_close (mw_out w)"
    using each_track_writes[OF inv(3) st d, of buildIDHeader] unfolding writeTrackID_fun by blast
  have st1: "list_all (\<lambda>t. track_state ?rw (ps @ qs) (tr_track t)) ts1"
    using 1(3) by (auto simp: list_all_length list_all2_conv_all_nth wrote_def)
  have "map serial_of ts1 = map serial_of ?ts" using 1(3) by (auto simp: list_all2_conv_all_nth wrote_def same_track_def intro!: nth_equalityI)
  then have d1: "distinct (map serial_of ts1)" using d by metis
  obtain ts2 d2 qs2 where 2: "each_track (writeTrackCommentHeader ?rw generateChecksumTable) ts1 d1 = (None, ts2, d2)"
    "on_output d2 ((ps @ qs) @ qs2)"
    "list_all2 (wrote ?rw (\<lambda>t. buildCommentHeader (trk_opusTags t)) pageHeaderTypeContinuationOfStream (ps @ qs) ((ps @ qs) @ qs2)) ts1 ts2"
    "can_close d2 = can_close d1"
    using each_track_writes[OF 1(2) st1 d1, of "\<lambda>t. buildCommentHeader (trk_opusTags t)"] unfolding writeTrackComment_fun by blast
  let ?w = "w\<lparr>trackOrder := ts2, mw_out := d2, mw_started := True\<rparr>"
  have "startLocked w = (None, ?w)" using False 1(1) 2(1) inv(2) by (simp add: startLocked_def)
  moreover have "mux_inv ts0 aud ((ps @ qs) @ qs2) ?w"
  proof -
    have l: "length ts1 = length ts0" "length ts2 = length ts0" using 1(3) 2(3) inv(5) by (simp_all add: list_all2_lengthD)
    have "track_has ?rw ((ps @ qs) @ qs2) True (ts0 ! i) (aud i) (ts2 ! i)" if i: "i < length ts0" for i
      using headers_written[OF inv(6)[OF i]] list_all2_nthD[OF 1(3), of i] list_all2_nthD[OF 2(3), of i] i l inv(5) by simp
    then show ?thesis using inv(1,2,4) 2(2) l unfolding mux_inv_def by simp
  qed
  ultimately show ?thesis using 1(4) 2(4) by (intro exI[of _ ?w] exI[of _ "(ps @ qs) @ qs2"]) simp
qed

text \<open>Writing one page sequence on one track leaves the other tracks as they are.\<close>

lemma mux_inv_write:
  assumes "mux_inv ts0 aud ps w" "mw_started w" "i < length ts0" "opusPacketSampleCount x = Inr n"
  shows "\<exists>k d ps'. writeOpusPayload (mw_rewriter w) (mw_table w) x (tr_track (trackOrder w ! i)) (mw_out w) = (None, k, d) \<and>
    mux_inv ts0 (aud(i := aud i @ [x])) ps' (w\<lparr>trackOrder := (trackOrder w)[i := (trackOrder w ! i)\<lparr>tr_track := k\<rparr>], mw_out := d\<rparr>) \<and>
    can_close d = can_close (mw_out w)"
proof -
  let ?rw = "mw_rewriter w" and ?t = "trackOrder w ! i"
  have inv: "mw_open w" "mw_table w = generateChecksumTable" "on_output (mw_out w) ps" "distinct (map serial_of ts0)"
    "length (trackOrder w) = length ts0"
    "\<And>j. j < length ts0 \<Longrightarrow> track_has ?rw ps True (ts0 ! j) (aud j) (trackOrder w ! j)"
    using assms(1,2) by (simp_all add: mux_inv_def)
  define s where "s = serial_of (ts0 ! i)"
  define g where "g = total_samples (aud i) + n"
  have t: "track_state ?rw ps (tr_track ?t)" "serial_of ?t = s" "previousGranulePosition (tr_track ?t) = total_samples (aud i)"
    "same_track (tr_track (ts0 ! i)) (tr_track ?t)" "tr_ssrc ?t = tr_ssrc (ts0 ! i)"
    "own s ps = stream_pages s [] (header_packets (tr_track (ts0 ! i)) @ audio_packets 0 (aud i))"
    using inv(6)[OF assms(3)] by (auto simp: track_has_def same_track_def s_def)
  have idx: "trk_pageIndex (tr_track ?t) = of_nat (length (own s ps))" using t(1,2) by (simp add: track_state_def)
  define t1 where "t1 = (tr_track ?t)\<lparr>previousGranulePosition := g\<rparr>"
  define pgs where "pgs = packet_pages x pageHeaderTypeContinuationOfStream g s (of_nat (length (own s ps))) True"
  have t1: "track_state ?rw ps t1" "trk_serial t1 = s" "trk_pageIndex t1 = of_nat (length (own s ps))" "previousGranulePosition t1 = g"
    "same_track (tr_track ?t) t1"
    using t(1,2) idx by (simp_all add: t1_def same_track_def buildIDHeader_def)
  obtain k d where w: "writePage ?rw generateChecksumTable x pageHeaderTypeContinuationOfStream g t1 (mw_out w) = (None, k, d)"
    "on_output d (ps @ pgs)" "track_state ?rw (ps @ pgs) k" "same_track t1 k" "previousGranulePosition k = g"
    "can_close d = can_close (mw_out w)"
    using writePage_among[OF inv(3) t1(1), of x pageHeaderTypeContinuationOfStream g] unfolding t1(2-4) pgs_def[symmetric] by blast
  have ow: "own s' pgs = (if s' = s then pgs else [])" for s' unfolding pgs_def using packet_pages_ok by (intro own_all) blast
  have "writeOpusPayload ?rw (mw_table w) x (tr_track ?t) (mw_out w) = (None, k, d)"
    using w(1) assms(4) t(3) inv(2) by (simp add: writeOpusPayload_def g_def t1_def)
  moreover have "track_has ?rw (ps @ pgs) True (ts0 ! j) ((aud(i := aud i @ [x])) j) (((trackOrder w)[i := ?t\<lparr>tr_track := k\<rparr>]) ! j)"
    if j: "j < length ts0" for j
  proof (cases "j = i")
    case True
    have sg: "total_samples (aud i) + samples x = g" using assms(4) by (simp add: samples_def g_def)
    have "own s (ps @ pgs) = stream_pages s [] (header_packets (tr_track (ts0 ! i)) @ audio_packets 0 (aud i @ [x]))"
      using ow[of s] t(6) sg unfolding pgs_def
      by (simp add: audio_packets_snoc stream_pages_append total_samples_def)
    moreover have "same_track (tr_track (ts0 ! i)) k" using t(4) t1(5) w(4) by (blast intro: same_track_trans)
    moreover have "total_samples (aud i @ [x]) = g" using sg by (simp add: total_samples_def)
    ultimately show ?thesis using True j inv(5) t(5) w(3,5) by (simp add: track_has_def s_def)
  next
    case False
    have "serial_of (ts0 ! j) \<noteq> s" using inv(4) False j assms(3) by (simp add: s_def distinct_conv_nth)
    then have e: "own (serial_of (ts0 ! j)) pgs = []" using ow by simp
    then show ?thesis using False inv(6)[OF j] track_state_other[of ?rw ps "tr_track (trackOrder w ! j)" pgs]
      by (simp add: track_has_def same_track_def)
  qed
  ultimately show ?thesis using inv w(2,6) assms(2)
    by (intro exI[of _ k] exI[of _ d] exI[of _ "ps @ pgs"]) (simp add: mux_inv_def)
qed

lemma track_WriteRTP_inv:
  assumes "mux_inv ts0 aud ps w" "i < length ts0" "rtp_SSRC p = tr_ssrc (ts0 ! i)" "opus_payloads opus [p] = Some xs"
  shows "\<exists>w' ps'. track_WriteRTP opus i (Some p) w = (None, w') \<and> mux_inv ts0 (aud(i := aud i @ xs)) ps' w' \<and>
    mw_rewriter w' = mw_rewriter w \<and> can_close (mw_out w') = can_close (mw_out w)"
proof -
  have o: "mw_open w" "tr_ssrc (trackOrder w ! i) = tr_ssrc (ts0 ! i)" using assms(1,2) by (simp_all add: mux_inv_def track_has_def)
  show ?thesis
  proof (cases "rtp_Payload p = []")
    case True
    then have "track_WriteRTP opus i (Some p) w = (None, w)" "xs = []"
      using o assms(3,4) by (simp_all add: track_WriteRTP_def opusPayloadFromPacket_def)
    then show ?thesis using assms(1) by auto
  next
    case False
    then obtain x n where x: "opus (rtp_Payload p) = Inr x" "opusPacketSampleCount x = Inr n" "xs = [x]"
      using assms(4) by (auto split: sum.splits)
    obtain w1 ps1 where 1: "startLocked w = (None, w1)" "mux_inv ts0 aud ps1 w1" "mw_started w1" "mw_rewriter w1 = mw_rewriter w"
      "can_close (mw_out w1) = can_close (mw_out w)"
      using startLocked_inv[OF assms(1)] by blast
    obtain k d ps2 where 2: "writeOpusPayload (mw_rewriter w1) (mw_table w1) x (tr_track (trackOrder w1 ! i)) (mw_out w1) = (None, k, d)"
      "mux_inv ts0 (aud(i := aud i @ [x])) ps2 (w1\<lparr>trackOrder := (trackOrder w1)[i := (trackOrder w1 ! i)\<lparr>tr_track := k\<rparr>], mw_out := d\<rparr>)"
      "can_close d = can_close (mw_out w1)"
      using mux_inv_write[OF 1(2,3) assms(2) x(2)] by blast
    show ?thesis using False o assms(3) x 1 2 by (auto simp: track_WriteRTP_def opusPayloadFromPacket_def)
  qed
qed

fun run_tracks :: "(bytes \<Rightarrow> nat + bytes) \<Rightarrow> (nat \<times> opus_rtp) list \<Rightarrow> Writer \<Rightarrow> oggw_error option \<times> Writer" where
  "run_tracks opus [] w = (None, w)"
| "run_tracks opus ((i, p) # cs) w = (case track_WriteRTP opus i (Some p) w of
     (Some e, w1) \<Rightarrow> (Some e, w1) | (None, w1) \<Rightarrow> run_tracks opus cs w1)"

text \<open>The payloads among the calls that go to track \<open>i\<close>.\<close>

definition track_payloads :: "(bytes \<Rightarrow> nat + bytes) \<Rightarrow> (nat \<times> opus_rtp) list \<Rightarrow> nat \<Rightarrow> bytes list" where
  "track_payloads opus calls i = (case opus_payloads opus (map snd (filter (\<lambda>c. fst c = i) calls)) of Some xs \<Rightarrow> xs | None \<Rightarrow> [])"

definition calls_ok :: "(bytes \<Rightarrow> nat + bytes) \<Rightarrow> Track list \<Rightarrow> (nat \<times> opus_rtp) list \<Rightarrow> bool" where
  "calls_ok opus ts calls \<longleftrightarrow> list_all (\<lambda>(i, p). i < length ts \<and> rtp_SSRC p = tr_ssrc (ts ! i) \<and> opus_payloads opus [p] \<noteq> None) calls"

lemma opus_payloads_Cons:
  "opus_payloads opus [p] = Some xs \<Longrightarrow> opus_payloads opus ps = Some ys \<Longrightarrow> opus_payloads opus (p # ps) = Some (xs @ ys)"
  by (auto split: if_splits sum.splits)

lemma opus_payloads_defined:
  "list_all (\<lambda>p. opus_payloads opus [p] \<noteq> None) ps \<Longrightarrow> \<exists>xs. opus_payloads opus ps = Some xs"
proof (induction ps)
  case (Cons p ps)
  then show ?case using opus_payloads_Cons[of opus p _ ps] by (auto simp del: opus_payloads.simps)
qed simp

lemma track_payloads_Cons:
  assumes "calls_ok opus ts ((i, p) # cs)" "opus_payloads opus [p] = Some xs"
  shows "track_payloads opus ((i, p) # cs) = (track_payloads opus cs)(i := xs @ track_payloads opus cs i)"
proof
  fix j
  have "list_all (\<lambda>p. opus_payloads opus [p] \<noteq> None) (map snd (filter (\<lambda>c. fst c = j) cs))"
    using assms(1) by (auto simp: calls_ok_def list_all_iff simp del: opus_payloads.simps)
  then obtain ys where "opus_payloads opus (map snd (filter (\<lambda>c. fst c = j) cs)) = Some ys" using opus_payloads_defined by blast
  then show "track_payloads opus ((i, p) # cs) j = ((track_payloads opus cs)(i := xs @ track_payloads opus cs i)) j"
    using opus_payloads_Cons[OF assms(2)] by (auto simp: track_payloads_def simp del: opus_payloads.simps)
qed

lemma run_tracks_inv:
  assumes "mux_inv ts0 aud ps w" "calls_ok opus ts0 calls"
  shows "\<exists>w' ps'. run_tracks opus calls w = (None, w') \<and> mux_inv ts0 (\<lambda>i. aud i @ track_payloads opus calls i) ps' w' \<and>
    mw_rewriter w' = mw_rewriter w \<and> can_close (mw_out w') = can_close (mw_out w)"
  using assms
proof (induction calls arbitrary: aud ps w)
  case Nil
  then show ?case by (auto simp: track_payloads_def)
next
  case (Cons c cs)
  obtain i p where c: "c = (i, p)" by fastforce
  obtain xs where xs: "opus_payloads opus [p] = Some xs" and ok: "i < length ts0" "rtp_SSRC p = tr_ssrc (ts0 ! i)" "calls_ok opus ts0 cs"
    using Cons.prems(2) by (auto simp: calls_ok_def c simp del: opus_payloads.simps)
  obtain w1 ps1 where 1: "track_WriteRTP opus i (Some p) w = (None, w1)" "mux_inv ts0 (aud(i := aud i @ xs)) ps1 w1"
    "mw_rewriter w1 = mw_rewriter w" "can_close (mw_out w1) = can_close (mw_out w)"
    using track_WriteRTP_inv[OF Cons.prems(1) ok(1,2) xs] by blast
  have "(\<lambda>j. (aud(i := aud i @ xs)) j @ track_payloads opus cs j) = (\<lambda>j. aud j @ track_payloads opus (c # cs) j)"
    using track_payloads_Cons[OF Cons.prems(2)[unfolded c] xs] by (auto simp: c)
  then show ?case using Cons.IH[OF 1(2) ok(3)] 1 by (auto simp: c)
qed

section \<open>Closing\<close>

lemma own_update:
  assumes "k < length ps" "p_serial (ps ! k) \<noteq> s" "p_serial q \<noteq> s"
  shows "own s (ps[k := q]) = own s ps"
proof -
  have "own s ps = own s (take k ps @ [ps ! k] @ drop (Suc k) ps)" using assms(1) by (simp add: id_take_nth_drop[symmetric])
  also have "\<dots> = own s (take k ps) @ own s (drop (Suc k) ps)" using assms(2) unfolding own_append by (simp add: own_def)
  finally have "own s ps = own s (take k ps) @ own s (drop (Suc k) ps)" .
  moreover have "own s (ps[k := q]) = own s (take k ps) @ own s (drop (Suc k) ps)"
    using assms(1,3) by (simp add: upd_conv_take_nth_drop own_def)
  ultimately show ?thesis by simp
qed

lemma offset_update:
  assumes "length (page_bytes q) = length (page_bytes (ps ! k))" "k < length ps"
  shows "offset_of (ps[k := q]) i = offset_of ps i"
proof -
  have "map (length \<circ> page_bytes) (ps[k := q]) = map (length \<circ> page_bytes) ps"
    using assms list_update_id[of "map (length \<circ> page_bytes) ps" k] by (simp add: map_update)
  moreover have "offset_of xs i = sum_list (take i (map (length \<circ> page_bytes) xs))" for xs
    by (simp add: offset_of_def length_concat comp_def take_map)
  ultimately show ?thesis by simp
qed

lemma eos_page: "p_serial (eos p) = p_serial p" "length (page_bytes (eos p)) = length (page_bytes p)" "page_ok (eos p) = page_ok p"
  by (simp_all add: eos_def length_page_bytes page_ok_def)

text \<open>Marking the last page of one track.\<close>

lemma mark_one:
  assumes "on_output d ps" "track_state True ps t" "own (trk_serial t) ps \<noteq> []"
  shows "\<exists>d' k. markTrackEndOfStream generateChecksumTable t d = (None, d') \<and> k < length ps \<and> p_serial (ps ! k) = trk_serial t \<and>
    on_output d' (ps[k := eos (ps ! k)]) \<and> own (trk_serial t) (ps[k := eos (ps ! k)]) = closing_pages True (own (trk_serial t) ps) \<and>
    can_close d' = can_close d"
proof -
  let ?s = "trk_serial t"
  obtain k where k: "k < length ps" "remembers t (ps ! k) (offset_of ps k)" "own ?s (drop (Suc k) ps) = []"
    using assms(2,3) by (auto simp: track_state_def)
  have s: "p_serial (ps ! k) = ?s" using k(2) by (simp add: remembers_def)
  have split: "ps = take k ps @ [ps ! k] @ drop (Suc k) ps" using k(1) by (simp add: id_take_nth_drop)
  have d: "healthy d" "content d = concat (map page_bytes ps)" "list_all page_ok ps" using assms(1) by (simp_all add: on_output_def)
  have c: "content d = concat (map page_bytes (take k ps)) @ page_bytes (ps ! k) @ concat (map page_bytes (drop (Suc k) ps))"
    unfolding d(2) by (subst split) (simp only: map_append concat_append list.map concat.simps append_Nil2)
  obtain d' where d': "markTrackEndOfStream generateChecksumTable t d = (None, d')" "healthy d'"
    "content d' = concat (map page_bytes (take k ps)) @ page_bytes (eos (ps ! k)) @ concat (map page_bytes (drop (Suc k) ps))"
    "can_close d' = can_close d"
    using markTrackEndOfStream_healthy[OF k(2)[unfolded offset_of_def] c d(1)] by blast
  have u: "ps[k := eos (ps ! k)] = take k ps @ [eos (ps ! k)] @ drop (Suc k) ps" using k(1) by (simp add: upd_conv_take_nth_drop)
  have "own ?s ps = own ?s (take k ps) @ [ps ! k]"
  proof -
    have "own ?s ps = own ?s (take k ps) @ own ?s [ps ! k] @ own ?s (drop (Suc k) ps)" using split by (metis own_append)
    then show ?thesis using k(3) s by (simp add: own_def)
  qed
  moreover have "own ?s (ps[k := eos (ps ! k)]) = own ?s (take k ps) @ [eos (ps ! k)]"
    using k(3) s unfolding u by (simp add: own_def eos_page)
  moreover have "on_output d' (ps[k := eos (ps ! k)])"
  proof -
    have "page_ok (ps ! k)" using d(3) k(1) by (simp add: list_all_length)
    then have "list_all page_ok (ps[k := eos (ps ! k)])" using d(3) set_update_subset_insert[of ps k "eos (ps ! k)"]
      by (auto simp: list_all_iff eos_page)
    then show ?thesis using d'(2,3) unfolding on_output_def u by simp
  qed
  ultimately show ?thesis using d'(1,4) k(1) s by (auto simp: closing_pages_def)
qed

lemma track_state_marked:
  assumes "track_state rw ps u" "k < length ps" "p_serial (ps ! k) \<noteq> trk_serial u"
  shows "track_state rw (ps[k := eos (ps ! k)]) u"
proof -
  have o: "own (trk_serial u) (ps[k := eos (ps ! k)]) = own (trk_serial u) ps"
    using assms(2,3) by (intro own_update) (simp_all add: eos_page)
  have "\<exists>i < length ps. remembers u ((ps[k := eos (ps ! k)]) ! i) (offset_of (ps[k := eos (ps ! k)]) i) \<and>
      own (trk_serial u) (drop (Suc i) (ps[k := eos (ps ! k)])) = []"
    if "i < length ps" "remembers u (ps ! i) (offset_of ps i)" "own (trk_serial u) (drop (Suc i) ps) = []" for i
  proof -
    have "i \<noteq> k" using that(2) assms(3) by (auto simp: remembers_def)
    moreover have "own (trk_serial u) (drop (Suc i) (ps[k := eos (ps ! k)])) = []"
    proof (cases "Suc i \<le> k")
      case True
      then have "drop (Suc i) (ps[k := eos (ps ! k)]) = (drop (Suc i) ps)[k - Suc i := eos (ps ! k)]" by (simp add: drop_update_swap)
      moreover have "own (trk_serial u) ((drop (Suc i) ps)[k - Suc i := eos (ps ! k)]) = own (trk_serial u) (drop (Suc i) ps)"
        using True assms(2,3) by (intro own_update) (simp_all add: eos_page)
      ultimately show ?thesis using that(3) by simp
    qed (use that in simp)
    ultimately show ?thesis using that(1,2) offset_update[OF eos_page(2) assms(2), of i] by (intro exI[of _ i]) simp
  qed
  then show ?thesis using assms(1) unfolding track_state_def o by auto
qed

lemma mark_all_ends:
  assumes "on_output d ps" "list_all (\<lambda>t. track_state True ps (tr_track t) \<and> own (serial_of t) ps \<noteq> []) ts" "distinct (map serial_of ts)"
  shows "\<exists>d' ps'. mark_all generateChecksumTable ts err d = (err, d') \<and> on_output d' ps' \<and> can_close d' = can_close d \<and>
    (\<forall>t \<in> set ts. own (serial_of t) ps' = closing_pages True (own (serial_of t) ps)) \<and>
    (\<forall>s. s \<notin> serial_of ` set ts \<longrightarrow> own s ps' = own s ps)"
  using assms
proof (induction ts arbitrary: d ps)
  case Nil
  then show ?case by auto
next
  case (Cons t ts)
  obtain d1 k where 1: "markTrackEndOfStream generateChecksumTable (tr_track t) d = (None, d1)" "k < length ps"
    "p_serial (ps ! k) = serial_of t" "on_output d1 (ps[k := eos (ps ! k)])"
    "own (serial_of t) (ps[k := eos (ps ! k)]) = closing_pages True (own (serial_of t) ps)" "can_close d1 = can_close d"
    using mark_one[OF Cons.prems(1), of "tr_track t"] Cons.prems(2) by auto
  define ps1 where "ps1 = ps[k := eos (ps ! k)]"
  have ns: "serial_of t \<notin> serial_of ` set ts" using Cons.prems(3) by simp
  then have ne: "serial_of u \<noteq> serial_of t" if "u \<in> set ts" for u using imageI[OF that, of serial_of] by metis
  have ot: "own s ps1 = own s ps" if "s \<noteq> serial_of t" for s
    unfolding ps1_def using 1(2,3) that by (intro own_update) (simp_all add: eos_page)
  have "list_all (\<lambda>t. track_state True ps1 (tr_track t) \<and> own (serial_of t) ps1 \<noteq> []) ts"
    unfolding list_all_iff
  proof
    fix u assume u: "u \<in> set ts"
    then have "track_state True ps (tr_track u) \<and> own (serial_of u) ps \<noteq> []" using Cons.prems(2) by (simp add: list_all_iff)
    then show "track_state True ps1 (tr_track u) \<and> own (serial_of u) ps1 \<noteq> []"
      using track_state_marked[OF _ 1(2), of True "tr_track u"] ne[OF u] 1(3) ot[OF ne[OF u]] by (simp add: ps1_def)
  qed
  then obtain d' ps' where 2: "mark_all generateChecksumTable ts err d1 = (err, d')" "on_output d' ps'" "can_close d' = can_close d1"
    "\<forall>t \<in> set ts. own (serial_of t) ps' = closing_pages True (own (serial_of t) ps1)"
    "\<forall>s. s \<notin> serial_of ` set ts \<longrightarrow> own s ps' = own s ps1"
    using Cons.IH[OF 1(4)[folded ps1_def]] Cons.prems(3) by auto
  have "own (serial_of t) ps' = closing_pages True (own (serial_of t) ps)" using 2(5) ns 1(5) by (simp add: ps1_def)
  then show ?case using 1(1,6) 2 ot ne by (intro exI[of _ d'] exI[of _ ps']) auto
qed

definition nil_page :: "u32 \<Rightarrow> u64 \<Rightarrow> u32 \<Rightarrow> ogg_page" where
  "nil_page s g idx = \<lparr>p_type = pageHeaderTypeEndOfStream, p_granule = g, p_serial = s, p_index = idx, p_segments = [], p_payload = []\<rparr>"

definition nil_pages :: "oggTrack \<Rightarrow> ogg_page list" where
  "nil_pages t = (if trk_pageIndex t = 0 then [] else [nil_page (trk_serial t) (previousGranulePosition t) (trk_pageIndex t)])"

lemma nil_page_ok: "page_ok (nil_page s g idx)"
  by (simp add: page_ok_def nil_page_def)

lemma own_nil_pages: "own s (nil_pages t) = (if s = trk_serial t then nil_pages t else [])"
  by (auto simp: own_def nil_pages_def nil_page_def)

lemma write_nil:
  assumes "on_output d ps"
  shows "\<exists>k d'. writeNilEndOfStreamPage generateChecksumTable t d = (None, k, d') \<and> on_output d' (ps @ nil_pages t) \<and>
    can_close d' = can_close d"
proof (cases "trk_pageIndex t = 0")
  case True
  then show ?thesis using assms by (simp add: writeNilEndOfStreamPage_def nil_pages_def)
next
  case False
  let ?p = "nil_page (trk_serial t) (previousGranulePosition t) (trk_pageIndex t)"
  have b: "createPageForSerialWithSegments generateChecksumTable [] [] pageHeaderTypeEndOfStream (previousGranulePosition t) (trk_serial t)
      (trk_pageIndex t) = page_bytes ?p" by (simp add: page_bytes_def nil_page_def)
  obtain d' where "oggw_Write (page_bytes ?p) d = (None, d')" "grown d (page_bytes ?p) d'"
    using Write_grown assms by (auto simp: on_output_def)
  then show ?thesis using False assms unfolding writeNilEndOfStreamPage_def b
    by (auto simp: on_output_def grown_def nil_pages_def nil_page_ok)
qed

lemma nil_all_ends:
  assumes "on_output d ps" "distinct (map serial_of ts)"
  shows "\<exists>ts' d' qs. nil_all generateChecksumTable ts err d = (err, ts', d') \<and> on_output d' (ps @ qs) \<and> can_close d' = can_close d \<and>
    (\<forall>t \<in> set ts. own (serial_of t) qs = nil_pages (tr_track t)) \<and> (\<forall>s. s \<notin> serial_of ` set ts \<longrightarrow> own s qs = [])"
  using assms
proof (induction ts arbitrary: d ps)
  case Nil
  then show ?case by (intro exI[of _ "[]"] exI[of _ d]) simp
next
  case (Cons t ts)
  let ?n = "nil_pages (tr_track t)"
  obtain k d1 where 1: "writeNilEndOfStreamPage generateChecksumTable (tr_track t) d = (None, k, d1)" "on_output d1 (ps @ ?n)"
    "can_close d1 = can_close d" using write_nil[OF Cons.prems(1)] by blast
  obtain ts' d' qs where 2: "nil_all generateChecksumTable ts err d1 = (err, ts', d')" "on_output d' ((ps @ ?n) @ qs)"
    "can_close d' = can_close d1" "\<forall>t \<in> set ts. own (serial_of t) qs = nil_pages (tr_track t)"
    "\<forall>s. s \<notin> serial_of ` set ts \<longrightarrow> own s qs = []"
    using Cons.IH[OF 1(2)] Cons.prems(2) by auto
  have ns: "serial_of t \<notin> serial_of ` set ts" using Cons.prems(2) by simp
  then have ne: "serial_of u \<noteq> serial_of t" if "u \<in> set ts" for u using imageI[OF that, of serial_of] by metis
  show ?case
  proof (intro exI conjI)
    show "nil_all generateChecksumTable (t # ts) err d = (err, t\<lparr>tr_track := k\<rparr> # ts', d')" using 1(1) 2(1) by simp
    show "on_output d' (ps @ ?n @ qs)" using 2(2) by simp
    show "can_close d' = can_close d" using 1(3) 2(3) by simp
    show "\<forall>u \<in> set (t # ts). own (serial_of u) (?n @ qs) = nil_pages (tr_track u)"
      using 2(4) 2(5)[rule_format, OF ns] ne by (simp add: own_nil_pages)
    show "\<forall>s. s \<notin> serial_of ` set (t # ts) \<longrightarrow> own s (?n @ qs) = []" using 2(5) by (simp add: own_nil_pages)
  qed
qed

text \<open>The pages of one track after closing.\<close>

definition ended :: "bool \<Rightarrow> u32 \<Rightarrow> u64 \<Rightarrow> ogg_page list \<Rightarrow> ogg_page list" where
  "ended rw s g xs = (if rw then closing_pages True xs
     else if of_nat (length xs) = (0 :: u32) then xs else xs @ [nil_page s g (of_nat (length xs))])"

definition track_pages :: "oggTrack \<Rightarrow> bytes list \<Rightarrow> ogg_page list" where
  "track_pages t xs = stream_pages (trk_serial t) [] (header_packets t @ audio_packets 0 xs)"

lemma track_pages_nonempty: "track_pages t xs \<noteq> []"
proof -
  have "stream_pages s ps ys = [] \<Longrightarrow> ps = []" for s ps ys
    by (induction s ps ys rule: stream_pages.induct) auto
  then show ?thesis using packet_pages_nonempty by (fastforce simp: track_pages_def header_packets_def)
qed

lemma ogg_Close_inv:
  assumes "mux_inv ts0 aud ps w"
  shows "\<exists>w' ps'. ogg_Close w = (None, w') \<and> \<not> mw_open w' \<and> content (mw_out w') = concat (map page_bytes ps') \<and> list_all page_ok ps' \<and>
    (can_close (mw_out w) \<longrightarrow> closed (mw_out w')) \<and>
    (\<forall>i < length ts0. own (serial_of (ts0 ! i)) ps' =
       ended (mw_rewriter w) (serial_of (ts0 ! i)) (total_samples (aud i)) (track_pages (tr_track (ts0 ! i)) (aud i)))"
proof -
  obtain w1 ps1 where 1: "startLocked w = (None, w1)" "mux_inv ts0 aud ps1 w1" "mw_started w1" "mw_rewriter w1 = mw_rewriter w"
    "can_close (mw_out w1) = can_close (mw_out w)"
    using startLocked_inv[OF assms] by blast
  let ?ts = "trackOrder w1" and ?rw = "mw_rewriter w"
  have inv: "mw_table w1 = generateChecksumTable" "on_output (mw_out w1) ps1" "length ?ts = length ts0" "distinct (map serial_of ?ts)"
    using 1(2) mux_serials[OF 1(2)] by (simp_all add: mux_inv_def)
  have th: "track_state ?rw ps1 (tr_track (?ts ! i))" "serial_of (?ts ! i) = serial_of (ts0 ! i)"
    "own (serial_of (ts0 ! i)) ps1 = track_pages (tr_track (ts0 ! i)) (aud i)" "previousGranulePosition (tr_track (?ts ! i)) = total_samples (aud i)"
    if "i < length ts0" for i
    using 1(2-4) that by (simp_all add: mux_inv_def track_has_def same_track_def track_pages_def)
  have close: "Close d = (None :: oggw_error option, d\<lparr>closed := True, plan := tl (plan d)\<rparr>)" if "healthy d" for d
    using that by (simp add: Close_def)
  obtain ts d ps' where e: "(if ?rw
        then (case mark_all (mw_table w1) ?ts None (mw_out w1) of (e, d) \<Rightarrow> (e, ?ts, d))
        else nil_all (mw_table w1) ?ts None (mw_out w1)) = (None, ts, d)"
    "on_output d ps'" "can_close d = can_close (mw_out w)"
    "\<And>i. i < length ts0 \<Longrightarrow> own (serial_of (ts0 ! i)) ps' =
       ended ?rw (serial_of (ts0 ! i)) (total_samples (aud i)) (track_pages (tr_track (ts0 ! i)) (aud i))"
  proof (cases ?rw)
    case True
    have "list_all (\<lambda>t. track_state True ps1 (tr_track t) \<and> own (serial_of t) ps1 \<noteq> []) ?ts"
      using th True inv(3) track_pages_nonempty by (simp add: list_all_length)
    then obtain d ps' where m: "mark_all generateChecksumTable ?ts None (mw_out w1) = (None, d)" "on_output d ps'"
      "can_close d = can_close (mw_out w1)" "\<forall>t \<in> set ?ts. own (serial_of t) ps' = closing_pages True (own (serial_of t) ps1)"
      using mark_all_ends[OF inv(2) _ inv(4)] by blast
    have "own (serial_of (ts0 ! i)) ps' = closing_pages True (track_pages (tr_track (ts0 ! i)) (aud i))" if i: "i < length ts0" for i
      using bspec[OF m(4), of "?ts ! i"] th[OF i] inv(3) i by simp
    then show ?thesis using that[of ?ts d ps'] m True inv(1) 1(5) by (simp add: ended_def)
  next
    case False
    obtain ts d qs where m: "nil_all generateChecksumTable ?ts None (mw_out w1) = (None, ts, d)" "on_output d (ps1 @ qs)"
      "can_close d = can_close (mw_out w1)" "\<forall>t \<in> set ?ts. own (serial_of t) qs = nil_pages (tr_track t)"
      using nil_all_ends[OF inv(2,4)] by blast
    have "own (serial_of (ts0 ! i)) (ps1 @ qs) =
       ended ?rw (serial_of (ts0 ! i)) (total_samples (aud i)) (track_pages (tr_track (ts0 ! i)) (aud i))" if i: "i < length ts0" for i
    proof -
      have "own (serial_of (ts0 ! i)) qs = nil_pages (tr_track (?ts ! i))" using bspec[OF m(4), of "?ts ! i"] th(2)[OF i] inv(3) i by simp
      moreover have "trk_pageIndex (tr_track (?ts ! i)) = of_nat (length (track_pages (tr_track (ts0 ! i)) (aud i)))"
        using th[OF i] by (simp add: track_state_def)
      ultimately show ?thesis using False th[OF i] by (simp add: nil_pages_def ended_def)
    qed
    then show ?thesis using that[of ts d "ps1 @ qs"] m False inv(1) 1(5) by simp
  qed
  have "mw_open w" using assms by (simp add: mux_inv_def)
  moreover have "healthy d" "content d = concat (map page_bytes ps')" "list_all page_ok ps'" using e(2) by (simp_all add: on_output_def)
  ultimately show ?thesis using e(1,3,4) 1(1,4) close by (auto simp: ogg_Close_def errors_Join_def)
qed

section \<open>What a reader makes of one track\<close>

lemma stream_pages_index:
  "map p_index ps = map of_nat [0..<length ps] \<Longrightarrow>
     map p_index (stream_pages s ps xs) = map of_nat [0..<length (stream_pages s ps xs)]"
proof (induction s ps xs rule: stream_pages.induct)
  case (2 s ps payload ht gp xs)
  let ?pgs = "packet_pages payload ht gp s (of_nat (length ps)) True"
  have "map p_index ?pgs = map (\<lambda>i. of_nat (length ps) + of_nat i) [0..<length ?pgs]" by (rule packet_pages_index)
  also have "\<dots> = map of_nat [length ps..<length ps + length ?pgs]"
    by (rule nth_equalityI) simp_all
  finally have "map p_index (ps @ ?pgs) = map of_nat [0..<length (ps @ ?pgs)]" using "2.prems" by (simp add: upt_add_eq_append[of 0])
  then show ?case using "2.IH" by simp
qed simp

lemma packets_plain: "plain_packets (header_packets t @ audio_packets 0 xs)"
  using audio_plain(1)[of 0 xs]
  by (auto simp: plain_packets_def header_packets_def pageHeaderTypeBeginningOfStream_def pageHeaderTypeContinuationOfStream_def bit_0)

lemma track_pages_joined:
  "foldl join_page [] (map page_view (track_pages t xs)) = buildIDHeader t # buildCommentHeader (trk_opusTags t) # xs"
  using stream_pages_join[OF packets_plain, of "trk_serial t" "[]" t xs]
  by (auto simp: track_pages_def header_packets_def audio_plain)

lemma ended_joined: "reassemble (map page_view (ended rw s g (track_pages t xs))) = buildIDHeader t # buildCommentHeader (trk_opusTags t) # xs"
  using join_closing[OF track_pages_nonempty, of "[]" True t xs]
  by (simp add: ended_def reassemble_def track_pages_joined join_page_def page_view_def nil_page_def)

lemma closing_index: "xs \<noteq> [] \<Longrightarrow> map p_index (closing_pages True xs) = map p_index xs \<and> length (closing_pages True xs) = length xs"
  by (cases xs rule: rev_cases) (simp_all add: closing_pages_def eos_def)

lemma ended_index: "map p_index (ended rw s g (track_pages t xs)) = map of_nat [0..<length (ended rw s g (track_pages t xs))]"
proof -
  have "map p_index (track_pages t xs) = map of_nat [0..<length (track_pages t xs)]"
    unfolding track_pages_def by (rule stream_pages_index) simp
  then show ?thesis using closing_index[OF track_pages_nonempty, of t xs] by (simp add: ended_def nil_page_def)
qed

lemma ended_last: "ended rw s g (track_pages t xs) \<noteq> [] \<and>
  (bit (p_type (last (ended rw s g (track_pages t xs)))) 2 \<or> 2 ^ 32 \<le> length (ended rw s g (track_pages t xs)))"
proof -
  have "n \<noteq> 0 \<Longrightarrow> of_nat n = (0 :: u32) \<Longrightarrow> 2 ^ 32 \<le> n" for n
    using unat_u32_id[of n] by (metis not_le unsigned_0)
  moreover have "bit pageHeaderTypeEndOfStream 2" by (rule eos_bit(1))
  ultimately show ?thesis using track_pages_nonempty[of t xs] by (simp add: ended_def closing_pages_def eos_def nil_page_def bit_or_iff)
qed

lemma own_view: "filter (\<lambda>pg. Serial (snd pg) = s) (map page_view ps) = map page_view (own s ps)"
  by (simp add: own_def filter_map comp_def page_view_def)

lemma reads_pages:
  assumes "list_all page_ok ps"
  shows "\<exists>r r'. ogg_NewWithOptions (Some \<lparr>st_data = concat (map page_bytes ps), st_end = None\<rparr>) [WithDoChecksum True] = Inr r \<and>
    reads ParseNextPage r (map page_view ps) r' \<and> fst (ParseNextPage r') = Inl EOF"
proof -
  define r where "r = \<lparr>ogg_stream = \<lparr>st_data = concat (map page_bytes ps), st_end = None\<rparr>, ogg_bytesRead = 0,
     checksumTable = generateChecksumTable, doChecksum = True\<rparr>"
  have "ogg_NewWithOptions (Some \<lparr>st_data = concat (map page_bytes ps), st_end = None\<rparr>) [WithDoChecksum True] = Inr r"
    by (simp add: ogg_NewWithOptions_def WithDoChecksum_def r_def)
  moreover have la: "list_all (\<lambda>x. page_ok x \<and> checksumTable r = generateChecksumTable) ps"
    using assms by (auto simp: list_all_iff r_def)
  have "reads ParseNextPage (ogg_at (concat (map page_bytes ps) @ []) r) (map page_view ps) (ogg_at [] (fold ogg_after ps r))"
    using ogg.reads_all[OF la, of "[]"] by simp
  moreover have "ogg_at (concat (map page_bytes ps) @ []) r = r" by (simp add: ogg_at_def r_def)
  moreover have "st_end (ogg_stream (fold ogg_after xs q)) = st_end (ogg_stream q)" for xs q
    by (induction xs arbitrary: q) (simp_all add: ogg_after_def)
  then have "fst (ParseNextPage (ogg_at [] (fold ogg_after ps r))) = Inl EOF"
    by (simp add: ParseNextPage_def ogg_at_def ReadFull_end pageHeaderLen_def end_error_def ogg_after_def r_def)
  ultimately show ?thesis by auto
qed

section \<open>Creating tracks\<close>

lemma allocateSerial_first:
  "\<not> used (rand (n + k)) \<Longrightarrow> \<forall>j < k. used (rand (n + j)) \<Longrightarrow> allocateSerial used rand n = Some (rand (n + k), n + k + 1)"
proof (induction k arbitrary: n)
  case 0
  then show ?case by (subst allocateSerial.simps) simp
next
  case (Suc k)
  have "used (rand n)" using Suc.prems(2) by (metis add_0_right zero_less_Suc)
  moreover have "allocateSerial used rand (n + 1) = Some (rand (n + 1 + k), n + 1 + k + 1)"
    using Suc.prems(1) Suc.prems(2)[rule_format, of "Suc _"] by (intro Suc.IH) simp_all
  ultimately show ?case by (subst allocateSerial.simps) simp
qed

lemma allocateSerial_free: "allocateSerial used rand n = Some (s, m) \<Longrightarrow> \<not> used s"
proof -
  assume "allocateSerial used rand n = Some (s, m)"
  then have "case (s, m) of (s, m) \<Rightarrow> \<not> used s"
    by (rule allocateSerial.raw_induct[where P = "\<lambda>used rand n res. case res of (s, m) \<Rightarrow> \<not> used s", rotated]) (auto split: if_splits)
  then show ?thesis by simp
qed

definition tracks_wf :: "Writer \<Rightarrow> bool" where
  "tracks_wf w \<longleftrightarrow> distinct (map serial_of (trackOrder w)) \<and> distinct (map tr_ssrc (trackOrder w)) \<and>
     (\<forall>ssrc. mw_tracks w ssrc = None \<longleftrightarrow> ssrc \<notin> tr_ssrc ` set (trackOrder w)) \<and>
     (\<forall>ssrc i. mw_tracks w ssrc = Some i \<longrightarrow> i < length (trackOrder w) \<and> tr_ssrc (trackOrder w ! i) = ssrc)"

definition track_defaults :: "Writer \<Rightarrow> trackConfig" where
  "track_defaults w = \<lparr>tc_sampleRate = mw_sampleRate w, tc_channelMapping = mw_channelMapping w, tc_channelMappingSet = True,
     tc_serial = 0, tc_serialSet = False, tc_opusTags = mw_opusTags w\<rparr>"

definition with_track :: "u32 \<Rightarrow> oggTrack \<Rightarrow> Writer \<Rightarrow> Writer" where
  "with_track ssrc k w = w\<lparr>mw_tracks := (mw_tracks w)(ssrc \<mapsto> length (trackOrder w)), trackOrder := trackOrder w @ [\<lparr>tr_ssrc = ssrc, tr_track = k\<rparr>]\<rparr>"

lemma NewTrack_cases:
  assumes "NewTrack rand ssrc opts n w = Some (res, n', w')"
  obtains e where "res = Inl e" "w' = w"
  | config serial where "res = Inr (length (trackOrder w))" "mw_open w" "\<not> mw_started w" "mw_tracks w ssrc = None"
      "apply_trackConfigs opts (track_defaults w) = (None, config)" "validateOpusTags (tc_opusTags config) = None" "\<not> serialInUse w serial"
      "w' = with_track ssrc (newTrackState (tc_sampleRate config) (tc_channelMapping config) serial (tc_opusTags config)) w"
proof -
  consider (err) e where "res = Inl e" "w' = w" | (ok) config where "mw_open w" "\<not> mw_started w" "mw_tracks w ssrc = None"
      "apply_trackConfigs opts (track_defaults w) = (None, config)" "validateOpusTags (tc_opusTags config) = None"
    using assms unfolding NewTrack_def track_defaults_def[symmetric] Let_def by (auto split: if_splits option.splits prod.splits)
  then show thesis
  proof cases
    case (ok config)
    then show thesis
    proof (cases "tc_serialSet config")
      case True
      then show thesis using assms ok that(1) that(2)[of config "tc_serial config"]
        unfolding NewTrack_def track_defaults_def[symmetric] by (auto simp: with_track_def split: if_splits)
    next
      case False
      then obtain s m where "allocateSerial (serialInUse w) rand n = Some (s, m)"
        using assms ok unfolding NewTrack_def track_defaults_def[symmetric] by (auto split: option.splits)
      then show thesis using assms ok False allocateSerial_free[of "serialInUse w" rand n s m] that(2)[of config s]
        unfolding NewTrack_def track_defaults_def[symmetric] by (auto simp: with_track_def)
    qed
  qed (use that(1) in blast)
qed

lemma NewTrack_wf:
  assumes "tracks_wf w" "NewTrack rand ssrc opts n w = Some (res, n', w')"
  shows "tracks_wf w' \<and> (case res of Inl _ \<Rightarrow> w' = w
    | Inr i \<Rightarrow> i = length (trackOrder w) \<and> (\<exists>t. trackOrder w' = trackOrder w @ [t] \<and> tr_ssrc t = ssrc))"
  using assms(2)
proof (cases rule: NewTrack_cases)
  case (2 config serial)
  have wf: "distinct (map serial_of (trackOrder w))" "distinct (map tr_ssrc (trackOrder w))"
    "\<And>s. mw_tracks w s = None \<longleftrightarrow> s \<notin> tr_ssrc ` set (trackOrder w)"
    "\<And>s i. mw_tracks w s = Some i \<Longrightarrow> i < length (trackOrder w) \<and> tr_ssrc (trackOrder w ! i) = s" "\<And>s i. mw_tracks w s = Some i \<Longrightarrow> i < Suc (length (trackOrder w))"
    using assms(1) by (simp_all add: tracks_wf_def less_SucI)
  have "serial \<notin> serial_of ` set (trackOrder w)" using 2(7) by (auto simp: serialInUse_def)
  then have "tracks_wf w'" using wf 2(4,8) by (auto simp: tracks_wf_def with_track_def newTrackState_def nth_append split: if_splits)
  then show ?thesis using 2(1,8) by (simp add: with_track_def)
qed (use assms(1) in simp)

text \<open>
  \<open>NewTrack\<close> returns whenever the random numbers to come contain one that no track uses; without a serial
  number among the options the track gets the first such number.
\<close>

lemma NewTrack_returns:
  assumes "\<not> serialInUse w (rand (n + k))" "\<forall>j < k. serialInUse w (rand (n + j))"
  shows "\<exists>res n' w'. NewTrack rand ssrc opts n w = Some (res, n', w') \<and> n \<le> n' \<and> n' \<le> n + k + 1 \<and>
    allocateSerial (serialInUse w) rand n = Some (rand (n + k), n + k + 1)"
  using allocateSerial_first[of "serialInUse w", OF assms] unfolding NewTrack_def Let_def
  by (auto split: option.split prod.split)

text \<open>A writer before its first packet: what the tracks were created with is valid.\<close>

definition fresh :: "sink \<Rightarrow> Writer \<Rightarrow> bool" where
  "fresh d w \<longleftrightarrow> mw_open w \<and> \<not> mw_started w \<and> mw_table w = generateChecksumTable \<and> mw_out w = d \<and> mapping_ok (mw_channelMapping w) \<and>
     distinct (map serial_of (trackOrder w)) \<and>
     (\<forall>t \<in> set (trackOrder w). mapping_ok (trk_channelMapping (tr_track t)) \<and> tags_ok (trk_opusTags (tr_track t)) \<and>
        trk_pageIndex (tr_track t) = 0 \<and> previousGranulePosition (tr_track t) = 0)"

lemma applyWriterConfig_mapping:
  "mapping_ok (wc_channelMapping c) \<Longrightarrow> applyWriterConfig opt c = (None, c') \<Longrightarrow> mapping_ok (wc_channelMapping c')"
  by (cases "(opt, c)" rule: applyWriterConfig.cases)
    (auto split: sum.splits prod.splits intro: defaultChannelMapping_ok validateChannelMapping_ok)

lemma apply_writerConfigs_mapping:
  "mapping_ok (wc_channelMapping c) \<Longrightarrow> apply_writerConfigs opts c = (None, c') \<Longrightarrow> mapping_ok (wc_channelMapping c')"
  by (induction opts arbitrary: c) (auto split: prod.splits option.splits intro: applyWriterConfig_mapping)

lemma applyTrackConfig_mapping:
  "mapping_ok (tc_channelMapping c) \<Longrightarrow> applyTrackConfig opt c = (None, c') \<Longrightarrow> mapping_ok (tc_channelMapping c')"
  by (cases "(opt, c)" rule: applyTrackConfig.cases)
    (auto split: sum.splits prod.splits intro: defaultChannelMapping_ok validateChannelMapping_ok)

lemma apply_trackConfigs_mapping:
  "mapping_ok (tc_channelMapping c) \<Longrightarrow> apply_trackConfigs opts c = (None, c') \<Longrightarrow> mapping_ok (tc_channelMapping c')"
  by (induction opts arbitrary: c) (auto split: prod.splits option.splits intro: applyTrackConfig_mapping)

lemma NewWriter_fresh: "ogg_NewWriter (Some d) opts = Inr w \<Longrightarrow> fresh d w"
  by (auto simp: ogg_NewWriter_def fresh_def split: sum.splits prod.splits option.splits
      dest!: defaultChannelMapping_ok elim!: apply_writerConfigs_mapping[rotated])

lemma NewTrack_fresh:
  assumes "fresh d w" "NewTrack rand ssrc opts n w = Some (Inr i, n', w')"
  shows "fresh d w'"
  using assms(2)
proof (cases rule: NewTrack_cases)
  case (2 config serial)
  have "mapping_ok (tc_channelMapping config)" using apply_trackConfigs_mapping[OF _ 2(5)] assms(1) by (simp add: fresh_def track_defaults_def)
  moreover have "tags_ok (tc_opusTags config)" using validateOpusTags_ok[OF 2(6)] .
  moreover have "serial \<notin> serial_of ` set (trackOrder w)" using 2(7) by (auto simp: serialInUse_def)
  ultimately show ?thesis using assms(1) 2(8) by (auto simp: fresh_def with_track_def newTrackState_def)
qed simp

fun add_tracks :: "(nat \<Rightarrow> u32) \<Rightarrow> (u32 \<times> trackOption list) list \<Rightarrow> nat \<Rightarrow> Writer \<Rightarrow> Writer option" where
  "add_tracks rand [] n w = Some w"
| "add_tracks rand ((ssrc, opts) # specs) n w = (case NewTrack rand ssrc opts n w of
     Some (Inr _, n1, w1) \<Rightarrow> add_tracks rand specs n1 w1 | _ \<Rightarrow> None)"

lemma add_tracks_fresh: "fresh d w \<Longrightarrow> add_tracks rand specs n w = Some w' \<Longrightarrow> fresh d w'"
  by (induction specs arbitrary: n w) (auto split: option.splits sum.splits prod.splits, blast dest: NewTrack_fresh)

lemma fresh_inv:
  assumes "fresh d w" "healthy d" "content d = []"
  shows "mux_inv (trackOrder w) (\<lambda>_. []) [] w"
proof -
  have "track_has (mw_rewriter w) [] False t [] t" if "t \<in> set (trackOrder w)" for t
    using assms(1) that by (auto simp: fresh_def track_has_def same_track_def track_state_def total_samples_def)
  then show ?thesis using assms by (simp add: mux_inv_def fresh_def on_output_def)
qed

section \<open>A whole multiplexed file\<close>

text \<open>What a reader of the pages of one logical stream finds.\<close>

definition track_found :: "oggTrack \<Rightarrow> bytes list \<Rightarrow> (bytes \<times> OggPageHeader) list \<Rightarrow> bool" where
  "track_found t xs pgs \<longleftrightarrow>
     (\<exists>ident tags. reassemble pgs = ident # tags # xs \<and> ParseOpusHead ident = Inr (header_of_track t) \<and> ParseOpusTags tags = Inr (trk_opusTags t)) \<and>
     map (page_index \<circ> snd) pgs = map of_nat [0..<length pgs] \<and>
     (bit (page_headerType (snd (last pgs))) 2 \<or> 2 ^ 32 \<le> length pgs)"

lemma track_found_ended:
  assumes "mapping_ok (trk_channelMapping t)" "tags_ok (trk_opusTags t)"
  shows "track_found t xs (map page_view (ended rw s g (track_pages t xs)))"
proof -
  have v: "page_index \<circ> snd \<circ> page_view = p_index" "page_headerType (snd (page_view p)) = p_type p" for p
    by (auto simp: page_view_def)
  have "map (page_index \<circ> snd) (map page_view (ended rw s g (track_pages t xs))) =
      map of_nat [0..<length (map page_view (ended rw s g (track_pages t xs)))]"
    using ended_index[of rw s g t xs] v(1) by (simp add: comp_assoc)
  then show ?thesis unfolding track_found_def
    using ended_joined[of rw s g t xs] ended_last[of rw s g t xs] ParseOpusHead_buildIDHeader[OF assms(1)]
      ParseOpusTags_buildCommentHeader[OF assms(2)] v(2) by (auto simp: last_map)
qed

text \<open>
  C4: Several tracks multiplexed into one Ogg file come apart again. For any options, any tracks that \<open>NewTrack\<close>
  accepts and any interleaving of valid Opus packets on them, on a seekable output or not: all calls and
  \<open>Close\<close> succeed, and a reader with checksums on reads every page up to \<open>io.EOF\<close>. The serial numbers are
  distinct, and the pages of each serial number are, joined at the continuation flags, the identification header with the
  parameters of the track, the comment header with its tags, and exactly the packets given to that track, in order;
  they are numbered from zero without a gap, and the last one carries the end-of-stream flag (unless
  the track has \<open>2\<^sup>3\<^sup>2\<close> pages or more).
\<close>

theorem ogg_multiplexed:
  assumes "healthy d" "content d = []" "ogg_NewWriter (Some d) opts = Inr w0" "add_tracks rand specs n w0 = Some w1"
    and "calls_ok opus (trackOrder w1) calls"
  shows "\<exists>w2 w3 r r' pgs. run_tracks opus calls w1 = (None, w2) \<and> ogg_Close w2 = (None, w3) \<and>
    ogg_NewWithOptions (Some \<lparr>st_data = content (mw_out w3), st_end = None\<rparr>) [WithDoChecksum True] = Inr r \<and>
    reads ParseNextPage r pgs r' \<and> fst (ParseNextPage r') = Inl EOF \<and> distinct (map serial_of (trackOrder w1)) \<and>
    (\<forall>i < length (trackOrder w1). track_found (tr_track (trackOrder w1 ! i)) (track_payloads opus calls i)
       (filter (\<lambda>pg. Serial (snd pg) = serial_of (trackOrder w1 ! i)) pgs))"
proof -
  have fr: "fresh d w1" using NewWriter_fresh[OF assms(3)] assms(4) by (rule add_tracks_fresh)
  obtain w2 ps where 2: "run_tracks opus calls w1 = (None, w2)"
    "mux_inv (trackOrder w1) (\<lambda>i. [] @ track_payloads opus calls i) ps w2"
    using run_tracks_inv[OF fresh_inv[OF fr assms(1,2)] assms(5)] by blast
  obtain w3 ps' where 3: "ogg_Close w2 = (None, w3)" "content (mw_out w3) = concat (map page_bytes ps')" "list_all page_ok ps'"
    "\<And>i. i < length (trackOrder w1) \<Longrightarrow> own (serial_of (trackOrder w1 ! i)) ps' =
      ended (mw_rewriter w2) (serial_of (trackOrder w1 ! i)) (total_samples (track_payloads opus calls i))
        (track_pages (tr_track (trackOrder w1 ! i)) (track_payloads opus calls i))"
    using ogg_Close_inv[OF 2(2)] by auto
  obtain r r' where r: "ogg_NewWithOptions (Some \<lparr>st_data = content (mw_out w3), st_end = None\<rparr>) [WithDoChecksum True] = Inr r"
    "reads ParseNextPage r (map page_view ps') r'" "fst (ParseNextPage r') = Inl EOF"
    using reads_pages[OF 3(3)] unfolding 3(2) by blast
  have "track_found (tr_track (trackOrder w1 ! i)) (track_payloads opus calls i)
      (filter (\<lambda>pg. Serial (snd pg) = serial_of (trackOrder w1 ! i)) (map page_view ps'))" if i: "i < length (trackOrder w1)" for i
    unfolding own_view 3(4)[OF i] using fr i by (intro track_found_ended) (auto simp: fresh_def)
  moreover have "distinct (map serial_of (trackOrder w1))" using fr by (simp add: fresh_def)
  ultimately show ?thesis using 2(1) 3(1) r by blast
qed

section \<open>Examples\<close>

text \<open>Two tracks, the second with a serial number of its own, on an output that cannot be rewritten.\<close>

definition witness_writer :: Writer where
  "witness_writer = \<lparr>mw_out = ogg_witness_file, mw_open = True, mw_rewriter = False, mw_sampleRate = defaultSampleRate,
     mw_channelMapping = stereo, mw_opusTags = defaultOpusTags, mw_table = generateChecksumTable,
     mw_tracks = Map.empty, trackOrder = [], mw_started = False\<rparr>"

definition witness_tracks :: Writer where
  "witness_tracks = with_track 20 (newTrackState defaultSampleRate stereo 7 defaultOpusTags)
     (with_track 10 (newTrackState defaultSampleRate stereo 5 defaultOpusTags) witness_writer)"

definition ogg_witness_calls :: "(nat \<times> opus_rtp) list" where
  "ogg_witness_calls = [(0, \<lparr>rtp_SSRC = 10, rtp_Payload = [0xF8, 0xFF, 0xFE]\<rparr>), (1, \<lparr>rtp_SSRC = 20, rtp_Payload = [0x03, 0x02, 9]\<rparr>)]"

lemma witness_new: "ogg_NewWriter (Some ogg_witness_file) [] = Inr witness_writer"
  using default_tags_valid stereo_default by (simp add: ogg_NewWriter_def witness_writer_def defaultChannelCount_def)

lemma witness_add: "add_tracks (\<lambda>_. 5) [(10, []), (20, [SerialOption 7])] 0 witness_writer = Some witness_tracks"
  using default_tags_valid
  by (simp add: NewTrack_def witness_writer_def serialInUse_def allocateSerial.simps witness_tracks_def with_track_def newTrackState_def)

lemma witness_calls_ok: "calls_ok Inr (trackOrder witness_tracks) ogg_witness_calls"
  by (simp add: calls_ok_def ogg_witness_calls_def witness_tracks_def with_track_def witness_writer_def witness_samples)

theorem ogg_multiplexed_witness:
  "\<exists>w2 w3 r r' pgs. run_tracks Inr ogg_witness_calls witness_tracks = (None, w2) \<and> ogg_Close w2 = (None, w3) \<and>
    ogg_NewWithOptions (Some \<lparr>st_data = content (mw_out w3), st_end = None\<rparr>) [WithDoChecksum True] = Inr r \<and>
    reads ParseNextPage r pgs r' \<and> fst (ParseNextPage r') = Inl EOF \<and>
    track_found (newTrackState defaultSampleRate stereo 5 defaultOpusTags) [[0xF8, 0xFF, 0xFE]] (filter (\<lambda>pg. Serial (snd pg) = 5) pgs) \<and>
    track_found (newTrackState defaultSampleRate stereo 7 defaultOpusTags) [[0x03, 0x02, 9]] (filter (\<lambda>pg. Serial (snd pg) = 7) pgs)"
proof -
  have f: "trackOrder witness_tracks = [\<lparr>tr_ssrc = 10, tr_track = newTrackState defaultSampleRate stereo 5 defaultOpusTags\<rparr>,
      \<lparr>tr_ssrc = 20, tr_track = newTrackState defaultSampleRate stereo 7 defaultOpusTags\<rparr>]"
    by (simp add: witness_tracks_def with_track_def witness_writer_def)
  have p: "track_payloads Inr ogg_witness_calls 0 = [[0xF8, 0xFF, 0xFE]]" "track_payloads Inr ogg_witness_calls 1 = [[0x03, 0x02, 9]]"
    by (simp_all add: track_payloads_def ogg_witness_calls_def witness_samples)
  have h: "healthy ogg_witness_file" "content ogg_witness_file = []" by (simp_all add: ogg_witness_file_def healthy_def)
  obtain w2 w3 r r' pgs where *: "run_tracks Inr ogg_witness_calls witness_tracks = (None, w2)" "ogg_Close w2 = (None, w3)"
    "ogg_NewWithOptions (Some \<lparr>st_data = content (mw_out w3), st_end = None\<rparr>) [WithDoChecksum True] = Inr r"
    "reads ParseNextPage r pgs r'" "fst (ParseNextPage r') = Inl EOF"
    and t: "\<And>i. i < length (trackOrder witness_tracks) \<Longrightarrow> track_found (tr_track (trackOrder witness_tracks ! i)) (track_payloads Inr ogg_witness_calls i)
       (filter (\<lambda>pg. Serial (snd pg) = serial_of (trackOrder witness_tracks ! i)) pgs)"
    using ogg_multiplexed[OF h witness_new witness_add witness_calls_ok] by blast
  have "trk_serial (newTrackState rate m s tags) = s" for rate m s tags by (simp add: newTrackState_def)
  then show ?thesis using * t[of 0] t[of 1] unfolding f p by fastforce
qed

section \<open>After closing\<close>

text \<open>
  C39: A closed writer writes no more, whatever state it was in and whether or not closing failed. \<open>WriteRTP\<close> of
  the single-track writer reports that no file is open, \<open>WriteRTP\<close> on a track and \<open>NewTrack\<close> of the multi-track writer that
  no output is open, and a second \<open>Close\<close> returns nil; none of them touches the output.
\<close>

theorem ogg_closed:
  "oggw_WriteRTP opus packet (snd (oggw_Close w)) = (Some (Err errFileNotOpened_ogg), snd (oggw_Close w)) \<and>
   oggw_Close (snd (oggw_Close w)) = (None, snd (oggw_Close w)) \<and>
   track_WriteRTP opus i packet (snd (ogg_Close m)) = (Some (Err errOutputNotOpened), snd (ogg_Close m)) \<and>
   NewTrack rand ssrc opts n (snd (ogg_Close m)) = Some (Inl (Err errOutputNotOpened), n, snd (ogg_Close m)) \<and>
   ogg_Close (snd (ogg_Close m)) = (None, snd (ogg_Close m))"
proof -
  have 1: "\<not> ow_open (snd (oggw_Close w))" "\<not> ow_fd (snd (oggw_Close w))"
    by (auto simp: oggw_Close_def Let_def split: prod.split)
  have 2: "\<not> mw_open (snd (ogg_Close m))" "\<not> mw_rewriter (snd (ogg_Close m))"
    by (auto simp: ogg_Close_def Let_def split: prod.split)
  have e: "\<not> ow_fd v \<Longrightarrow> \<not> ow_open v \<Longrightarrow> v\<lparr>ow_out := ow_out v, ow_fd := False, ow_open := False\<rparr> = v" for v by simp
  have f: "\<not> mw_rewriter v \<Longrightarrow> v\<lparr>mw_rewriter := False\<rparr> = v" for v by simp
  show ?thesis using 1 2 e[OF 1(2,1)] f[OF 2(2)]
    by (auto simp: oggw_WriteRTP_def oggw_Close_def[of "snd (oggw_Close w)"] track_WriteRTP_def NewTrack_def ogg_Close_def[of "snd (ogg_Close m)"])
qed

section \<open>Reachable writers\<close>

text \<open>
  The multi-track writer as a state machine: any calls in any order, with any results of the output
  behind it and of the packets given to it.
\<close>

inductive writer_step :: "Writer \<Rightarrow> Writer \<Rightarrow> bool" where
  create: "NewTrack rand ssrc opts n w = Some (res, n', w') \<Longrightarrow> writer_step w w'"
| packet: "track_WriteRTP opus i p w = (err, w') \<Longrightarrow> i < length (trackOrder w) \<Longrightarrow> writer_step w w'"
| close: "ogg_Close w = (err, w') \<Longrightarrow> writer_step w w'"

inductive writer_reachable :: "Writer \<Rightarrow> bool" where
  initial: "ogg_NewWriter out opts = Inr w \<Longrightarrow> writer_reachable w"
| step: "writer_reachable w \<Longrightarrow> writer_step w w' \<Longrightarrow> writer_reachable w'"

inductive_cases writer_stepE: "writer_step w w'"

text \<open>What no call changes for the tracks a writer has.\<close>

definition idents :: "Writer \<Rightarrow> (u32 \<times> u32) list" where
  "idents w = map (\<lambda>t. (tr_ssrc t, serial_of t)) (trackOrder w)"

lemma write_pages_serial: "write_pages rw pgs off t d = (err, t', d') \<Longrightarrow> trk_serial t' = trk_serial t"
  by (induction rw pgs off t d rule: write_pages.induct) (auto simp: Let_def split: prod.splits option.splits if_splits)

lemma writePage_serial: "writePage rw table payload ht gp t d = (err, t', d') \<Longrightarrow> trk_serial t' = trk_serial t"
  by (auto simp: writePage_def Let_def dest: write_pages_serial split: prod.splits option.splits sum.splits)

lemma each_track_serials:
  assumes "\<And>t d err t' d'. f t d = (err, t', d') \<Longrightarrow> trk_serial t' = trk_serial t" "each_track f ts d = (err, ts', d')"
  shows "map (\<lambda>t. (tr_ssrc t, serial_of t)) ts' = map (\<lambda>t. (tr_ssrc t, serial_of t)) ts"
  using assms(2)
proof (induction ts arbitrary: d err ts' d')
  case (Cons t ts)
  obtain e k d1 where 1: "f (tr_track t) d = (e, k, d1)" by (cases "f (tr_track t) d") auto
  show ?case
  proof (cases e)
    case None
    obtain e2 ts2 d2 where "each_track f ts d1 = (e2, ts2, d2)" by (cases "each_track f ts d1") auto
    then show ?thesis using Cons 1 None assms(1)[OF 1] by auto
  qed (use Cons.prems 1 assms(1)[OF 1] in auto)
qed simp

lemma startLocked_keeps: "startLocked w = (err, w') \<Longrightarrow> idents w' = idents w \<and> mw_tracks w' = mw_tracks w"
  by (auto simp: startLocked_def idents_def writeTrackIDHeader_def writeTrackCommentHeader_def
      dest!: each_track_serials[rotated] intro: writePage_serial split: if_splits prod.splits option.splits)

lemma writeOpusPayload_serial: "writeOpusPayload rw table payload t d = (err, t', d') \<Longrightarrow> trk_serial t' = trk_serial t"
  by (auto simp: writeOpusPayload_def Let_def dest!: writePage_serial split: sum.splits)

lemma track_WriteRTP_keeps:
  assumes "track_WriteRTP opus i p w = (err, w')" "i < length (trackOrder w)"
  shows "idents w' = idents w \<and> mw_tracks w' = mw_tracks w"
proof -
  define start where "start x = (case startLocked w of
      (Some e, w1) \<Rightarrow> (Some e, w1)
    | (None, w1) \<Rightarrow> (case writeOpusPayload (mw_rewriter w1) (mw_table w1) x (tr_track (trackOrder w1 ! i)) (mw_out w1) of
        (err, k, d) \<Rightarrow> (err, w1\<lparr>trackOrder := (trackOrder w1)[i := (trackOrder w1 ! i)\<lparr>tr_track := k\<rparr>], mw_out := d\<rparr>)))" for x
  consider "w' = w" | x where "start x = (err, w')"
    using assms(1) unfolding track_WriteRTP_def start_def[symmetric] by (auto split: if_splits option.splits sum.splits)
  then consider "w' = w" | e w1 where "startLocked w = (e, w1)" "w' = w1"
    | w1 k d e x where "startLocked w = (None, w1)" "writeOpusPayload (mw_rewriter w1) (mw_table w1) x (tr_track (trackOrder w1 ! i)) (mw_out w1) = (e, k, d)"
      "w' = w1\<lparr>trackOrder := (trackOrder w1)[i := (trackOrder w1 ! i)\<lparr>tr_track := k\<rparr>], mw_out := d\<rparr>"
  proof cases
    case (2 x)
    obtain e w1 where 1: "startLocked w = (e, w1)" by fastforce
    show thesis
    proof (cases e)
      case None
      obtain e2 k d where "writeOpusPayload (mw_rewriter w1) (mw_table w1) x (tr_track (trackOrder w1 ! i)) (mw_out w1) = (e2, k, d)"
        using prod_cases3 by blast
      then show thesis using that(3)[OF 1[unfolded None]] 2 1 None by (simp add: start_def)
    qed (use 1 2 that(2) in \<open>simp add: start_def\<close>)
  qed (use that(1) in blast)
  then show ?thesis
  proof cases
    case (3 w1 k d e x)
    have k: "idents w1 = idents w" "mw_tracks w1 = mw_tracks w" using startLocked_keeps[OF 3(1)] by auto
    have "length (trackOrder w1) = length (trackOrder w)" using arg_cong[OF k(1), of length] by (simp add: idents_def)
    then have "i < length (trackOrder w1)" using assms(2) by simp
    moreover have "trk_serial k = serial_of (trackOrder w1 ! i)" using writeOpusPayload_serial[OF 3(2)] .
    ultimately have "idents w' = idents w1"
      unfolding 3(3) by (simp add: idents_def map_update list_update_same_conv)
    then show ?thesis using k 3(3) by simp
  qed (simp_all add: startLocked_keeps)
qed

lemma nil_all_serials: "nil_all table ts e d = (err, ts', d') \<Longrightarrow> map (\<lambda>t. (tr_ssrc t, serial_of t)) ts' = map (\<lambda>t. (tr_ssrc t, serial_of t)) ts"
proof (induction ts arbitrary: e d err ts' d')
  case (Cons t ts)
  obtain e1 k d1 where 1: "writeNilEndOfStreamPage table (tr_track t) d = (e1, k, d1)"
    by (cases "writeNilEndOfStreamPage table (tr_track t) d") auto
  have "trk_serial k = serial_of t" using 1 by (auto simp: writeNilEndOfStreamPage_def split: if_splits prod.splits option.splits)
  moreover obtain e2 ts2 d2 where "nil_all table ts (if e1 = None then e else errors_Join e e1) d1 = (e2, ts2, d2)"
    by (cases "nil_all table ts (if e1 = None then e else errors_Join e e1) d1") auto
  ultimately show ?case using Cons.prems 1 Cons.IH by auto
qed simp

lemma ogg_Close_keeps:
  assumes "ogg_Close w = (err, w')"
  shows "idents w' = idents w \<and> mw_tracks w' = mw_tracks w"
proof (cases "mw_open w")
  case False
  then show ?thesis using assms by (auto simp: ogg_Close_def idents_def)
next
  case True
  obtain e w1 where 1: "startLocked w = (e, w1)" by fastforce
  obtain ce ts d where 2: "(if mw_rewriter w1
        then (case mark_all (mw_table w1) (trackOrder w1) e (mw_out w1) of (e, d) \<Rightarrow> (e, trackOrder w1, d))
        else nil_all (mw_table w1) (trackOrder w1) e (mw_out w1)) = (ce, ts, d)" by (metis prod_cases3)
  have "map (\<lambda>t. (tr_ssrc t, serial_of t)) ts = map (\<lambda>t. (tr_ssrc t, serial_of t)) (trackOrder w1)"
    using 2 by (auto split: if_splits prod.splits dest: nil_all_serials)
  moreover have "trackOrder w' = ts" "mw_tracks w' = mw_tracks w1"
    using assms True 1 2 by (auto simp: ogg_Close_def split: prod.splits if_splits)
  ultimately show ?thesis using startLocked_keeps[OF 1] by (simp add: idents_def)
qed

lemma tracks_wf_idents:
  assumes "idents w' = idents w" "mw_tracks w' = mw_tracks w" "tracks_wf w"
  shows "tracks_wf w'"
proof -
  have a: "map serial_of (trackOrder w') = map serial_of (trackOrder w)" "map tr_ssrc (trackOrder w') = map tr_ssrc (trackOrder w)"
    using arg_cong[OF assms(1), of "map snd"] arg_cong[OF assms(1), of "map fst"] by (simp_all add: idents_def comp_def)
  have b: "tr_ssrc ` set (trackOrder w') = tr_ssrc ` set (trackOrder w)" using a(2) by (metis set_map)
  have c: "length (trackOrder w') = length (trackOrder w)" using a(2) by (metis length_map)
  have d: "tr_ssrc (trackOrder w' ! i) = tr_ssrc (trackOrder w ! i)" if "i < length (trackOrder w)" for i
    using a(2) c that by (metis nth_map)
  show ?thesis using assms(3) d unfolding tracks_wf_def a b c assms(2) by simp
qed

lemma writer_step_wf:
  assumes "writer_step w w'" "tracks_wf w"
  shows "tracks_wf w' \<and> prefix (idents w) (idents w')"
  using assms(1)
proof (rule writer_stepE)
  fix rand ssrc opts n res n' assume c: "NewTrack rand ssrc opts n w = Some (res, n', w')"
  then have "prefix (idents w) (idents w')" by (cases rule: NewTrack_cases) (simp_all add: idents_def with_track_def)
  then show ?thesis using NewTrack_wf[OF assms(2) c] by simp
qed (use assms(2) tracks_wf_idents in \<open>auto dest!: track_WriteRTP_keeps ogg_Close_keeps\<close>)

lemma writer_reachable_wf: "writer_reachable w \<Longrightarrow> tracks_wf w"
  by (induction rule: writer_reachable.induct)
    (auto simp: ogg_NewWriter_def tracks_wf_def split: option.splits sum.splits prod.splits dest: writer_step_wf)

text \<open>
  C19: Tracks stay apart. In every state a multi-track writer can reach, by calls in any order and with any failures of
  the output, no two tracks share a serial number or an SSRC and the map from SSRCs to tracks is exact; and
  every further call keeps the tracks there are, with their SSRCs and serial numbers, in their places.
\<close>

theorem tracks_distinct:
  assumes "writer_reachable w" "writer_step w w'"
  shows "distinct (map serial_of (trackOrder w')) \<and> distinct (map tr_ssrc (trackOrder w')) \<and>
    (\<forall>ssrc i. mw_tracks w' ssrc = Some i \<longleftrightarrow> i < length (trackOrder w') \<and> tr_ssrc (trackOrder w' ! i) = ssrc) \<and>
    prefix (idents w) (idents w')"
proof -
  have wf: "tracks_wf w'" "prefix (idents w) (idents w')" using writer_step_wf[OF assms(2) writer_reachable_wf[OF assms(1)]] by auto
  have "mw_tracks w' (tr_ssrc (trackOrder w' ! i)) = Some i" if i: "i < length (trackOrder w')" for i
  proof -
    obtain j where j: "mw_tracks w' (tr_ssrc (trackOrder w' ! i)) = Some j" using wf(1) i by (force simp: tracks_wf_def)
    then have "j < length (trackOrder w')" "tr_ssrc (trackOrder w' ! j) = tr_ssrc (trackOrder w' ! i)" using wf(1) by (auto simp: tracks_wf_def)
    then have "j = i" using wf(1) i by (simp add: tracks_wf_def distinct_conv_nth) metis
    then show ?thesis using j by simp
  qed
  then show ?thesis using wf by (auto simp: tracks_wf_def)
qed

theorem tracks_distinct_witness:
  "distinct (map serial_of (trackOrder (with_track 10 (newTrackState defaultSampleRate stereo 5 defaultOpusTags) witness_writer))) \<and>
   mw_tracks (with_track 10 (newTrackState defaultSampleRate stereo 5 defaultOpusTags) witness_writer) 10 = Some 0"
proof -
  let ?w = "with_track 10 (newTrackState defaultSampleRate stereo 5 defaultOpusTags) witness_writer"
  have "NewTrack (\<lambda>_. 5) 10 [] 0 witness_writer = Some (Inr 0, 1, ?w)"
    using default_tags_valid by (simp add: NewTrack_def witness_writer_def serialInUse_def allocateSerial.simps with_track_def)
  then have "writer_step witness_writer ?w" by (rule writer_step.create)
  moreover have "writer_reachable witness_writer" using witness_new by (rule writer_reachable.initial)
  ultimately show ?thesis using tracks_distinct[of witness_writer ?w] by (simp add: with_track_def witness_writer_def)
qed

end
