(* ===== verification/OggDurable.thy ===== *)
theory OggDurable
  imports OggRoundTrip Outputs
begin

text \<open>
  Ogg recordings on outputs that fail: the functions of the writer are put together from \<open>Write\<close> and \<open>Seek\<close>, so they
  only append, and the single-track writer is an \<open>append_writer\<close>; cut pages are refused by the reader.
  What was acknowledged can be read back.
\<close>

section \<open>Outputs that fail\<close>

lemma append_only_write_pages [append_intros]: "append_only (write_pages rw pages offset track)"
proof (induction pages arbitrary: offset track)
  case Nil
  then show ?case by (simp add: append_intros fun_eq_iff[symmetric] del: fun_eq_iff)
next
  case (Cons page rest)
  then show ?case unfolding write_pages.simps Let_def by (intro append_intros)
qed

lemma append_only_writePage [append_intros]: "append_only (writePage rw table payload ht gp track)"
proof (cases rw)
  case True
  then show ?thesis unfolding writePage_def Let_def by (simp add: append_intros)
next
  case False
  then show ?thesis unfolding writePage_def Let_def by (simp add: append_intros)
qed

lemma append_only_writeTrackHeaders [append_intros]: "append_only (writeTrackHeaders rw table track)"
  unfolding writeTrackHeaders_def writeTrackIDHeader_def writeTrackCommentHeader_def by (intro append_intros)

lemma append_only_writeOpusPayload [append_intros]: "append_only (writeOpusPayload rw table payload track)"
  unfolding writeOpusPayload_def Let_def by (cases "opusPacketSampleCount payload") (simp_all add: append_intros)

lemma append_only_writeRTP [append_intros]: "append_only (writeRTP opus rw table packet track)"
proof (cases "opusPayloadFromPacket opus packet")
  case (Inr payload)
  then show ?thesis unfolding writeRTP_def by (cases payload) (simp_all add: append_intros)
next
  case (Inl e)
  then show ?thesis unfolding writeRTP_def by (simp add: append_intros)
qed

interpretation ogg_out: append_writer ow_out "\<lambda>w. w\<lparr>ow_out := heal (ow_out w)\<rparr>" "\<lambda>p. oggw_WriteRTP opus (Some p)" for opus
proof unfold_locales
  fix w w' t :: OggWriter and p e f e2
  assume a: "appending (ow_out w)"
  obtain err trk d where r: "writeRTP opus (ow_fd w) (ow_table w) (Some p) (ow_track w) (ow_out w) = (err, trk, d)" by (metis prod_cases3)
  obtain err2 trk2 d2 where r2: "writeRTP opus (ow_fd w) (ow_table w) (Some p) (ow_track w) (heal (ow_out w)) = (err2, trk2, d2)" by (metis prod_cases3)
  note ao = append_onlyD[OF append_only_writeRTP a r]
  have w: "oggw_WriteRTP opus (Some p) w = (if ow_open w then (err, w\<lparr>ow_track := trk, ow_out := d\<rparr>) else (Some (Err errFileNotOpened_ogg), w))"
    "oggw_WriteRTP opus (Some p) (w\<lparr>ow_out := heal (ow_out w)\<rparr>) =
      (if ow_open w then (err2, w\<lparr>ow_track := trk2, ow_out := d2\<rparr>) else (Some (Err errFileNotOpened_ogg), w\<lparr>ow_out := heal (ow_out w)\<rparr>))"
    using r r2 by (simp_all add: oggw_WriteRTP_def)
  show "oggw_WriteRTP opus (Some p) w = (e, w') \<Longrightarrow> appending (ow_out w') \<and> prefix (content (ow_out w)) (content (ow_out w'))"
    unfolding w(1) using a ao(1,2) by (auto split: if_splits)
  show "oggw_WriteRTP opus (Some p) w = (None, w') \<Longrightarrow> oggw_WriteRTP opus (Some p) (w\<lparr>ow_out := heal (ow_out w)\<rparr>) = (None, w'\<lparr>ow_out := heal (ow_out w')\<rparr>)"
    unfolding w using ao(3) r2 by (auto split: if_splits)
  show "oggw_WriteRTP opus (Some p) w = (Some f, w') \<Longrightarrow> oggw_WriteRTP opus (Some p) (w\<lparr>ow_out := heal (ow_out w)\<rparr>) = (e2, t) \<Longrightarrow>
      prefix (content (ow_out w')) (content (ow_out t))"
    unfolding w using ao(4)[OF r2] by (auto split: if_splits)
qed simp

lemma run_ogg_until: "run_ogg opus ps w = until_error (\<lambda>p. oggw_WriteRTP opus (Some p)) ps w"
  by (induction ps arbitrary: w) (auto split: prod.splits option.splits)

section \<open>Cut pages\<close>

lemma ParseNextPage_cut:
  assumes "page_ok p" "k < length (page_bytes p)"
  shows "fst (ParseNextPage (r\<lparr>ogg_stream := \<lparr>st_data = take k (page_bytes p), st_end = None\<rparr>\<rparr>)) =
    Inl (if k \<in> {0, 27, 27 + length (p_segments p)} then EOF else ErrUnexpectedEOF)"
proof (cases "k < 27")
  case True
  moreover have "page_bytes p \<noteq> []" using length_page_bytes[of p] by auto
  ultimately show ?thesis using assms(2) by (auto simp: ParseNextPage_def ReadFull_def pageHeaderLen_def end_error_def)
next
  case False
  let ?h = "page_header (page_sum p) p" and ?n = "length (p_segments p)"
  have sg: "sum_list (map unat (p_segments p)) = length (p_payload p)" using assms(1) by (simp add: page_ok_def)
  let ?rest = "take (k - 27) (p_segments p @ p_payload p)"
  have tk: "take k (page_bytes p) = ?h @ ?rest" using False by (simp add: page_bytes_eq)
  have 1: "ogg_ReadFull pageHeaderLen \<lparr>st_data = take k (page_bytes p), st_end = None\<rparr> = (Inr ?h, \<lparr>st_data = ?rest, st_end = None\<rparr>)"
    unfolding tk by (subst ReadFull_append[where a = ?h and r = ?rest]) (simp_all add: pageHeaderLen_def)
  have hdr: "unat (?h ! 26) = ?n" using unat_segments[OF assms(1)] by (simp add: page_header_fields)
  show ?thesis
  proof (cases "k < 27 + ?n")
    case True
    then have "fst (ogg_ReadFull ?n \<lparr>st_data = ?rest, st_end = None\<rparr>) = Inl (if k = 27 then EOF else ErrUnexpectedEOF)"
      using False by (auto simp: ReadFull_def end_error_def)
    then show ?thesis using 1 hdr True False unfolding ParseNextPage_def
      by (cases "ogg_ReadFull ?n \<lparr>st_data = ?rest, st_end = None\<rparr>") (auto simp: Let_def pageHeaderLen_def)
  next
    case f2: False
    let ?rest2 = "take (k - 27 - ?n) (p_payload p)"
    have 2: "ogg_ReadFull ?n \<lparr>st_data = ?rest, st_end = None\<rparr> = (Inr (p_segments p), \<lparr>st_data = ?rest2, st_end = None\<rparr>)"
      using False f2 by (subst ReadFull_append[where a = "p_segments p" and r = ?rest2]) simp_all
    have "k - 27 - ?n < length (p_payload p)" using assms(2) f2 by (simp add: length_page_bytes)
    then have "fst (ogg_ReadFull (length (p_payload p)) \<lparr>st_data = ?rest2, st_end = None\<rparr>) =
        Inl (if k = 27 + ?n then EOF else ErrUnexpectedEOF)"
      using f2 by (auto simp: ReadFull_def end_error_def)
    then show ?thesis using 1 hdr 2 sg f2 unfolding ParseNextPage_def
      by (cases "ogg_ReadFull (length (p_payload p)) \<lparr>st_data = ?rest2, st_end = None\<rparr>") (auto simp: Let_def pageHeaderLen_def)
  qed
qed

interpretation ogg_cut: cut_stream page_bytes "\<lambda>r p. page_ok p \<and> checksumTable r = generateChecksumTable" ParseNextPage
  "\<lambda>r p. page_view p" ogg_at ogg_after "\<lambda>r. st_end (ogg_stream r) = None"
  "\<lambda>p k. if k \<in> {0, 27, 27 + length (p_segments p)} then EOF else ErrUnexpectedEOF"
proof unfold_locales
  fix r :: OggReader and p k
  show "(st_end (ogg_stream (ogg_after p r)) = None) = (st_end (ogg_stream r) = None)" by (simp add: ogg_after_def)
  assume a: "st_end (ogg_stream r) = None"
  then show "fst (ParseNextPage (ogg_at [] r)) = Inl EOF"
    by (simp add: ParseNextPage_def ogg_at_def ReadFull_end pageHeaderLen_def end_error_def)
  have "ogg_at d r = r\<lparr>ogg_stream := \<lparr>st_data = d, st_end = None\<rparr>\<rparr>" for d using a by (cases "ogg_stream r") (simp add: ogg_at_def)
  moreover assume "page_ok p \<and> checksumTable r = generateChecksumTable" "k < length (page_bytes p)"
  ultimately show "fst (ParseNextPage (ogg_at (take k (page_bytes p)) r)) =
      Inl (if k \<in> {0, 27, 27 + length (p_segments p)} then EOF else ErrUnexpectedEOF)"
    using ParseNextPage_cut[of p k r] by simp
qed

text \<open>Pages behind a whole packet leave the packets before them alone.\<close>

lemma join_extends: "z \<noteq> [] \<Longrightarrow> prefix acc (foldl join_page (acc @ z) pgs)"
proof (induction pgs arbitrary: z)
  case (Cons pg pgs)
  define z1 where "z1 = (if segmentsCount (snd pg) = 0 then z
     else if bit (page_headerType (snd pg)) 0 then butlast z @ [last z @ fst pg] else z @ [fst pg])"
  have "join_page (acc @ z) pg = acc @ z1" using Cons.prems by (simp add: join_page_def z1_def butlast_append)
  moreover have "z1 \<noteq> []" using Cons.prems by (simp add: z1_def)
  ultimately show ?case using Cons.IH[of z1] by simp
qed simp

definition starts_packet :: "bytes \<times> OggPageHeader \<Rightarrow> bool" where
  "starts_packet pg \<longleftrightarrow> segmentsCount (snd pg) \<noteq> 0 \<and> \<not> bit (page_headerType (snd pg)) 0"

lemma join_start: "pgs = [] \<or> starts_packet (hd pgs) \<Longrightarrow> prefix acc (foldl join_page acc pgs)"
  by (cases pgs) (simp_all add: starts_packet_def join_page_def join_extends)

lemma stream_pages_start:
  assumes "plain_packets xs" "stream_pages serial ps xs = ps @ qs"
  shows "qs = [] \<or> starts_packet (page_view (hd qs))"
proof (cases xs)
  case (Cons x ys)
  obtain payload ht gp where x: "x = (payload, ht, gp)" by (cases x) auto
  let ?pgs = "packet_pages payload ht gp serial (of_nat (length ps)) True"
  have p: "\<not> bit ht 0" "plain_packets ys" using assms(1) by (auto simp: plain_packets_def Cons x)
  obtain rs where "stream_pages serial (ps @ ?pgs) ys = (ps @ ?pgs) @ rs" using stream_pages_join[OF p(2)] by blast
  then have "qs = ?pgs @ rs" using assms(2) by (simp add: Cons x)
  moreover have "starts_packet (page_view (hd ?pgs))"
    using p(1) by (subst packet_pages.simps) (simp add: starts_packet_def page_view_def type_flag lacing_count)
  ultimately show ?thesis using packet_pages_nonempty by (simp add: hd_append)
qed (use assms(2) in simp)

lemma audio_packets_append: "\<exists>g'. audio_packets g (xs @ ys) = audio_packets g xs @ audio_packets g' ys"
  by (induction xs arbitrary: g) auto

lemma opus_payloads_prefix:
  assumes "opus_payloads opus (ps @ qs) = Some xs"
  shows "\<exists>ys zs. opus_payloads opus ps = Some ys \<and> xs = ys @ zs"
  using assms
proof (induction ps arbitrary: xs)
  case (Cons p ps)
  then show ?case by (fastforce split: if_splits sum.splits option.splits)
qed simp

lemma oggw_newWith_healed:
  assumes "appending d" "oggw_newWith rnd (Some d) fd config = Inr w"
  shows "appending (ow_out w)" "oggw_newWith rnd (Some (heal d)) fd config = Inr (w\<lparr>ow_out := heal (ow_out w)\<rparr>)"
proof -
  let ?t = "newTrackState (tc_sampleRate config) (tc_channelMapping config) (if tc_serialSet config then tc_serial config else rnd) (tc_opusTags config)"
  obtain t1 d1 where h: "writeTrackHeaders fd generateChecksumTable ?t d = (None, t1, d1)"
    and w: "w = \<lparr>ow_out = d1, ow_open = True, ow_fd = fd, ow_table = generateChecksumTable, ow_track = t1\<rparr>"
    using assms(2) by (auto simp: oggw_newWith_def Let_def split: prod.splits option.splits)
  note ao = append_onlyD[OF append_only_writeTrackHeaders assms(1) h]
  show "appending (ow_out w)" using ao(1) by (simp add: w)
  show "oggw_newWith rnd (Some (heal d)) fd config = Inr (w\<lparr>ow_out := heal (ow_out w)\<rparr>)"
    using ao(3) by (simp add: oggw_newWith_def Let_def w)
qed

text \<open>
  The pages a recording would have, page by page, and the part of them that reached the output: the
  pages of the headers, the pages of the packets whose calls succeeded, and what else was written.
\<close>

lemma torn_pages:
  assumes d: "appending d" "content d = []" and new: "oggw_newWith rnd (Some d) fd config = Inr w" "\<not> tc_serialSet config"
    and xs: "opus_payloads opus pkts = Some xs" and run: "run_ogg opus pkts w = (err, w')"
  defines "t0 \<equiv> newTrackState (tc_sampleRate config) (tc_channelMapping config) rnd (tc_opusTags config)"
  defines "hp \<equiv> stream_pages rnd [] (header_packets t0)"
  shows "prefix (content (ow_out w')) (concat (map page_bytes (stream_pages rnd hp (audio_packets 0 xs))))"
    "list_all page_ok (stream_pages rnd hp (audio_packets 0 xs))"
    "run_ogg opus (take j pkts) w = (None, wj) \<Longrightarrow>
      \<exists>ys zs. opus_payloads opus (take j pkts) = Some ys \<and> xs = ys @ zs \<and>
        prefix (concat (map page_bytes (stream_pages rnd hp (audio_packets 0 ys)))) (content (ow_out w'))"
proof -
  let ?op = "\<lambda>p. oggw_WriteRTP opus (Some p)" and ?w = "w\<lparr>ow_out := heal (ow_out w)\<rparr>"
  note hl = oggw_newWith_healed[OF d(1) new(1)]
  have serial: "(if tc_serialSet config then tc_serial config else rnd) = rnd" using new(2) by simp
  have "healthy (heal d)" "content (heal d) = []" using d by (simp_all add: healthy_heal)
  from oggw_newWith_inv[OF this, where config = config and rnd = rnd and fd = fd] hl(2)
  have inv: "ogg_inv rnd hp ?w" "previousGranulePosition (ow_track ?w) = 0" unfolding serial t0_def[symmetric] hp_def[symmetric] by auto
  have run': "until_error ?op pkts w = (err, w')" using run by (simp add: run_ogg_until)
  have full: "\<exists>v. until_error ?op qs ?w = (None, v) \<and> ogg_inv rnd (stream_pages rnd hp (audio_packets 0 ys)) v"
    if "opus_payloads opus qs = Some ys" for qs ys
    using run_ogg_inv[OF inv(1) that] inv(2) by (auto simp: run_ogg_until)
  obtain v where v: "until_error ?op pkts ?w = (None, v)" "ogg_inv rnd (stream_pages rnd hp (audio_packets 0 xs)) v" using full[OF xs] by blast
  then show "list_all page_ok (stream_pages rnd hp (audio_packets 0 xs))" by (simp add: ogg_inv_def track_inv_def)
  show "prefix (content (ow_out w')) (concat (map page_bytes (stream_pages rnd hp (audio_packets 0 xs))))"
    using ogg_out.run_torn[OF hl(1) run' v(1)] v(2) by (simp add: ogg_inv_def track_inv_def)
  assume "run_ogg opus (take j pkts) w = (None, wj)"
  then have rj: "until_error ?op (take j pkts) w = (None, wj)" by (simp add: run_ogg_until)
  obtain ys zs where ys: "opus_payloads opus (take j pkts) = Some ys" "xs = ys @ zs"
    using opus_payloads_prefix[of opus "take j pkts" "drop j pkts"] xs by auto
  obtain u where u: "until_error ?op (take j pkts) ?w = (None, u)" "ogg_inv rnd (stream_pages rnd hp (audio_packets 0 ys)) u" using full[OF ys(1)] by blast
  have "u = wj\<lparr>ow_out := heal (ow_out wj)\<rparr>" using ogg_out.run_healed[OF hl(1) rj] u(1) by simp
  then have "content (ow_out wj) = concat (map page_bytes (stream_pages rnd hp (audio_packets 0 ys)))"
    using u(2) by (simp add: ogg_inv_def track_inv_def)
  then show "\<exists>ys zs. opus_payloads opus (take j pkts) = Some ys \<and> xs = ys @ zs \<and>
      prefix (concat (map page_bytes (stream_pages rnd hp (audio_packets 0 ys)))) (content (ow_out w'))"
    using ys ogg_out.run_acknowledged[OF hl(1) rj run'] by auto
qed

lemma tags_page_start: "\<not> bit pageHeaderTypeContinuationOfStream n"
  by (simp add: pageHeaderTypeContinuationOfStream_def)

text \<open>The pages of the first packets come first, and the next page starts a packet.\<close>

lemma stream_split:
  assumes "stream_pages serial hp (audio_packets 0 ys) = hp @ qj" "stream_pages serial hp (audio_packets 0 (ys @ zs)) = hp @ qs"
  shows "\<exists>qz. qs = qj @ qz \<and> (qz = [] \<or> starts_packet (page_view (hd qz)))"
proof -
  obtain g' where g: "audio_packets 0 (ys @ zs) = audio_packets 0 ys @ audio_packets g' zs" using audio_packets_append by blast
  obtain qz where qz: "stream_pages serial (hp @ qj) (audio_packets g' zs) = (hp @ qj) @ qz"
    using stream_pages_join[OF audio_plain(1)] by blast
  moreover have "qs = qj @ qz" using assms qz by (simp add: g stream_pages_append)
  ultimately show ?thesis using stream_pages_start[OF audio_plain(1)] by blast
qed

text \<open>Reading a part of the pages that holds those of the first packets returns these packets.\<close>

lemma read_part:
  assumes "stream_pages serial hp (audio_packets 0 ys) = hp @ qj" "stream_pages serial hp (audio_packets 0 (ys @ zs)) = hp @ qs"
    and "length (tp @ qj) \<le> m" "foldl join_page [] (map page_view tp) = [tags]"
  shows "prefix (tags # ys) (reassemble (map page_view (take m (tp @ qs))))"
proof -
  obtain qz where qz: "qs = qj @ qz" "qz = [] \<or> starts_packet (page_view (hd qz))" using stream_split[OF assms(1,2)] by blast
  have "foldl join_page acc (map page_view qj) = acc @ ys" for acc
    using stream_pages_join[OF audio_plain(1), of serial hp 0 ys] assms(1) audio_plain(2) by auto
  then have 1: "foldl join_page [] (map page_view (tp @ qj)) = tags # ys" using assms(4) by simp
  define rest where "rest = map page_view (take (m - length (tp @ qj)) qz)"
  have "map page_view (take m (tp @ qs)) = map page_view (tp @ qj) @ rest" using assms(3) by (simp add: qz(1) rest_def)
  moreover have "rest = [] \<or> starts_packet (hd rest)"
    using qz(2) by (cases "m - length (tp @ qj)"; cases qz) (auto simp: rest_def)
  ultimately show ?thesis using join_start[of rest "tags # ys"] 1 by (simp only: reassemble_def foldl_append)
qed

text \<open>
  C12: An Opus recording survives a failing output. Whatever the output does once the writer was created (any write or
  seek may fail, a write after any number of bytes), when the caller stops at the first error of \<open>WriteRTP\<close> and
  never closes, the file opens with the parameters of the writer and its pages pass their checksums. Joined at the
  continuation flags, the pages that are read begin with the comment header and every packet whose \<open>WriteRTP\<close> returned
  no error; together with the pages that are missing they are the whole recording. The end is \<open>io.EOF\<close> or
  \<open>io.ErrUnexpectedEOF\<close>.
\<close>

theorem ogg_durable:
  assumes "(if isFile then oggw_New rnd (Inr d) rate channels else oggw_NewWith rnd (Some d) rate channels) = Inr w"
    and "pos d = 0" "content d = []" "defaultChannelMapping channels = Inr m0" "newTrackState rate m0 rnd defaultOpusTags = t0"
    and "opus_payloads opus pkts = Some xs" "run_ogg opus pkts w = (err, w')"
  shows "\<exists>r r' pgs missing tags e. ogg_NewWith (Some \<lparr>st_data = content (ow_out w'), st_end = None\<rparr>) = Inr (r, header_of_track t0) \<and>
    reads ParseNextPage r pgs r' \<and> fst (ParseNextPage r') = Inl e \<and> e \<in> {EOF, ErrUnexpectedEOF} \<and>
    reassemble (pgs @ missing) = tags # xs \<and> ParseOpusTags tags = Inr defaultOpusTags \<and>
    (\<forall>j wj. run_ogg opus (take j pkts) w = (None, wj) \<longrightarrow>
      (\<exists>ys. opus_payloads opus (take j pkts) = Some ys \<and> prefix (tags # ys) (reassemble pgs)))"
proof -
  obtain config where c: "newTrackConfig rate channels = Inr config" "oggw_newWith rnd (Some d) isFile config = Inr w"
    using assms(1) by (auto simp: oggw_New_def oggw_NewWith_def errors_Join_def split: sum.splits if_splits prod.splits option.splits)
  note cfg = newTrackConfig_ok[OF c(1)]
  have m0: "tc_channelMapping config = m0" using cfg(5) assms(4) by simp
  have ap: "appending d" using assms(2,3) by (simp add: appending_def)
  define hp where "hp = stream_pages rnd [] (header_packets t0)"
  note torn = torn_pages[OF ap assms(3) c(2) cfg(2) assms(6,7), unfolded cfg(3,4) m0 assms(5), folded hp_def]
  define p0 where "p0 = hd (packet_pages (buildIDHeader t0) pageHeaderTypeBeginningOfStream 0 rnd 0 True)"
  define tags where "tags = buildCommentHeader (trk_opusTags t0)"
  define tp where "tp = packet_pages tags pageHeaderTypeContinuationOfStream 0 rnd 1 True"
  have hp: "hp = p0 # tp" by (simp add: hp_def header_packets_def id_page p0_def tp_def tags_def)
  have tpj: "foldl join_page [] (map page_view tp) = [tags]" using join_packet[OF tags_page_start, of "[]"] by (simp add: tp_def)
  obtain qs where qs: "stream_pages rnd hp (audio_packets 0 xs) = hp @ qs" "\<And>acc. foldl join_page acc (map page_view qs) = acc @ xs"
    using stream_pages_join[OF audio_plain(1), of rnd hp 0 xs] audio_plain(2) by auto
  have ok: "page_ok p0" "list_all page_ok (tp @ qs)" using torn(2)[unfolded qs(1)] by (simp_all add: hp)
  have "prefix (concat (map page_bytes hp)) (content (ow_out w'))" using torn(3)[of 0 w] by simp
  then obtain b where b: "content (ow_out w') = page_bytes p0 @ b" by (auto simp: hp prefix_def)
  then have pre: "prefix b (concat (map page_bytes (tp @ qs)))" using torn(1)[unfolded qs(1)] by (simp add: hp)
  define r0 where "r0 = ogg_after p0 \<lparr>ogg_stream = \<lparr>st_data = [], st_end = None\<rparr>, ogg_bytesRead = 0, checksumTable = generateChecksumTable, doChecksum = True\<rparr>"
  have t0: "trk_channelMapping t0 = m0" "trk_opusTags t0 = defaultOpusTags" using assms(5) by (auto simp: newTrackState_def)
  have "ParseOpusHead (p_payload p0) = Inr (header_of_track t0)"
    using ParseOpusHead_buildIDHeader[of t0] defaultChannelMapping_ok[OF assms(4)] t0 by (simp add: p0_def id_page)
  moreover have "p_type p0 = pageHeaderTypeBeginningOfStream" by (simp add: p0_def id_page)
  ultimately have opens: "ogg_NewWith (Some \<lparr>st_data = content (ow_out w'), st_end = None\<rparr>) = Inr (ogg_at b r0, header_of_track t0)"
    unfolding b r0_def by (intro opens_first[OF ok(1)])
  have rv: "st_end (ogg_stream r0) = None" "list_all (\<lambda>p. page_ok p \<and> checksumTable r0 = generateChecksumTable) (tp @ qs)"
    using ok(2) by (auto simp: r0_def ogg_after_def list_all_iff)
  obtain m k r' where m: "reads ParseNextPage (ogg_at b r0) (map page_view (take m (tp @ qs))) r'"
    and e: "if m = length (tp @ qs) then k = 0 \<and> fst (ParseNextPage r') = Inl EOF else k < length (page_bytes ((tp @ qs) ! m)) \<and>
      fst (ParseNextPage r') = Inl (if k \<in> {0, 27, 27 + length (p_segments ((tp @ qs) ! m))} then EOF else ErrUnexpectedEOF)"
    and all: "\<forall>j \<le> length (tp @ qs). length (concat (map page_bytes (take j (tp @ qs)))) \<le> length b \<longrightarrow> j \<le> m"
    using ogg_cut.reads_prefix[OF rv pre] by blast
  have ack: "\<exists>ys. opus_payloads opus (take j pkts) = Some ys \<and> prefix (tags # ys) (reassemble (map page_view (take m (tp @ qs))))"
    if j: "run_ogg opus (take j pkts) w = (None, wj)" for j wj
  proof -
    obtain ys zs where ys: "opus_payloads opus (take j pkts) = Some ys" "xs = ys @ zs"
      "prefix (concat (map page_bytes (stream_pages rnd hp (audio_packets 0 ys)))) (content (ow_out w'))" using torn(3)[OF j] by blast
    obtain qj where qj: "stream_pages rnd hp (audio_packets 0 ys) = hp @ qj" using stream_pages_join[OF audio_plain(1)] by blast
    have len: "length (concat (map page_bytes (tp @ qj))) \<le> length b" using prefix_length_le[OF ys(3)] unfolding qj by (simp add: hp b)
    obtain qz where "qs = qj @ qz" using stream_split[OF qj qs(1)[unfolded ys(2)]] by blast
    then have "length (tp @ qj) \<le> m" using all[rule_format, of "length (tp @ qj)"] len by simp
    then show ?thesis using read_part[OF qj qs(1)[unfolded ys(2)] _ tpj] ys(1) by blast
  qed
  have "tags_ok defaultOpusTags" by (simp add: tags_ok_def defaultOpusTags_def defaultVendor_def str_def)
  then have tg: "ParseOpusTags tags = Inr defaultOpusTags" using ParseOpusTags_buildCommentHeader[of defaultOpusTags] t0(2) by (simp add: tags_def)
  have "reassemble (map page_view (take m (tp @ qs)) @ map page_view (drop m (tp @ qs))) = tags # xs"
    unfolding map_append[symmetric] append_take_drop_id by (simp add: reassemble_def qs(2) tpj)
  moreover obtain x where "fst (ParseNextPage r') = Inl x" "x \<in> {EOF, ErrUnexpectedEOF}" using e by (auto split: if_splits)
  ultimately show ?thesis using opens m tg ack by blast
qed

definition ogg_failing_file :: sink where
  "ogg_failing_file = \<lparr>content = [], pos = 0, plan = [None, None, None, None, None, None, None, Some (10, 3)], can_seek = True, can_close = True, closed = False\<rparr>"

lemma writePage_planned:
  assumes "length payload < 65025"
  shows "plan d = None # None # pl \<Longrightarrow>
      \<exists>t' d'. writePage True generateChecksumTable payload ht gp t d = (None, t', d') \<and> plan d' = pl \<and> trk_opusTags t' = trk_opusTags t"
    "plan d = [None, Some (n, k)] \<Longrightarrow> fst (writePage True generateChecksumTable payload ht gp t d) = Some (IOErr k)"
proof -
  have "length (packet_pages payload ht gp serial idx True) = 1" for serial idx using assms by (simp add: packet_pages_length)
  then have "\<exists>p. createPagesForSerial generateChecksumTable payload ht gp serial idx = [p]" for serial idx
    by (metis createPagesForSerial_eq length_0_conv length_Suc_conv length_map One_nat_def)
  then obtain p where "createPagesForSerial generateChecksumTable payload ht gp (trk_serial t) (trk_pageIndex t) = [p]" by blast
  then show "plan d = None # None # pl \<Longrightarrow>
      \<exists>t' d'. writePage True generateChecksumTable payload ht gp t d = (None, t', d') \<and> plan d' = pl \<and> trk_opusTags t' = trk_opusTags t"
    "plan d = [None, Some (n, k)] \<Longrightarrow> fst (writePage True generateChecksumTable payload ht gp t d) = Some (IOErr k)"
    by (simp_all add: writePage_def Let_def SeekCurrent_def Write_def)
qed

lemma ogg_failing_run:
  "\<exists>w w1 w2. oggw_New 7 (Inr ogg_failing_file) 48000 2 = Inr w \<and> run_ogg Inr witness_opus w = (Some (IOErr 3), w2) \<and>
    run_ogg Inr (take 1 witness_opus) w = (None, w1)"
proof -
  obtain config where c: "newTrackConfig 48000 2 = Inr config" "tc_channelMapping config = stereo" "\<not> tc_serialSet config"
      "tc_sampleRate config = 48000" "tc_opusTags config = defaultOpusTags"
    using that default_tags_valid stereo_default by (simp add: newTrackConfig_def Let_def)
  define t0 where "t0 = newTrackState 48000 stereo 7 defaultOpusTags"
  have l: "length (buildIDHeader t0) < 65025" "length (buildCommentHeader (trk_opusTags t0)) < 65025"
  proof -
    have "length (buildIDHeader t0) < 100" "length (buildCommentHeader (trk_opusTags t0)) < 100" unfolding t0_def by code_simp+
    then show "length (buildIDHeader t0) < 65025" "length (buildCommentHeader (trk_opusTags t0)) < 65025" by simp_all
  qed
  have plan0: "plan ogg_failing_file = None # None # [None, None, None, None, None, Some (10, 3)]" by (simp add: ogg_failing_file_def)
  obtain t1 d1 where 1: "writePage True generateChecksumTable (buildIDHeader t0) pageHeaderTypeBeginningOfStream 0 t0 ogg_failing_file = (None, t1, d1)"
    "plan d1 = [None, None, None, None, None, Some (10, 3)]" "trk_opusTags t1 = trk_opusTags t0"
    using writePage_planned(1)[OF l(1), of ogg_failing_file "[None, None, None, None, None, Some (10, 3)]"] plan0 by blast
  obtain t2 d2 where 2: "writePage True generateChecksumTable (buildCommentHeader (trk_opusTags t0)) pageHeaderTypeContinuationOfStream 0 t1 d1 = (None, t2, d2)"
    "plan d2 = [None, None, None, Some (10, 3)]"
    using writePage_planned(1)[OF l(2) 1(2)] by blast
  define w where "w = \<lparr>ow_out = d2, ow_open = True, ow_fd = True, ow_table = generateChecksumTable, ow_track = t2\<rparr>"
  have new: "oggw_New 7 (Inr ogg_failing_file) 48000 2 = Inr w"
    using c 1 2 by (simp add: oggw_New_def oggw_newWith_def Let_def t0_def[symmetric] writeTrackHeaders_def writeTrackIDHeader_def writeTrackCommentHeader_def w_def)
  have step: "oggw_WriteRTP Inr (Some p) v = (case writePage (ow_fd v) (ow_table v) (rtp_Payload p) pageHeaderTypeContinuationOfStream
        (previousGranulePosition (ow_track v) + 960) ((ow_track v)\<lparr>previousGranulePosition := previousGranulePosition (ow_track v) + 960\<rparr>) (ow_out v) of
      (err, track, d) \<Rightarrow> (err, v\<lparr>ow_track := track, ow_out := d\<rparr>))"
    if "ow_open v" "rtp_Payload p \<noteq> []" "opusPacketSampleCount (rtp_Payload p) = Inr 960" for v p
    using that by (simp add: oggw_WriteRTP_def writeRTP_def opusPayloadFromPacket_def writeOpusPayload_def Let_def)
  obtain t3 d3 where 3: "writePage True generateChecksumTable [0xF8, 0xFF, 0xFE] pageHeaderTypeContinuationOfStream (previousGranulePosition t2 + 960)
      (t2\<lparr>previousGranulePosition := previousGranulePosition t2 + 960\<rparr>) d2 = (None, t3, d3)" "plan d3 = [None, Some (10, 3)]"
    using writePage_planned(1)[of "[0xF8, 0xFF, 0xFE]", OF _ 2(2)] by fastforce
  define w1 where "w1 = w\<lparr>ow_track := t3, ow_out := d3\<rparr>"
  have w1: "oggw_WriteRTP Inr (Some (witness_opus ! 0)) w = (None, w1)" "ow_open w1" "ow_fd w1" "ow_table w1 = generateChecksumTable"
      "plan (ow_out w1) = [None, Some (10, 3)]"
    using step[of w "witness_opus ! 0"] 3 witness_samples(1) by (simp_all add: witness_opus_def w_def w1_def)
  have e2: "oggw_WriteRTP Inr (Some (witness_opus ! 1)) w1 = (None, w1)"
    using w1(2) by (simp add: witness_opus_def oggw_WriteRTP_def writeRTP_def opusPayloadFromPacket_def)
  have "fst (case x of (err, track, d) \<Rightarrow> (err, w1\<lparr>ow_track := track, ow_out := d\<rparr>)) = fst x" for x :: "oggw_error option \<times> oggTrack \<times> sink"
    by (simp split: prod.split)
  then have "fst (oggw_WriteRTP Inr (Some (witness_opus ! 2)) w1) = Some (IOErr 3)"
    using step[OF w1(2), of "witness_opus ! 2"] writePage_planned(2)[of "[0x03, 0x02, 9]" "ow_out w1" 10 3] w1(3-5) witness_samples(2)
    by (simp add: witness_opus_def)
  then obtain w2 where w2: "oggw_WriteRTP Inr (Some (witness_opus ! 2)) w1 = (Some (IOErr 3), w2)" by (metis prod.collapse)
  have o: "witness_opus = [witness_opus ! 0, witness_opus ! 1, witness_opus ! 2]" by (simp add: witness_opus_def)
  have run: "run_ogg Inr witness_opus w = (Some (IOErr 3), w2)" by (subst o) (simp add: w1(1) e2[unfolded One_nat_def] w2)
  have run1: "run_ogg Inr (take 1 witness_opus) w = (None, w1)" by (subst o) (simp add: w1(1))
  show ?thesis using new run run1 by blast
qed

text \<open>The page of the third packet is torn after ten bytes; the first packet is read back.\<close>

theorem ogg_durable_witness:
  "\<exists>w err w' r r' pgs tags. oggw_New 7 (Inr ogg_failing_file) 48000 2 = Inr w \<and> run_ogg Inr witness_opus w = (Some err, w') \<and>
    ogg_NewWith (Some \<lparr>st_data = content (ow_out w'), st_end = None\<rparr>) = Inr (r, header_of_track (newTrackState 48000 stereo 7 defaultOpusTags)) \<and>
    reads ParseNextPage r pgs r' \<and> prefix [tags, [0xF8, 0xFF, 0xFE]] (reassemble pgs)"
proof -
  obtain w w1 w2 where new: "oggw_New 7 (Inr ogg_failing_file) 48000 2 = Inr w" and run: "run_ogg Inr witness_opus w = (Some (IOErr 3), w2)"
    and run1: "run_ogg Inr (take 1 witness_opus) w = (None, w1)" using ogg_failing_run by blast
  have new': "(if True then oggw_New 7 (Inr ogg_failing_file) 48000 2 else oggw_NewWith 7 (Some ogg_failing_file) 48000 2) = Inr w" using new by simp
  have f: "pos ogg_failing_file = 0" "content ogg_failing_file = []" by (simp_all add: ogg_failing_file_def)
  have ys: "opus_payloads Inr (take 1 witness_opus) = Some [[0xF8, 0xFF, 0xFE]]" by (simp add: witness_opus_def witness_samples)
  show ?thesis using ogg_durable[OF new' f stereo_default refl witness_payloads run] new run run1 ys by fastforce
qed

end
