(* ===== verification/Spec2Isabelle.thy ===== *)
theory Spec2Isabelle
  imports TsProperties TsBounds TsLoss TsConform H264Reader H265Reader RtpDump IvfReader IvfWriter IvfFiles H26xWriter Replay OggMultiplex OggDurable
begin

text \<open>
  \<^bold>\<open>Readers and writers of media containers: the Go module pion/format\<close>

  The module is a set of packages that turn RTP media into files and files into media. Each reader takes an
  \<open>io.Reader\<close>, each writer an \<open>io.Writer\<close>; the only shared code is the Annex-B splitter below the H.264
  and H.265 readers. Every package under \<open>src/\<close> is modelled, as definitions with the names of the code, and
  the central theorems join a writer to its reader.

  \<^bold>\<open>Common ground\<close>

  \<^item> \<open>Prelude\<close>: byte slices, the integer widths, Go errors (\<open>Err\<close> a sentinel, \<open>Errorf\<close> a wrapped one,
    \<open>Join\<close>), \<open>encoding/binary\<close>, slices and masks.
  \<^item> \<open>GoIO\<close>: a source is its remaining bytes and how it ends (\<open>io.EOF\<close> or a failure); an output is a
    sink with its content, its position and a \<open>plan\<close> of the calls to come that fail or write short. A sink is
    \<open>healthy\<close> when its plan has no failure. \<open>reads\<close> is the repeated call of a reader; the locale \<open>framed_stream\<close> is
    the contract of a container (a frame written is a frame read) and is interpreted for IVF frames, rtpdump
    packets and Ogg pages.
  \<^item> \<open>Checksum\<close>: the CRC tables of \<open>mpegts/crc32.go\<close> and \<open>oggwriter/oggwriter.go\<close>, both interpretations of \<open>crc_table\<close>:
    the table-driven checksum is the bit-serial one, leaves residue zero and notices every change confined to four consecutive bytes.
  \<^item> \<open>Outputs\<close>: a writer that only appends (\<open>append_only\<close>, the locale \<open>append_writer\<close>) and a container that is cut short (\<open>cut_stream\<close>). Together
    they give, for a sink that fails after any number of bytes, what a reader still finds in the file.

  \<^bold>\<open>MPEG transport streams, \<open>mpegts/\<close>\<close>

  \<^item> \<open>TsPsi\<close> (\<open>psi.go\<close>, \<open>pat.go\<close>, \<open>pmt.go\<close>, \<open>track.go\<close>), \<open>TsPacket\<close> (\<open>packet.go\<close>, \<open>adaptation.go\<close>), \<open>TsPes\<close> (\<open>pes.go\<close>), \<open>TsNal\<close> (\<open>h26x.go\<close>): the
    codecs of the format, each with its round trip, and the in-memory NAL iteration.
  \<^item> \<open>TsReader\<close> (\<open>reader.go\<close>): the demultiplexer, a record with one \<open>esStream\<close> per track. Every loop is a
    terminating function; reading ends on every input.
  \<^item> \<open>TsWriter\<close> (\<open>writer.go\<close>): the multiplexer, with the in-place filling of 188-byte packets and its specification as packets of the
    concatenated segments.
  \<^item> \<open>TsRoundTrip\<close>: what one writes the other reads, track by track, for any interleaving of calls. \<open>TsProperties\<close>: memory bounds,
    isolation of PIDs, reassembly of sections under any packetization, timestamps across wrap-arounds.
  \<^item> \<open>TsLoss\<close>: the same over a channel that loses up to fourteen packets of a PID in a row: the reader returns exactly the units of which every packet
    arrives, together with the packet behind the unit.
  \<^item> \<open>TsConform\<close>: what the stream is for any receiver: well-formed packets, counters without a gap, clock references.
  \<^item> \<open>TsBounds\<close>: the demultiplexer once more with every index and slice checked, a failed check being \<open>None\<close> for the whole call (\<open>_checked\<close>), and
    the theorem that no check fails on any input.

  \<^bold>\<open>Elementary streams\<close>

  \<^item> \<open>Annexb\<close> (\<open>internal/annexb\<close>), \<open>H264Reader\<close>, \<open>H265Reader\<close>: the byte-wise splitter as a state machine over a buffered source, and the
    readers on top of it as interpretations of the locale \<open>filtering_client\<close>.
  \<^item> \<open>H26xWriter\<close> (\<open>h264writer\<close>, \<open>h265writer\<close>): both recorders are interpretations of \<open>key_frame_recorder\<close>: nothing is written before
    the first key frame, everything after it. \<open>Replay\<close> joins recorder and reader.

  \<^bold>\<open>Containers\<close>

  \<^item> \<open>RtpDump\<close> (\<open>rtpdump/\<close>): headers, packets, the preamble expression, reader and writer.
  \<^item> \<open>IvfReader\<close>, \<open>IvfWriter\<close>: frames, size limit, resumption after truncation; the VP8 and VP9 paths are interpretations of \<open>frame_path\<close>.
    \<open>IvfFiles\<close> adds the AV1 path and the recording whose output fails.
  \<^item> \<open>OggReader\<close>, \<open>OggPages\<close>, \<open>OggWriter\<close>: pages, headers, lacing, the single-track \<open>OggWriter\<close> and the multi-track \<open>Writer\<close>.
    \<open>OggRoundTrip\<close> takes a recording from the constructor to the last page of the reader; \<open>OggMultiplex\<close> does so for
    interleaved tracks, with the writer also as an inductive step relation (\<open>writer_step\<close>, \<open>writer_reachable\<close>). \<open>OggDurable\<close> is the recording whose output fails.

  \<^bold>\<open>Parameters\<close>

  Code outside the repository is an argument: the RTP payload formats of pion/rtp (\<open>opus_Unmarshal\<close>, \<open>ivf_codecs\<close>, the H.264 and H.265
  depacketizers), the results of \<open>os.Create\<close>, the random numbers of pion/randutil. The theorems quantify over these
  arguments and ask of them at most that the packets of a run are taken apart without an error; \<open>Replay\<close> also that what the depacketizer gives
  for the packets of the run are NAL units in Annex-B form (\<open>carries\<close>), a hypothesis on these packets and not on all payloads.

  \<^bold>\<open>Errors, panics, loops\<close>

  Every early return is a branch of a sum or an option. Where the code could panic, or a loop might not end, the model has the value \<open>None\<close>
  (\<open>feed\<close>, \<open>NewReader\<close>, \<open>allocateSerial\<close>, \<open>WriteRTP\<close> of the recorders), and a theorem says when it does not occur. Elsewhere an index is HOL's \<open>!\<close>; for the demultiplexer, which parses
  untrusted bytes throughout, \<open>TsBounds\<close> shows that every index is in range. There
  is no fuel: recursion is structural or has a measure, except for \<open>allocateSerial\<close>, which returns as soon as the
  random numbers give a free one.

  \<^bold>\<open>Not modelled\<close>

  \<open>internal/util/util.go\<close> is one call into pion/randutil, \<open>template.go\<close> holds no code. The mutexes of \<open>rtpdump\<close> and \<open>oggwriter\<close>
  are left out, calls are sequences of steps. A \<open>pageRewriter\<close> is the output itself, its documented use. \<open>int\<close> has 64 bits.
\<close>

end
